(* ===== verification/Prelude.thy ===== *)
theory Prelude
  imports Main "HOL-Library.Word" "HOL-Library.Signed_Division"
begin

text \<open>
  Shared vocabulary of the development: the theorem collections the component theories
  fill and use, and the signed 64-bit integers of Go (\<open>int64\<close>, and \<open>int\<close> and
  \<open>time.Duration\<close>, which are 64 bits wide on the amd64 target the Dockerfile builds for).
  An \<open>int64\<close> is a \<open>64 word\<close>: \<open>+\<close>, \<open>-\<close> and \<open>*\<close> wrap around as in Go, \<open><s\<close> and \<open>\<le>s\<close>
  are Go's signed comparisons, and \<open>sint\<close> reads the value.
\<close>

named_theorems i64 \<open>reading signed 64-bit arithmetic as integer arithmetic\<close>
named_theorems go_defs \<open>definitions of the standard library's operations\<close>
named_theorems store_laws \<open>what a store operation does to what a later read returns\<close>

section \<open>Signed 64-bit integers\<close>

type_synonym int64 = "64 word"
type_synonym int32 = "32 word"

definition in_i64 :: "int \<Rightarrow> bool" where
  "in_i64 x \<longleftrightarrow> - 9223372036854775808 \<le> x \<and> x < 9223372036854775808"

lemma sint_in_i64 [simp, intro]: "in_i64 (sint (a :: int64))"
  using sint_greater_eq [of a] sint_less [of a] by (simp add: in_i64_def)

lemma sint_lower: "- 9223372036854775808 \<le> sint (a :: int64)"
  and sint_upper: "sint (a :: int64) < 9223372036854775808"
  using sint_in_i64 [of a] by (simp_all add: in_i64_def)

lemma signed_take_bit_in_i64: "in_i64 x \<Longrightarrow> signed_take_bit 63 x = x"
  by (rule signed_take_bit_int_eq_self) (simp_all add: in_i64_def)

lemma sint_of_int_i64 [i64]: "in_i64 x \<Longrightarrow> sint (word_of_int x :: int64) = x"
  by (simp add: signed_take_bit_in_i64 sint_sbintrunc')

lemma sint_add_i64 [i64]: "in_i64 (sint a + sint b) \<Longrightarrow> sint (a + b :: int64) = sint a + sint b"
  by (simp add: sint_word_add signed_take_bit_in_i64)

lemma sint_sub_i64 [i64]: "in_i64 (sint a - sint b) \<Longrightarrow> sint (a - b :: int64) = sint a - sint b"
  by (simp add: sint_word_diff signed_take_bit_in_i64)

lemma sint_mult_i64 [i64]: "in_i64 (sint a * sint b) \<Longrightarrow> sint (a * b :: int64) = sint a * sint b"
  by (simp add: sint_word_mult signed_take_bit_in_i64)

lemma sless_i64 [i64]: "(a :: int64) <s b \<longleftrightarrow> sint a < sint b"
  by (simp add: word_sless_alt)

lemma sle_i64 [i64]: "(a :: int64) \<le>s b \<longleftrightarrow> sint a \<le> sint b"
  by (simp add: word_sle_eq)

lemma sint_inject_i64: "sint (a :: int64) = sint b \<longleftrightarrow> a = b"
  by (auto intro: signed_word_eqI)

lemma sint_eqD: "sint (a :: int64) = x \<Longrightarrow> a = word_of_int x"
  by (auto simp: sint_of_int_i64 sint_inject_i64 [symmetric])

text \<open>
  Go's integer division truncates towards zero. The division by zero panics, so every use
  in the models is guarded by the check the run-time system makes; the quotient of the
  least integer by \<open>-1\<close> wraps to the least integer.
\<close>

definition go_div :: "int64 \<Rightarrow> int64 \<Rightarrow> int64" where
  "go_div a b = word_of_int (sint a sdiv sint b)"

definition go_mod :: "int64 \<Rightarrow> int64 \<Rightarrow> int64" where
  "go_mod a b = word_of_int (sint a smod sint b)"

lemma sdiv_nonneg: "0 \<le> a \<Longrightarrow> 0 \<le> b \<Longrightarrow> (a :: int) sdiv b = a div b"
  by (cases "a = 0"; cases "b = 0") (simp_all add: signed_divide_int_def sgn_mult)

lemma smod_nonneg: "0 \<le> a \<Longrightarrow> 0 \<le> b \<Longrightarrow> (a :: int) smod b = a mod b"
  by (metis minus_div_mult_eq_mod minus_sdiv_mult_eq_smod sdiv_nonneg)

lemma div_nonneg_bound: "0 \<le> a \<Longrightarrow> 0 \<le> b \<Longrightarrow> 0 \<le> a div b \<and> a div b \<le> (a :: int)"
  using zdiv_mono2 [of a 1 b] by (cases "b = 0") (auto simp: pos_imp_zdiv_nonneg_iff)

lemma sint_go_div [i64]:
  assumes "0 \<le> sint a" and "0 \<le> sint b"
  shows "sint (go_div a b) = sint a div sint b"
proof -
  have "0 \<le> sint a div sint b \<and> sint a div sint b \<le> sint a"
    using assms by (rule div_nonneg_bound)
  then have "in_i64 (sint a div sint b)"
    using sint_upper [of a] by (simp add: in_i64_def)
  then show ?thesis
    using assms by (simp add: go_div_def sdiv_nonneg sint_of_int_i64)
qed

section \<open>Lists\<close>

lemma length_filter_mono:
  "(\<And>x. x \<in> set xs \<Longrightarrow> P x \<Longrightarrow> Q x) \<Longrightarrow> length (filter P xs) \<le> length (filter Q xs)"
proof (induction xs)
  case (Cons x xs)
  then have "length (filter P xs) \<le> length (filter Q xs)" by simp
  with Cons.prems [of x] show ?case by auto
qed simp

end
