(* ===== verification/GoFloat.thy ===== *)
theory GoFloat
  imports Prelude Complex_Main "HOL-Library.Log_Nat"
begin

text \<open>
  Go's \<open>float64\<close>: IEEE 754 binary64 with rounding to nearest, ties to even. A finite
  non-zero value is the rational it denotes, the two zeros keep their sign, and every
  operation rounds the exact rational result with \<open>f64_round\<close>. All definitions compute.
\<close>

section \<open>Rounding a positive rational\<close>

text \<open>\<open>flog2 x\<close> is the exponent of the leading binary digit of a positive rational.\<close>

definition flog2 :: "rat \<Rightarrow> int" where
  "flog2 x = (let (p, q) = quotient_of x; e = bitlen p - bitlen q
     in if 2 powi e \<le> x then e else e - 1)"

definition round_even :: "rat \<Rightarrow> int" where
  "round_even x = (let f = \<lfloor>x\<rfloor>; r = x - of_int f
     in if r < 1 / 2 then f else if 1 / 2 < r then f + 1 else if even f then f else f + 1)"

text \<open>
  The distance between neighbouring doubles around \<open>x\<close> is \<open>2 powi ulp_exp x\<close>: 52 binary
  digits after the leading one, but never below the smallest subnormal.
\<close>

definition ulp_exp :: "rat \<Rightarrow> int" where
  "ulp_exp x = max (flog2 x - 52) (- 1074)"

definition round_pos :: "rat \<Rightarrow> rat" where
  "round_pos x = of_int (round_even (x / 2 powi ulp_exp x)) * 2 powi ulp_exp x"

subsection \<open>Lemmas on powers of two\<close>

lemma pow2_pos [simp]: "0 < (2 :: rat) powi e"
  by (simp add: zero_less_power_int)

lemma pow2_not_neg [simp]: "\<not> (2 :: rat) powi e < 0"
  using pow2_pos [of e] by linarith

lemma pow2_nz [simp]: "(2 :: rat) powi e \<noteq> 0"
  by simp

lemma pow2_add: "(2 :: rat) powi (a + b) = 2 powi a * 2 powi b"
  by (simp add: power_int_add)

lemma pow2_diff: "(2 :: rat) powi (a - b) = 2 powi a / 2 powi b"
  by (simp add: power_int_diff)

lemma pow2_le_iff [simp]: "(2 :: rat) powi a \<le> 2 powi b \<longleftrightarrow> a \<le> b"
  by (meson linorder_not_le order_less_imp_le power_int_increasing power_int_strict_increasing
      one_le_numeral one_less_numeral_iff semiring_norm(76))

lemma pow2_less_iff [simp]: "(2 :: rat) powi a < 2 powi b \<longleftrightarrow> a < b"
  by (simp add: linorder_not_le [symmetric])

lemma pow2_nat: "0 \<le> e \<Longrightarrow> (2 :: rat) powi e = of_int (2 ^ nat e)"
  by (simp add: power_int_def)

lemma flog2_bounds:
  assumes "0 < x"
  shows "2 powi (flog2 x) \<le> x \<and> x < 2 powi (flog2 x + 1)"
proof -
  obtain p q where pq: "quotient_of x = (p, q)" by (cases "quotient_of x")
  have q: "0 < q" and x: "x = of_int p / of_int q"
    using pq quotient_of_denom_pos quotient_of_div by blast+
  have p: "0 < p"
    using assms q by (simp add: x zero_less_divide_iff)
  let ?e = "bitlen p - bitlen q"
  have bits: "(2 :: rat) powi (bitlen n - 1) \<le> of_int n \<and> of_int n < (2 :: rat) powi bitlen n"
    if n: "0 < n" for n
  proof -
    have "1 \<le> bitlen n" using n by (simp add: bitlen_def floorlog_def)
    moreover from bitlen_bounds [OF n]
    have "(2 :: int) ^ nat (bitlen n - 1) \<le> n" and "n < 2 ^ nat (bitlen n)" by simp_all
    ultimately show ?thesis
      by (simp add: pow2_nat del: of_int_power)
  qed
  have up: "x < 2 powi (?e + 1)"
  proof -
    have "x < 2 powi bitlen p / 2 powi (bitlen q - 1)"
      unfolding x using bits [OF p] bits [OF q] p q by (intro frac_less) simp_all
    also have "\<dots> = 2 powi (?e + 1)" by (simp add: algebra_simps flip: pow2_diff)
    finally show ?thesis .
  qed
  have low: "2 powi (?e - 1) \<le> x"
  proof -
    have "(2 :: rat) powi (?e - 1) = 2 powi (bitlen p - 1) / 2 powi bitlen q"
      by (simp add: algebra_simps flip: pow2_diff)
    also have "\<dots> \<le> x"
      unfolding x using bits [OF p] bits [OF q] p q by (intro frac_le) simp_all
    finally show ?thesis .
  qed
  show ?thesis
    using up low by (auto simp: flog2_def pq Let_def)
qed

lemma flog2_less: "0 < x \<Longrightarrow> x < 2 powi e \<Longrightarrow> flog2 x < e"
  by (meson flog2_bounds order_le_less_trans pow2_less_iff)

lemma flog2_ge: "0 < x \<Longrightarrow> 2 powi e \<le> x \<Longrightarrow> e \<le> flog2 x"
  using flog2_bounds [of x] order_le_less_trans [of "2 powi e" x "2 powi (flog2 x + 1)"] by auto

lemma flog2_eq: "2 powi e \<le> x \<Longrightarrow> x < 2 powi (e + 1) \<Longrightarrow> flog2 x = e"
  using flog2_ge [of x e] flog2_less [of x "e + 1"] pow2_pos [of e] by force

subsection \<open>Lemmas on rounding\<close>

lemma round_even_of_int [simp]: "round_even (of_int n) = n"
  by (simp add: round_even_def)

lemma round_even_close: "\<bar>of_int (round_even x) - x\<bar> \<le> 1 / 2"
  using floor_correct [of x] by (auto simp: round_even_def Let_def abs_le_iff)

lemma round_even_mono: "x \<le> y \<Longrightarrow> round_even x \<le> round_even y"
proof -
  assume le: "x \<le> y"
  show ?thesis
  proof (cases "\<lfloor>x\<rfloor> = \<lfloor>y\<rfloor>")
    case True
    with le show ?thesis by (auto simp: round_even_def Let_def)
  next
    case False
    with le have "\<lfloor>x\<rfloor> + 1 \<le> \<lfloor>y\<rfloor>" using floor_mono [OF le] by linarith
    moreover have "round_even x \<le> \<lfloor>x\<rfloor> + 1" and "\<lfloor>y\<rfloor> \<le> round_even y"
      by (auto simp: round_even_def Let_def)
    ultimately show ?thesis by linarith
  qed
qed

lemma round_even_near: "\<bar>x - of_int n\<bar> < 1 / 2 \<Longrightarrow> round_even x = n"
proof -
  assume near: "\<bar>x - of_int n\<bar> < 1 / 2"
  have "\<bar>of_int (round_even x) - (of_int n :: rat)\<bar> < 1"
    using near round_even_close [of x] by linarith
  then show ?thesis by linarith
qed

lemma round_even_le: "x \<le> of_int n \<Longrightarrow> round_even x \<le> n"
  using round_even_mono [of x "of_int n"] by simp

lemma round_even_ge: "of_int n \<le> x \<Longrightarrow> n \<le> round_even x"
  using round_even_mono [of "of_int n" x] by simp

lemma ulp_exp_min: "- 1074 \<le> ulp_exp x"
  by (simp add: ulp_exp_def)

lemma round_pos_nonneg: "0 < x \<Longrightarrow> 0 \<le> round_pos x"
  using round_even_ge [of 0 "x / 2 powi ulp_exp x"] by (simp add: round_pos_def)

text \<open>A power of two that is a multiple of the spacing bounds the rounded value.\<close>

lemma round_pos_le_pow2: "x \<le> 2 powi k \<Longrightarrow> ulp_exp x \<le> k \<Longrightarrow> round_pos x \<le> 2 powi k"
proof -
  assume le: "x \<le> 2 powi k" and k: "ulp_exp x \<le> k"
  let ?u = "ulp_exp x"
  have int: "(2 :: rat) powi (k - ?u) = of_int (2 ^ nat (k - ?u))"
    using k by (intro pow2_nat) simp
  have "x / 2 powi ?u \<le> of_int (2 ^ nat (k - ?u))"
    using le by (simp add: divide_right_mono pow2_diff flip: int del: of_int_power)
  then have "of_int (round_even (x / 2 powi ?u)) \<le> (2 :: rat) powi (k - ?u)"
    unfolding int of_int_le_iff by (rule round_even_le)
  then show ?thesis
    by (simp add: round_pos_def pow2_diff pos_le_divide_eq)
qed

lemma round_pos_ge_pow2: "2 powi k \<le> x \<Longrightarrow> ulp_exp x \<le> k \<Longrightarrow> 2 powi k \<le> round_pos x"
proof -
  assume le: "2 powi k \<le> x" and k: "ulp_exp x \<le> k"
  let ?u = "ulp_exp x"
  have int: "(2 :: rat) powi (k - ?u) = of_int (2 ^ nat (k - ?u))"
    using k by (intro pow2_nat) simp
  have "of_int (2 ^ nat (k - ?u)) \<le> x / 2 powi ?u"
    using le by (simp add: divide_right_mono pow2_diff flip: int del: of_int_power)
  then have "(2 :: rat) powi (k - ?u) \<le> of_int (round_even (x / 2 powi ?u))"
    unfolding int of_int_le_iff by (rule round_even_ge)
  then show ?thesis
    by (simp add: round_pos_def pow2_diff pos_divide_le_eq)
qed

lemma round_pos_mono:
  assumes "0 < x" and "x \<le> y"
  shows "round_pos x \<le> round_pos y"
proof (cases "ulp_exp x = ulp_exp y")
  case True
  have "round_even (x / 2 powi ulp_exp y) \<le> round_even (y / 2 powi ulp_exp y)"
    using assms by (intro round_even_mono divide_right_mono) simp_all
  then show ?thesis by (simp add: round_pos_def True mult_right_mono)
next
  case False
  have y: "0 < y" using assms by simp
  have "flog2 x \<le> flog2 y"
    using assms flog2_bounds [of x] by (intro flog2_ge y) simp
  with False have lt: "flog2 x < flog2 y" and u: "ulp_exp y = flog2 y - 52"
    and v: "ulp_exp x \<le> flog2 y"
    by (auto simp: ulp_exp_def)
  have "x \<le> 2 powi flog2 y"
  proof -
    have "x < 2 powi (flog2 x + 1)" using flog2_bounds [OF assms(1)] by simp
    also have "\<dots> \<le> 2 powi flog2 y" using lt by simp
    finally show ?thesis by simp
  qed
  then have "round_pos x \<le> 2 powi flog2 y" using v by (rule round_pos_le_pow2)
  also have "\<dots> \<le> round_pos y"
    using flog2_bounds [OF y] u by (intro round_pos_ge_pow2) simp_all
  finally show ?thesis .
qed

text \<open>Every multiple of a spacing with at most 53 digits is a fixed point of rounding.\<close>

lemma round_pos_exact_less:
  assumes "0 < m" and "m < 2 ^ 53" and "- 1074 \<le> e"
  shows "round_pos (of_int m * 2 powi e) = of_int m * 2 powi e"
proof -
  let ?x = "of_int m * (2 :: rat) powi e"
  have x: "0 < ?x" using assms by simp
  have "?x < 2 powi (53 + e)"
  proof -
    have "of_int m < (2 :: rat) ^ 53" using assms(2)
      by (metis of_int_less_iff of_int_numeral of_int_power)
    then show ?thesis by (simp add: pow2_add)
  qed
  then have "flog2 ?x < 53 + e" by (rule flog2_less [OF x])
  with assms(3) have u: "ulp_exp ?x \<le> e" by (simp add: ulp_exp_def)
  have "?x / 2 powi ulp_exp ?x = of_int (m * 2 ^ nat (e - ulp_exp ?x))"
    using u pow2_nat [of "e - ulp_exp ?x"] by (simp add: pow2_diff flip: times_divide_eq_right)
  then show ?thesis
    by (simp add: round_pos_def del: of_int_mult) (metis nonzero_divide_eq_eq pow2_nz)
qed

lemma round_pos_exact:
  assumes "0 < m" and "m \<le> 2 ^ 53" and "- 1074 \<le> e"
  shows "round_pos (of_int m * 2 powi e) = of_int m * 2 powi e"
proof (cases "m = 2 ^ 53")
  case True
  have "round_pos (of_int (2 ^ 52) * 2 powi (e + 1)) = of_int (2 ^ 52) * 2 powi (e + 1)"
    using assms(3) by (intro round_pos_exact_less) simp_all
  then show ?thesis by (simp add: True pow2_add)
next
  case False
  with assms show ?thesis by (intro round_pos_exact_less) simp_all
qed

lemma round_pos_mult: "\<exists>m. round_pos x = of_int m * 2 powi ulp_exp x \<and> m = round_even (x / 2 powi ulp_exp x)"
  by (simp add: round_pos_def)

lemma round_even_ulp_bound:
  assumes "0 < x"
  shows "round_even (x / 2 powi ulp_exp x) \<le> 2 ^ 53"
proof (rule round_even_le)
  have "x < 2 powi (flog2 x + 1)" using flog2_bounds [OF assms] by simp
  also have "\<dots> \<le> 2 powi (53 + ulp_exp x)" by (simp add: ulp_exp_def)
  finally show "x / 2 powi ulp_exp x \<le> of_int (2 ^ 53)"
    by (simp add: pow2_add pos_divide_le_eq)
qed

lemma round_pos_idem:
  assumes "0 < x" and "0 < round_pos x"
  shows "round_pos (round_pos x) = round_pos x"
proof -
  have "0 < round_even (x / 2 powi ulp_exp x)"
    using assms(2) by (auto simp: round_pos_def zero_less_mult_iff)
  then show ?thesis
    unfolding round_pos_def [of x] using round_even_ulp_bound [OF assms(1)] ulp_exp_min [of x]
    by (intro round_pos_exact)
qed

lemma round_pos_int:
  assumes "0 < n" and "n \<le> 2 ^ 53"
  shows "round_pos (of_int n) = of_int n"
  using round_pos_exact [of n 0] assms by simp

text \<open>
  A value within a relative distance of \<open>2 powi -54\<close> of a double rounds to it. This is what
  makes 17 significant decimal digits enough to read a double back.
\<close>

lemma round_pos_fixed:
  assumes "0 < x" and "round_pos x = x"
  obtains m where "x = of_int m * 2 powi ulp_exp x" "0 < m" "m < 2 ^ 53"
proof -
  let ?m = "round_even (x / 2 powi ulp_exp x)"
  have x: "x = of_int ?m * 2 powi ulp_exp x"
    using assms(2) by (simp add: round_pos_def)
  have "0 < of_int ?m * (2 :: rat) powi ulp_exp x"
    using assms(1) x by metis
  then have "(0 :: rat) < of_int ?m"
    by (rule zero_less_mult_pos2) simp
  then have pos: "0 < ?m" by simp
  have "of_int ?m * 2 powi ulp_exp x < (2 :: rat) powi (flog2 x + 1)"
    using flog2_bounds [OF assms(1)] x by metis
  also have "\<dots> \<le> 2 powi (53 + ulp_exp x)" by (simp add: ulp_exp_def)
  finally have "of_int ?m < (of_int (2 ^ 53) :: rat)" by (simp add: pow2_add)
  then have "?m < 2 ^ 53" by (simp only: of_int_less_iff)
  with x pos show ?thesis by (rule that)
qed

lemma round_pos_near_same:
  assumes "x = of_int m * 2 powi ulp_exp y" and "\<bar>y - x\<bar> < 2 powi (ulp_exp y - 1)"
  shows "round_pos y = x"
proof -
  have "y / 2 powi ulp_exp y - of_int m = (y - x) / 2 powi ulp_exp y"
    by (simp add: assms(1) diff_divide_distrib)
  then have "\<bar>y / 2 powi ulp_exp y - of_int m\<bar> = \<bar>y - x\<bar> / 2 powi ulp_exp y"
    by (simp add: abs_divide)
  also have "\<dots> < 1 / 2"
    using assms(2) by (simp add: pow2_diff pos_divide_less_eq)
  finally have "round_even (y / 2 powi ulp_exp y) = m" by (rule round_even_near)
  then show ?thesis by (simp add: round_pos_def assms(1))
qed

lemma round_pos_near:
  assumes x: "0 < x" "round_pos x = x" and y: "0 < y" and near: "\<bar>y - x\<bar> < x / 2 ^ 54"
  shows "round_pos y = x"
proof -
  obtain m e where ux: "ulp_exp x = e" and m: "x = of_int m * 2 powi e" "0 < m" "m < 2 ^ 53"
    using round_pos_fixed [OF x] by metis
  have "m \<le> 2 ^ 53 - 1" using m(3) by simp
  then have "of_int m \<le> (of_int (2 ^ 53 - 1) :: rat)" by (simp only: of_int_le_iff)
  then have m53: "of_int m \<le> (2 ^ 53 - 1 :: rat)" by simp
  have close: "\<bar>y - x\<bar> < 2 powi (e - 1)"
  proof -
    have "of_int m * 2 powi e \<le> 2 ^ 53 * (2 :: rat) powi e"
      using m53 by (intro mult_right_mono) simp_all
    then have "x / 2 ^ 54 \<le> 2 powi (e - 1)" by (simp add: m(1) pow2_diff)
    with near show ?thesis by simp
  qed
  have not_above: "ulp_exp y \<le> e"
  proof (rule ccontr)
    assume "\<not> ulp_exp y \<le> e"
    then have "e + 53 \<le> flog2 y" using ulp_exp_min [of x] ux by (auto simp: ulp_exp_def)
    then have low: "2 powi (e + 53) \<le> y"
      using flog2_bounds [OF y] by (meson order_trans pow2_le_iff)
    have "y < x + 2 powi (e - 1)" using close by linarith
    then have "y < (of_int m + 1 / 2) * 2 powi e"
      by (simp add: m(1) pow2_diff algebra_simps)
    also have "\<dots> \<le> 2 ^ 53 * (2 :: rat) powi e"
      using m53 by (intro mult_right_mono) simp_all
    also have "\<dots> = 2 powi (e + 53)" by (simp add: pow2_add)
    finally show False using low by simp
  qed
  show ?thesis
  proof (cases "ulp_exp y = e")
    case True
    then show ?thesis using m(1) close by (intro round_pos_near_same) simp_all
  next
    case False
    with not_above have lt: "ulp_exp y < e" by simp
    then have e: "e = flog2 x - 52" and fy: "flog2 y < flog2 x"
      using ulp_exp_min [of y] ux by (auto simp: ulp_exp_def max_def split: if_splits)
    have low: "2 powi (e + 52) \<le> x" using flog2_bounds [OF x(1)] e by simp
    have y_less: "y < 2 powi (e + 52)"
    proof -
      have "y < 2 powi (flog2 y + 1)" using flog2_bounds [OF y] by simp
      also have "\<dots> \<le> 2 powi (e + 52)" using e fy by simp
      finally show ?thesis .
    qed
    have "2 powi (e + 51) \<le> y"
    proof -
      have "2 powi (e + 51) = 2 powi (e + 52) / (2 :: rat)" by (simp add: pow2_add)
      also have "\<dots> \<le> x / 2" using low by simp
      also have "\<dots> \<le> y" using near x(1) abs_ge_minus_self [of "y - x"] by simp
      finally show ?thesis .
    qed
    then have "e + 51 \<le> flog2 y" by (rule flog2_ge [OF y])
    with lt have u: "ulp_exp y = e - 1" by (simp add: ulp_exp_def)
    have "x - 2 powi (e - 1) < y" using close by linarith
    also note y_less
    finally have "(of_int m - 1 / 2) * 2 powi e < 2 ^ 52 * (2 :: rat) powi e"
      by (simp add: m(1) pow2_add pow2_diff algebra_simps)
    then have "of_int m - 1 / 2 < (of_int (2 ^ 52) :: rat)" by simp
    then have "m \<le> 2 ^ 52" by linarith
    moreover have "2 ^ 52 * 2 powi e \<le> of_int m * (2 :: rat) powi e"
      using low by (simp add: m(1) pow2_add mult.commute)
    then have "of_int (2 ^ 52) \<le> (of_int m :: rat)" by simp
    then have "2 ^ 52 \<le> m" by (simp only: of_int_le_iff)
    ultimately have m52: "m = 2 ^ 52" by simp
    have "x = of_int (2 ^ 53) * 2 powi (e - 1)" by (simp add: m(1) m52 pow2_diff)
    moreover have "\<bar>y - x\<bar> < 2 powi (e - 2)"
      using near by (simp add: m(1) m52 pow2_diff)
    ultimately show ?thesis by (intro round_pos_near_same) (simp_all add: u)
  qed
qed

section \<open>The values and their operations\<close>

datatype f64 = NaN | Inf bool | Zero bool | Num rat

text \<open>
  The flag of \<open>Inf\<close> and \<open>Zero\<close> is the sign bit. A \<open>Num\<close> holds a non-zero finite double;
  \<open>wf_f64\<close> says that it is one, and every operation returns well-formed values.
\<close>

fun wf_f64 :: "f64 \<Rightarrow> bool" where
  "wf_f64 (Num x) \<longleftrightarrow> x \<noteq> 0 \<and> round_pos \<bar>x\<bar> = \<bar>x\<bar> \<and> flog2 \<bar>x\<bar> < 1024"
| "wf_f64 _ \<longleftrightarrow> True"

fun is_finite :: "f64 \<Rightarrow> bool" where
  "is_finite (Num x) = True"
| "is_finite (Zero s) = True"
| "is_finite _ = False"

fun f64_val :: "f64 \<Rightarrow> rat" where
  "f64_val (Num x) = x"
| "f64_val _ = 0"

fun f64_neg_sign :: "f64 \<Rightarrow> bool" where
  "f64_neg_sign NaN = False"
| "f64_neg_sign (Inf s) = s"
| "f64_neg_sign (Zero s) = s"
| "f64_neg_sign (Num x) = (x < 0)"

text \<open>
  \<open>f64_round z x\<close> is the double nearest to \<open>x\<close>; \<open>z\<close> is the sign of an exact zero, and a
  magnitude whose exponent reaches 1024 after rounding overflows to an infinity.
\<close>

definition f64_round :: "bool \<Rightarrow> rat \<Rightarrow> f64" where
  "f64_round z x =
     (if x = 0 then Zero z
      else let y = round_pos \<bar>x\<bar> in
        if y = 0 then Zero (x < 0)
        else if 1024 \<le> flog2 y then Inf (x < 0)
        else Num (if x < 0 then - y else y))"

definition f64_of_int :: "int \<Rightarrow> f64" where
  "f64_of_int n = f64_round False (of_int n)"

fun f64_add :: "f64 \<Rightarrow> f64 \<Rightarrow> f64" where
  "f64_add NaN _ = NaN"
| "f64_add _ NaN = NaN"
| "f64_add (Inf s) (Inf t) = (if s = t then Inf s else NaN)"
| "f64_add (Inf s) _ = Inf s"
| "f64_add _ (Inf t) = Inf t"
| "f64_add (Zero s) (Zero t) = Zero (s \<and> t)"
| "f64_add a b = f64_round False (f64_val a + f64_val b)"

fun f64_neg :: "f64 \<Rightarrow> f64" where
  "f64_neg NaN = NaN"
| "f64_neg (Inf s) = Inf (\<not> s)"
| "f64_neg (Zero s) = Zero (\<not> s)"
| "f64_neg (Num x) = Num (- x)"

definition f64_sub :: "f64 \<Rightarrow> f64 \<Rightarrow> f64" where
  "f64_sub a b = f64_add a (f64_neg b)"

fun f64_mul :: "f64 \<Rightarrow> f64 \<Rightarrow> f64" where
  "f64_mul NaN _ = NaN"
| "f64_mul _ NaN = NaN"
| "f64_mul (Inf s) (Zero t) = NaN"
| "f64_mul (Zero s) (Inf t) = NaN"
| "f64_mul (Inf s) b = Inf (s \<noteq> f64_neg_sign b)"
| "f64_mul a (Inf t) = Inf (f64_neg_sign a \<noteq> t)"
| "f64_mul a b = f64_round (f64_neg_sign a \<noteq> f64_neg_sign b) (f64_val a * f64_val b)"

fun f64_div :: "f64 \<Rightarrow> f64 \<Rightarrow> f64" where
  "f64_div NaN _ = NaN"
| "f64_div _ NaN = NaN"
| "f64_div (Inf s) (Inf t) = NaN"
| "f64_div (Inf s) b = Inf (s \<noteq> f64_neg_sign b)"
| "f64_div a (Inf t) = Zero (f64_neg_sign a \<noteq> t)"
| "f64_div (Zero s) (Zero t) = NaN"
| "f64_div a (Zero t) = Inf (f64_neg_sign a \<noteq> t)"
| "f64_div a b = f64_round (f64_neg_sign a \<noteq> f64_neg_sign b) (f64_val a / f64_val b)"

text \<open>Comparisons are false when an operand is a NaN; the two zeros are equal.\<close>

fun f64_less :: "f64 \<Rightarrow> f64 \<Rightarrow> bool" where
  "f64_less NaN _ = False"
| "f64_less _ NaN = False"
| "f64_less (Inf s) (Inf t) = (s \<and> \<not> t)"
| "f64_less (Inf s) _ = s"
| "f64_less _ (Inf t) = (\<not> t)"
| "f64_less a b = (f64_val a < f64_val b)"

fun f64_le :: "f64 \<Rightarrow> f64 \<Rightarrow> bool" where
  "f64_le NaN _ = False"
| "f64_le _ NaN = False"
| "f64_le (Inf s) (Inf t) = (s \<or> \<not> t)"
| "f64_le (Inf s) _ = s"
| "f64_le _ (Inf t) = (\<not> t)"
| "f64_le a b = (f64_val a \<le> f64_val b)"

text \<open>
  The conversion \<open>int(f)\<close> truncates. Go leaves the result of an out-of-range conversion to
  the implementation; on amd64 it is the least integer.
\<close>

fun f64_to_i64 :: "f64 \<Rightarrow> int64" where
  "f64_to_i64 NaN = word_of_int (- 9223372036854775808)"
| "f64_to_i64 (Inf s) = word_of_int (- 9223372036854775808)"
| "f64_to_i64 (Zero s) = 0"
| "f64_to_i64 (Num x) = (let t = (if x < 0 then - \<lfloor>- x\<rfloor> else \<lfloor>x\<rfloor>)
     in word_of_int (if in_i64 t then t else - 9223372036854775808))"

subsection \<open>Lemmas\<close>

lemma wf_f64_round [simp]: "wf_f64 (f64_round z x)"
proof (cases "x = 0 \<or> round_pos \<bar>x\<bar> = 0")
  case True
  then show ?thesis by (auto simp: f64_round_def Let_def)
next
  case False
  then have x: "0 < \<bar>x\<bar>" and "0 < round_pos \<bar>x\<bar>"
    using round_pos_nonneg [of "\<bar>x\<bar>"] by auto
  then have "round_pos (round_pos \<bar>x\<bar>) = round_pos \<bar>x\<bar>" by (rule round_pos_idem)
  with False x show ?thesis
    using round_pos_nonneg [OF x] by (auto simp: f64_round_def Let_def abs_if)
qed

lemma f64_round_exact: "wf_f64 (Num x) \<Longrightarrow> f64_round z x = Num x"
  by (auto simp: f64_round_def Let_def abs_if split: if_splits)

lemma f64_of_int_exact:
  assumes "0 < n" and "n \<le> 2 ^ 53"
  shows "f64_of_int n = Num (of_int n)"
proof -
  have "of_int n < (2 :: rat) powi 54"
    using assms(2) by simp
  then have "flog2 (of_int n) < 54"
    using assms(1) by (intro flog2_less) simp_all
  then show ?thesis
    using assms round_pos_int [OF assms] by (simp add: f64_of_int_def f64_round_def not_le)
qed

lemma f64_of_int_zero [simp]: "f64_of_int 0 = Zero False"
  by (simp add: f64_of_int_def f64_round_def)

end
