(* ===== verification/GoStrconv.thy ===== *)
theory GoStrconv
  imports GoFloat
begin

text \<open>
  Decimal text of Go's numbers, the part of \<open>strconv\<close> and of \<open>fmt\<close>'s \<open>%d\<close> that the
  program uses: printing and parsing 64-bit integers, and the shortest decimal of a
  \<open>float64\<close> that reads back as the same value, with its parser. Strings are lists of bytes.
\<close>

section \<open>Digits\<close>

definition is_digit :: "char \<Rightarrow> bool" where
  "is_digit c \<longleftrightarrow> 48 \<le> (of_char c :: int) \<and> (of_char c :: int) \<le> 57"

definition digit_char :: "int \<Rightarrow> char" where
  "digit_char n = char_of (48 + n)"

definition digit_val :: "char \<Rightarrow> int" where
  "digit_val c = of_char c - 48"

function show_nat :: "int \<Rightarrow> string" where
  "show_nat n = (if n < 10 then [digit_char n] else show_nat (n div 10) @ [digit_char (n mod 10)])"
  by pat_completeness auto
termination
  by (relation "measure nat") (auto simp: nat_less_eq_zless)

declare show_nat.simps [simp del]

definition digits_val :: "string \<Rightarrow> int" where
  "digits_val s = foldl (\<lambda>a c. 10 * a + digit_val c) 0 s"

definition show_int :: "int \<Rightarrow> string" where
  "show_int n = (if n < 0 then CHR ''-'' # show_nat (- n) else show_nat n)"

text \<open>\<open>fmt.Sprintf("%d", n)\<close> and \<open>strconv.AppendInt(b, n, 10)\<close>.\<close>

definition format_int :: "int64 \<Rightarrow> string" where
  "format_int n = show_int (sint n)"

text \<open>\<open>strconv.ParseInt(s, 10, 64)\<close>: an optional sign and one or more digits, in range.\<close>

definition parse_int :: "string \<Rightarrow> int64 option" where
  "parse_int s =
     (let (neg, ds) = (case s of
          c # r \<Rightarrow> if c = CHR ''-'' then (True, r) else if c = CHR ''+'' then (False, r) else (False, s)
        | [] \<Rightarrow> (False, []));
        v = (if neg then - digits_val ds else digits_val ds)
      in if ds \<noteq> [] \<and> list_all is_digit ds \<and> in_i64 v then Some (word_of_int v) else None)"

subsection \<open>Lemmas\<close>

lemma of_char_digit_char: "0 \<le> n \<Longrightarrow> n < 10 \<Longrightarrow> of_char (digit_char n) = 48 + n"
  by (simp add: digit_char_def)

lemma is_digit_digit_char [simp]: "0 \<le> n \<Longrightarrow> n < 10 \<Longrightarrow> is_digit (digit_char n)"
  by (simp add: is_digit_def of_char_digit_char)

lemma digit_val_digit_char [simp]: "0 \<le> n \<Longrightarrow> n < 10 \<Longrightarrow> digit_val (digit_char n) = n"
  by (simp add: digit_val_def of_char_digit_char)

lemma is_digit_not [simp]:
  "\<not> is_digit CHR ''-''" "\<not> is_digit CHR ''+''" "\<not> is_digit CHR ''.''" "\<not> is_digit CHR ''e''"
  "\<not> is_digit CHR ''E''" "\<not> is_digit CHR '',''" "\<not> is_digit CHR ''}''" "\<not> is_digit CHR '']''"
  "is_digit CHR ''0''" "\<not> is_digit CHR '' ''" "\<not> is_digit CHR 0x0A" "\<not> is_digit CHR 0x22"
  by (simp_all add: is_digit_def)

lemma show_nat_digits [simp]: "0 \<le> n \<Longrightarrow> list_all is_digit (show_nat n)"
  by (induction n rule: show_nat.induct) (simp add: show_nat.simps pos_imp_zdiv_nonneg_iff)

lemma show_nat_not_Nil [simp]: "show_nat n \<noteq> []"
  by (subst show_nat.simps) simp

lemma digits_val_Nil [simp]: "digits_val [] = 0"
  by (simp add: digits_val_def)

lemma digits_val_snoc [simp]: "digits_val (s @ [c]) = 10 * digits_val s + digit_val c"
  by (simp add: digits_val_def)

lemma digits_val_append: "digits_val (s @ t) = digits_val s * 10 ^ length t + digits_val t"
proof (induction t rule: rev_induct)
  case Nil
  then show ?case by simp
next
  case (snoc c t)
  then show ?case
    by (simp add: algebra_simps flip: append_assoc)
qed

lemma digits_val_show_nat [simp]: "0 \<le> n \<Longrightarrow> digits_val (show_nat n) = n"
  by (induction n rule: show_nat.induct)
    (simp add: show_nat.simps digits_val_def pos_imp_zdiv_nonneg_iff)

lemma digits_val_nonneg: "list_all is_digit s \<Longrightarrow> 0 \<le> digits_val s"
  by (induction s rule: rev_induct) (auto simp: is_digit_def digit_val_def)

lemma digits_val_zero_Cons [simp]: "digits_val (CHR ''0'' # s) = digits_val s"
proof -
  have "digits_val ([CHR ''0''] @ s) = digits_val s"
    unfolding digits_val_append by (simp add: digits_val_def digit_val_def)
  then show ?thesis by simp
qed

lemma digits_val_zeros [simp]: "digits_val (replicate n CHR ''0'') = 0"
  by (induction n) simp_all

lemma hd_show_nat: "0 < n \<Longrightarrow> hd (show_nat n) \<noteq> CHR ''0''"
proof (induction n rule: show_nat.induct)
  case (1 n)
  show ?case
  proof (cases "n < 10")
    case True
    have "digit_char n \<noteq> CHR ''0''"
      using True 1 of_char_digit_char [of n] by auto
    with True show ?thesis by (simp add: show_nat.simps)
  next
    case False
    then have "hd (show_nat (n div 10)) \<noteq> CHR ''0''" using 1 by simp
    with False show ?thesis by (simp add: show_nat.simps [of n])
  qed
qed

lemma show_nat_0 [simp]: "show_nat 0 = ''0''"
  by code_simp

lemma show_nat_inject: "0 \<le> m \<Longrightarrow> 0 \<le> n \<Longrightarrow> show_nat m = show_nat n \<longleftrightarrow> m = n"
  by (metis digits_val_show_nat)

lemma show_nat_bounds:
  "0 < n \<Longrightarrow> 10 ^ (length (show_nat n) - 1) \<le> n \<and> n < 10 ^ length (show_nat n)"
proof (induction n rule: show_nat.induct)
  case (1 n)
  show ?case
  proof (cases "n < 10")
    case True
    with 1 show ?thesis by (simp add: show_nat.simps)
  next
    case False
    let ?l = "length (show_nat (n div 10))"
    have "10 ^ (?l - 1) \<le> n div 10 \<and> n div 10 < 10 ^ ?l" using 1 False by simp
    moreover have "10 ^ ?l = 10 * (10 :: int) ^ (?l - 1)" by (cases ?l) simp_all
    moreover have "p \<le> n div 10 \<and> n div 10 < 10 * p \<Longrightarrow> 10 * p \<le> n \<and> n < 100 * p" for p
      by linarith
    ultimately show ?thesis
      using False by (simp add: show_nat.simps [of n])
  qed
qed

lemma show_int_not_Nil [simp]: "show_int n \<noteq> []"
  by (simp add: show_int_def)

lemma parse_format_int [simp]: "parse_int (format_int n) = Some n"
proof (cases "sint n < 0")
  case True
  then show ?thesis
    by (simp add: format_int_def show_int_def parse_int_def)
next
  case False
  obtain c s where s: "show_nat (sint n) = c # s"
    by (meson list.exhaust show_nat_not_Nil)
  then have "is_digit c" using show_nat_digits [of "sint n"] False by simp
  then have c: "c \<noteq> CHR ''-''" "c \<noteq> CHR ''+''" by auto
  have "parse_int (c # s) = Some n"
    using False c digits_val_show_nat [of "sint n"] show_nat_digits [of "sint n"]
    by (simp add: parse_int_def s)
  with False s show ?thesis
    by (simp add: format_int_def show_int_def)
qed

lemma format_int_inject: "format_int a = format_int b \<longleftrightarrow> a = b"
  by (metis option.inject parse_format_int)

section \<open>Floating-point text\<close>

text \<open>
  A decimal \<open>(d, j)\<close> stands for \<open>d * 10 powi j\<close>. \<open>flog10 x\<close> is the exponent of the leading
  decimal digit, and \<open>decimals n x\<close> the two decimals of \<open>n\<close> digits around \<open>x\<close>, the closer
  one first (the even one on a tie).
\<close>

definition flog10 :: "rat \<Rightarrow> int" where
  "flog10 x = (if 1 \<le> x then int (length (show_nat \<lfloor>x\<rfloor>)) - 1
     else - int (length (show_nat (\<lceil>1 / x\<rceil> - 1))))"

definition dec_val :: "int \<times> int \<Rightarrow> rat" where
  "dec_val p = of_int (fst p) * 10 powi snd p"

definition norm_dec :: "nat \<Rightarrow> int \<times> int \<Rightarrow> int \<times> int" where
  "norm_dec n p = (if fst p = 10 ^ n then (10 ^ (n - 1), snd p + 1) else p)"

definition decimals :: "nat \<Rightarrow> rat \<Rightarrow> (int \<times> int) list" where
  "decimals n x =
     (let j = flog10 x - int n + 1; s = x / 10 powi j; near = round_even s;
          far = (if of_int near \<le> s then near + 1 else near - 1)
      in [norm_dec n (near, j), norm_dec n (far, j)])"

text \<open>
  The shortest decimal that reads back as \<open>x\<close>: 17 digits always do (\<open>shortest_reads_back\<close>),
  so the last branch is never taken for a double.
\<close>

definition reads_back :: "rat \<Rightarrow> int \<times> int \<Rightarrow> bool" where
  "reads_back x p \<longleftrightarrow> round_pos (dec_val p) = x"

fun find_dec :: "rat \<Rightarrow> nat list \<Rightarrow> int \<times> int" where
  "find_dec x [] = (0, 0)"
| "find_dec x (n # ns) =
     (case filter (reads_back x) (decimals n x) of p # _ \<Rightarrow> p | [] \<Rightarrow> find_dec x ns)"

definition shortest :: "rat \<Rightarrow> int \<times> int" where
  "shortest x = find_dec x [1..<18]"

text \<open>
  The layouts of \<open>strconv.AppendFloat\<close> with precision \<open>-1\<close>: \<open>%f\<close>, and \<open>%e\<close> with the exponent
  cleaned up as \<open>encoding/json\<close> does (\<open>e-07\<close> becomes \<open>e-7\<close>). \<open>encoding/json\<close> picks \<open>%e\<close> for
  magnitudes below \<open>1e-6\<close> and from \<open>1e21\<close> on, and refuses infinities and NaNs.
\<close>

definition fmt_f :: "int \<times> int \<Rightarrow> string" where
  "fmt_f p =
     (let ds = show_nat (fst p); dp = int (length ds) + snd p
      in if dp \<le> 0 then ''0.'' @ replicate (nat (- dp)) CHR ''0'' @ ds
         else if int (length ds) \<le> dp then ds @ replicate (nat dp - length ds) CHR ''0''
         else take (nat dp) ds @ ''.'' @ drop (nat dp) ds)"

definition fmt_e :: "int \<times> int \<Rightarrow> string" where
  "fmt_e p =
     (let ds = show_nat (fst p); ex = int (length ds) + snd p - 1
      in [hd ds] @ (if tl ds = [] then [] else ''.'' @ tl ds) @ ''e'' @
         (if ex < 0 then ''-'' else ''+'') @
         (if 0 \<le> ex \<and> ex < 10 then ''0'' else []) @ show_nat \<bar>ex\<bar>)"

definition fmt_mag :: "rat \<Rightarrow> string" where
  "fmt_mag x = (if x < 1 / 1000000 \<or> 1000000000000000000000 \<le> x
     then fmt_e (shortest x) else fmt_f (shortest x))"

fun json_float :: "f64 \<Rightarrow> string option" where
  "json_float NaN = None"
| "json_float (Inf s) = None"
| "json_float (Zero s) = Some (if s then ''-0'' else ''0'')"
| "json_float (Num x) = Some (if x < 0 then ''-'' @ fmt_mag (- x) else fmt_mag x)"

text \<open>
  \<open>strconv.ParseFloat(s, 64)\<close> on a literal of the JSON grammar: sign, digits, optional
  fraction, optional exponent. The exact value is rounded; overflow is the error \<open>ErrRange\<close>.
\<close>

definition take_digits :: "string \<Rightarrow> string \<times> string" where
  "take_digits s = (takeWhile is_digit s, dropWhile is_digit s)"

definition exp_part :: "string \<Rightarrow> int" where
  "exp_part s = (case s of
       [] \<Rightarrow> 0
     | _ # r \<Rightarrow> (case r of
           [] \<Rightarrow> 0
         | c # ds \<Rightarrow> if c = CHR ''-'' then - digits_val ds
                     else if c = CHR ''+'' then digits_val ds
                     else digits_val r))"

definition literal_mag :: "string \<Rightarrow> rat" where
  "literal_mag s =
     (let (ip, r) = take_digits s;
          (fp, r') = (case r of c # t \<Rightarrow> if c = CHR ''.'' then take_digits t else ([], r) | [] \<Rightarrow> ([], []))
      in of_int (digits_val (ip @ fp)) * 10 powi (exp_part r' - int (length fp)))"

definition parse_float :: "string \<Rightarrow> f64 option" where
  "parse_float s =
     (let (neg, m) = (case s of
          c # r \<Rightarrow> if c = CHR ''-'' then (True, r) else (False, s) | [] \<Rightarrow> (False, []));
        v = literal_mag m;
        f = f64_round neg (if neg then - v else v)
      in if is_finite f then Some f else None)"

subsection \<open>The decimal reads back\<close>

lemma pow10_pos [simp]: "(0 :: rat) < 10 powi e"
  by (simp add: zero_less_power_int)

lemma pow10_not_neg [simp]: "\<not> (10 :: rat) powi e < 0"
  using pow10_pos [of e] by linarith

lemma flog10_bounds:
  assumes "0 < x"
  shows "10 powi flog10 x \<le> x \<and> x < 10 powi (flog10 x + 1)"
proof (cases "1 \<le> x")
  case True
  let ?l = "length (show_nat \<lfloor>x\<rfloor>)"
  have l: "10 ^ (?l - 1) \<le> \<lfloor>x\<rfloor> \<and> \<lfloor>x\<rfloor> < 10 ^ ?l"
    using True by (intro show_nat_bounds) linarith
  obtain k where k: "?l = Suc k" using show_nat_not_Nil by (metis list.size(3) not0_implies_Suc length_0_conv)
  have "(10 :: rat) ^ k \<le> x" using l k by (simp add: le_floor_iff)
  moreover have "x < 10 ^ Suc k" using l k by (simp add: floor_less_iff)
  ultimately show ?thesis
    using True k by (simp add: flog10_def power_int_add)
next
  case False
  let ?c = "\<lceil>1 / x\<rceil>" and ?l = "length (show_nat (\<lceil>1 / x\<rceil> - 1))"
  have c: "2 \<le> ?c" using False assms by (simp add: le_ceiling_iff)
  then have l: "10 ^ (?l - 1) \<le> ?c - 1 \<and> ?c - 1 < 10 ^ ?l"
    by (intro show_nat_bounds) simp
  obtain k where k: "?l = Suc k" using show_nat_not_Nil by (metis length_0_conv not0_implies_Suc)
  have "10 ^ k < ?c" using l k by simp
  then have up: "(10 :: rat) ^ k < 1 / x" by (simp add: less_ceiling_iff)
  have "?c \<le> 10 ^ Suc k" using l k by simp
  then have low: "1 / x \<le> (10 :: rat) ^ Suc k" by (simp add: ceiling_le_iff del: power_Suc)
  have "x < 1 / 10 ^ k" using up assms by (simp add: field_simps)
  moreover have "1 / 10 ^ Suc k \<le> x" using low assms by (simp add: field_simps)
  ultimately show ?thesis
    using False k by (simp add: flog10_def power_int_def field_simps nat_add_distrib)
qed

lemma dec_val_norm [simp]: "0 < n \<Longrightarrow> dec_val (norm_dec n p) = dec_val p"
  by (cases n) (simp_all add: norm_dec_def dec_val_def power_int_add)

lemma fst_norm_dec: "0 < fst p \<Longrightarrow> 0 < fst (norm_dec n p)"
  by (simp add: norm_dec_def)

lemma find_dec_Some:
  assumes "n \<in> set ns" and "p \<in> set (decimals n x)" and "reads_back x p"
  shows "reads_back x (find_dec x ns)"
  using assms(1)
proof (induction ns)
  case (Cons k ns)
  show ?case
  proof (cases "filter (reads_back x) (decimals k x)")
    case Nil
    then have "n \<noteq> k" using assms(2,3) by (auto simp: filter_empty_conv)
    with Cons Nil show ?thesis by simp
  next
    case (Cons q qs)
    then have "reads_back x q" by (auto simp: filter_eq_Cons_iff)
    with Cons show ?thesis by simp
  qed
qed simp

lemma shortest_reads_back:
  assumes "0 < x" and "round_pos x = x"
  shows "reads_back x (shortest x)"
proof -
  let ?j = "flog10 x - 16"
  let ?s = "x / 10 powi ?j"
  have j: "(0 :: rat) < 10 powi ?j" by (simp add: zero_less_power_int)
  have "10 powi flog10 x = (10 :: rat) ^ 16 * 10 powi ?j"
    by (simp add: power_int_diff)
  then have s: "10 ^ 16 \<le> ?s"
    using flog10_bounds [OF assms(1)] j by (simp add: pos_le_divide_eq)
  have close: "\<bar>of_int (round_even ?s) - ?s\<bar> \<le> 1 / 2" by (rule round_even_close)
  have "\<bar>of_int (round_even ?s) - ?s\<bar> < ?s / 2 ^ 54" using close s by simp
  then have "\<bar>of_int (round_even ?s) - ?s\<bar> * 10 powi ?j < ?s / 2 ^ 54 * 10 powi ?j"
    using j by (intro mult_strict_right_mono)
  moreover have "\<bar>of_int (round_even ?s) - ?s\<bar> * 10 powi ?j = \<bar>dec_val (round_even ?s, ?j) - x\<bar>"
  proof -
    have "(of_int (round_even ?s) - ?s) * 10 powi ?j = dec_val (round_even ?s, ?j) - x"
      by (simp add: dec_val_def left_diff_distrib)
    then show ?thesis using j by (metis abs_mult abs_of_pos)
  qed
  ultimately have near: "\<bar>dec_val (round_even ?s, ?j) - x\<bar> < x / 2 ^ 54" by simp
  have "0 < dec_val (round_even ?s, ?j)"
    using near assms(1) abs_ge_minus_self [of "dec_val (round_even ?s, ?j) - x"] by simp
  with assms have "round_pos (dec_val (round_even ?s, ?j)) = x"
    using near by (rule round_pos_near)
  then have "reads_back x (norm_dec 17 (round_even ?s, ?j))"
    unfolding reads_back_def by (subst dec_val_norm) simp_all
  moreover have "norm_dec 17 (round_even ?s, ?j) \<in> set (decimals 17 x)"
    by (simp add: decimals_def Let_def)
  moreover have "(17 :: nat) \<in> set [1..<18]" by simp
  ultimately show ?thesis
    unfolding shortest_def by (intro find_dec_Some)
qed

lemma dec_val_pos_iff: "0 < dec_val p \<longleftrightarrow> 0 < fst p"
  by (simp add: dec_val_def zero_less_mult_iff)

text \<open>A decimal that reads back as a positive double is positive.\<close>

lemma round_pos_0 [simp]: "round_pos 0 = 0"
  by (simp add: round_pos_def round_even_def)

text \<open>Reading the two layouts gives the decimal's value.\<close>

lemma takeWhile_digits [simp]:
  "list_all is_digit s \<Longrightarrow> takeWhile is_digit (s @ t) = s @ takeWhile is_digit t"
  "list_all is_digit s \<Longrightarrow> dropWhile is_digit (s @ t) = dropWhile is_digit t"
  by (induction s) simp_all

lemma takeWhile_all_digits [simp]:
  "list_all is_digit s \<Longrightarrow> takeWhile is_digit s = s"
  "list_all is_digit s \<Longrightarrow> dropWhile is_digit s = []"
  by (induction s) simp_all

lemma list_all_digit_zeros [simp]: "list_all is_digit (replicate n CHR ''0'')"
  by (simp add: list_all_length)

lemma literal_mag_fmt_f:
  assumes "0 < fst p"
  shows "literal_mag (fmt_f p) = dec_val p"
proof -
  define ds where "ds = show_nat (fst p)"
  have ds: "list_all is_digit ds" "ds \<noteq> []" "digits_val ds = fst p"
    using assms by (simp_all add: ds_def)
  define dp where "dp = int (length ds) + snd p"
  consider "dp \<le> 0" | "0 < dp" "int (length ds) \<le> dp" | "0 < dp" "dp < int (length ds)"
    by linarith
  then show ?thesis
  proof cases
    case 1
    then have "fmt_f p = ''0.'' @ replicate (nat (- dp)) CHR ''0'' @ ds"
      by (simp add: fmt_f_def ds_def dp_def Let_def)
    then show ?thesis
      using 1 ds
      by (simp add: literal_mag_def take_digits_def exp_part_def digits_val_append dec_val_def)
        (simp add: dp_def)
  next
    case 2
    then have "fmt_f p = ds @ replicate (nat dp - length ds) CHR ''0''"
      by (simp add: fmt_f_def ds_def dp_def Let_def)
    moreover have "nat dp - length ds = nat (snd p)" and "0 \<le> snd p" using 2 by (simp_all add: dp_def)
    ultimately show ?thesis
      using ds by (simp add: literal_mag_def take_digits_def exp_part_def digits_val_append dec_val_def
          power_int_def)
  next
    case 3
    then have "fmt_f p = take (nat dp) ds @ ''.'' @ drop (nat dp) ds"
      by (simp add: fmt_f_def ds_def dp_def Let_def)
    moreover have "list_all is_digit (take (nat dp) ds)" and "list_all is_digit (drop (nat dp) ds)"
      using ds(1) by (metis append_take_drop_id list_all_append)+
    moreover have "int (length ds) - int (nat dp) = - snd p" using 3 by (simp add: dp_def)
    ultimately show ?thesis
      using ds 3 by (simp add: literal_mag_def take_digits_def exp_part_def dec_val_def of_nat_diff)
  qed
qed

lemma literal_mag_fmt_e:
  assumes "0 < fst p"
  shows "literal_mag (fmt_e p) = dec_val p"
proof -
  obtain c ds where s: "show_nat (fst p) = c # ds" by (meson list.exhaust show_nat_not_Nil)
  have ds: "is_digit c" "list_all is_digit ds" "digits_val (c # ds) = fst p"
    using assms show_nat_digits [of "fst p"] digits_val_show_nat [of "fst p"] by (simp_all add: s)
  define ex where "ex = int (length ds) + snd p"
  define et where "et = (if ex < 0 then ''-'' else ''+'') @
    (if 0 \<le> ex \<and> ex < 10 then ''0'' else []) @ show_nat \<bar>ex\<bar>"
  have "exp_part (CHR ''e'' # et) = ex"
    by (simp add: exp_part_def et_def)
  moreover have "fmt_e p = c # (if ds = [] then [] else CHR ''.'' # ds) @ CHR ''e'' # et"
    by (simp add: fmt_e_def s ex_def et_def Let_def)
  ultimately show ?thesis
    using ds by (auto simp: literal_mag_def take_digits_def dec_val_def ex_def)
qed

lemma fmt_f_no_sign: "0 < fst p \<Longrightarrow> \<exists>c r. fmt_f p = c # r \<and> is_digit c"
proof -
  assume p: "0 < fst p"
  obtain c ds where s: "show_nat (fst p) = c # ds" by (meson list.exhaust show_nat_not_Nil)
  have "is_digit c" using p show_nat_digits [of "fst p"] by (simp add: s)
  then show ?thesis by (auto simp: fmt_f_def s Let_def take_Cons split: nat.splits)
qed

lemma fmt_e_no_sign: "0 < fst p \<Longrightarrow> \<exists>c r. fmt_e p = c # r \<and> is_digit c"
proof -
  assume p: "0 < fst p"
  obtain c ds where s: "show_nat (fst p) = c # ds" by (meson list.exhaust show_nat_not_Nil)
  have "is_digit c" using p show_nat_digits [of "fst p"] by (simp add: s)
  then show ?thesis by (simp add: fmt_e_def s Let_def)
qed

lemma round_pos_nonpos: "x \<le> 0 \<Longrightarrow> round_pos x \<le> 0"
proof -
  assume "x \<le> 0"
  then have "round_even (x / 2 powi ulp_exp x) \<le> 0"
    by (intro round_even_le) (simp add: divide_nonpos_pos)
  then show ?thesis by (simp add: round_pos_def mult_nonpos_nonneg order_less_imp_le)
qed

lemma shortest_pos:
  assumes "0 < x" and "round_pos x = x"
  shows "0 < fst (shortest x)"
proof (rule ccontr)
  assume "\<not> 0 < fst (shortest x)"
  then have "dec_val (shortest x) \<le> 0" by (simp add: dec_val_pos_iff flip: linorder_not_less)
  then have "round_pos (dec_val (shortest x)) \<le> 0" by (rule round_pos_nonpos)
  then show False using shortest_reads_back [OF assms] assms(1) by (simp add: reads_back_def)
qed

lemma fmt_mag_reads_back:
  assumes "0 < x" and "round_pos x = x"
  shows "round_pos (literal_mag (fmt_mag x)) = x \<and> 0 < literal_mag (fmt_mag x)"
proof -
  have "literal_mag (fmt_mag x) = dec_val (shortest x)"
    using shortest_pos [OF assms] by (simp add: fmt_mag_def literal_mag_fmt_e literal_mag_fmt_f)
  then show ?thesis
    using shortest_pos [OF assms] shortest_reads_back [OF assms]
    by (simp add: reads_back_def dec_val_pos_iff)
qed

lemma fmt_mag_no_sign:
  assumes "0 < x" and "round_pos x = x"
  obtains c r where "fmt_mag x = c # r" "is_digit c"
  using shortest_pos [OF assms] fmt_f_no_sign fmt_e_no_sign
  by (metis fmt_mag_def)

lemma parse_json_float:
  assumes wf: "wf_f64 f" and out: "json_float f = Some s"
  shows "parse_float s = Some f"
proof (cases f)
  case (Num x)
  define m where "m = \<bar>x\<bar>"
  have m: "0 < m" "round_pos m = m" "flog2 m < 1024" "x \<noteq> 0" using wf by (simp_all add: Num m_def)
  obtain c r where c: "fmt_mag m = c # r" "is_digit c" using m(1,2) by (rule fmt_mag_no_sign)
  have rb: "round_pos (literal_mag (c # r)) = m" "0 < literal_mag (c # r)"
    using fmt_mag_reads_back [OF m(1,2)] by (simp_all add: c(1))
  show ?thesis
  proof (cases "x < 0")
    case True
    then have "s = CHR ''-'' # c # r" using out c(1) by (simp add: Num m_def)
    then show ?thesis
      using rb True m by (simp add: parse_float_def f64_round_def Let_def Num m_def)
  next
    case False
    then have "s = c # r" using out c(1) by (simp add: Num m_def)
    moreover have "c \<noteq> CHR ''-''" using c(2) by auto
    ultimately show ?thesis
      using rb False m by (simp add: parse_float_def f64_round_def Let_def Num m_def)
  qed
next
  case (Zero z)
  have "literal_mag ''0'' = 0" by (simp add: literal_mag_def take_digits_def)
  with Zero out show ?thesis by (auto simp: parse_float_def f64_round_def)
qed (use out in simp_all)

end
