(* ===== verification/GoJson.thy ===== *)
theory GoJson
  imports GoStrconv
begin

text \<open>
  The part of \<open>encoding/json\<close> the program uses: values, the compact printer of
  \<open>json.Marshal\<close>, the parser behind \<open>json.Unmarshal\<close> and \<open>json.Decoder.Decode\<close>, and the
  decoding of a value into the fields of a struct. Text is a list of bytes; a string value
  holds the decoded bytes, a number keeps its literal.
\<close>

datatype json =
    JNull
  | JBool bool
  | JNum string
  | JStr string
  | JArr "json list"
  | JObj "(string \<times> json) list"

datatype json_error = JsonSyntax | JsonType | JsonUnsupported

abbreviation quote_chr :: char where "quote_chr \<equiv> CHR 0x22"
abbreviation backslash :: char where "backslash \<equiv> CHR 0x5C"

section \<open>UTF-8\<close>

abbreviation byte :: "char \<Rightarrow> int" where "byte c \<equiv> of_char c"

definition is_cont :: "char \<Rightarrow> bool" where
  "is_cont c \<longleftrightarrow> 128 \<le> byte c \<and> byte c \<le> 191"

text \<open>
  \<open>utf8.DecodeRune\<close> on a non-ASCII lead byte: the length of the encoded rune, or 0 where
  the bytes are no valid encoding.
\<close>

definition utf8_len :: "string \<Rightarrow> nat" where
  "utf8_len s = (case s of
      [] \<Rightarrow> 0
    | a # r \<Rightarrow> (case r of [] \<Rightarrow> 0 | b # r2 \<Rightarrow>
        if 194 \<le> byte a \<and> byte a \<le> 223 then (if is_cont b then 2 else 0)
        else (case r2 of [] \<Rightarrow> 0 | c # r3 \<Rightarrow>
          if 224 \<le> byte a \<and> byte a \<le> 239 then
            (if is_cont b \<and> is_cont c \<and> (byte a = 224 \<longrightarrow> 160 \<le> byte b) \<and> (byte a = 237 \<longrightarrow> byte b \<le> 159)
             then 3 else 0)
          else (case r3 of [] \<Rightarrow> 0 | d # r4 \<Rightarrow>
            if 240 \<le> byte a \<and> byte a \<le> 244 \<and> is_cont b \<and> is_cont c \<and> is_cont d \<and>
               (byte a = 240 \<longrightarrow> 144 \<le> byte b) \<and> (byte a = 244 \<longrightarrow> byte b \<le> 143)
            then 4 else 0))))"

text \<open>The replacement of invalid bytes by U+FFFD.\<close>

definition rune_error :: string where
  "rune_error = [CHR 0xEF, CHR 0xBF, CHR 0xBD]"

function utf8_fix :: "string \<Rightarrow> string" where
  "utf8_fix [] = []"
| "utf8_fix (c # r) =
     (if byte c < 128 then c # utf8_fix r
      else if utf8_len (c # r) = 0 then rune_error @ utf8_fix r
      else take (utf8_len (c # r)) (c # r) @ utf8_fix (drop (utf8_len (c # r) - 1) r))"
  by pat_completeness auto
termination
  by (relation "measure length") auto

text \<open>\<open>utf8.AppendRune\<close>.\<close>

definition utf8_encode :: "int \<Rightarrow> string" where
  "utf8_encode u =
     (if u < 128 then [char_of u]
      else if u < 2048 then [char_of (192 + u div 64), char_of (128 + u mod 64)]
      else if u < 65536 then
        [char_of (224 + u div 4096), char_of (128 + u div 64 mod 64), char_of (128 + u mod 64)]
      else [char_of (240 + u div 262144), char_of (128 + u div 4096 mod 64),
            char_of (128 + u div 64 mod 64), char_of (128 + u mod 64)])"

section \<open>Printing\<close>

definition hex_digit :: "int \<Rightarrow> char" where
  "hex_digit n = (if n < 10 then char_of (48 + n) else char_of (87 + n))"

text \<open>\<open>json.Marshal\<close> escapes the HTML characters and everything outside the printable set.\<close>

definition quote_ascii :: "char \<Rightarrow> string" where
  "quote_ascii c =
     (if c = quote_chr \<or> c = backslash then [backslash, c]
      else if c = CHR 0x08 then [backslash, CHR ''b'']
      else if c = CHR 0x0C then [backslash, CHR ''f'']
      else if c = CHR 0x0A then [backslash, CHR ''n'']
      else if c = CHR 0x0D then [backslash, CHR ''r'']
      else if c = CHR 0x09 then [backslash, CHR ''t'']
      else if byte c < 32 \<or> c = CHR ''<'' \<or> c = CHR ''>'' \<or> c = CHR ''&''
      then [backslash, CHR ''u'', CHR ''0'', CHR ''0'', hex_digit (byte c div 16), hex_digit (byte c mod 16)]
      else [c])"

function quote_body :: "string \<Rightarrow> string" where
  "quote_body [] = []"
| "quote_body (c # r) =
     (if byte c < 128 then quote_ascii c @ quote_body r
      else if utf8_len (c # r) = 0 then backslash # ''ufffd'' @ quote_body r
      else (let n = utf8_len (c # r); rune = take n (c # r)
        in (if rune = [CHR 0xE2, CHR 0x80, CHR 0xA8] then backslash # ''u2028''
            else if rune = [CHR 0xE2, CHR 0x80, CHR 0xA9] then backslash # ''u2029''
            else rune) @ quote_body (drop (utf8_len (c # r) - 1) r)))"
  by pat_completeness auto
termination
  by (relation "measure length") auto

definition json_quote :: "string \<Rightarrow> string" where
  "json_quote s = quote_chr # quote_body s @ [quote_chr]"

fun join :: "string list \<Rightarrow> string" where
  "join [] = []"
| "join [s] = s"
| "join (s # t # ss) = s @ '','' @ join (t # ss)"

fun json_print :: "json \<Rightarrow> string" where
  "json_print JNull = ''null''"
| "json_print (JBool b) = (if b then ''true'' else ''false'')"
| "json_print (JNum s) = s"
| "json_print (JStr s) = json_quote s"
| "json_print (JArr vs) = ''['' @ join (map json_print vs) @ '']''"
| "json_print (JObj ms) = ''{'' @ join (map (\<lambda>(k, v). json_quote k @ '':'' @ json_print v) ms) @ ''}''"

section \<open>Parsing\<close>

definition is_space :: "char \<Rightarrow> bool" where
  "is_space c \<longleftrightarrow> c = CHR '' '' \<or> c = CHR 0x09 \<or> c = CHR 0x0D \<or> c = CHR 0x0A"

definition skip_ws :: "string \<Rightarrow> string" where
  "skip_ws s = dropWhile is_space s"

definition hex_val :: "char \<Rightarrow> int option" where
  "hex_val c =
     (if is_digit c then Some (byte c - 48)
      else if 97 \<le> byte c \<and> byte c \<le> 102 then Some (byte c - 87)
      else if 65 \<le> byte c \<and> byte c \<le> 70 then Some (byte c - 55)
      else None)"

definition hex4 :: "char \<Rightarrow> char \<Rightarrow> char \<Rightarrow> char \<Rightarrow> int option" where
  "hex4 a b c d = (case (hex_val a, hex_val b, hex_val c, hex_val d) of
     (Some w, Some x, Some y, Some z) \<Rightarrow> Some (((w * 16 + x) * 16 + y) * 16 + z)
   | _ \<Rightarrow> None)"

definition simple_escape :: "char \<Rightarrow> char option" where
  "simple_escape e =
     (if e = quote_chr \<or> e = backslash \<or> e = CHR ''/'' then Some e
      else if e = CHR ''b'' then Some (CHR 0x08)
      else if e = CHR ''f'' then Some (CHR 0x0C)
      else if e = CHR ''n'' then Some (CHR 0x0A)
      else if e = CHR ''r'' then Some (CHR 0x0D)
      else if e = CHR ''t'' then Some (CHR 0x09)
      else None)"

text \<open>\<open>\uXXXX\<close> at the head of the input (\<open>getu4\<close>), with what follows.\<close>

definition unicode_escape :: "string \<Rightarrow> (int \<times> string) option" where
  "unicode_escape s = (case s of
     b # u # w # x # y # z # r \<Rightarrow>
       if b = backslash \<and> u = CHR ''u'' then map_option (\<lambda>n. (n, r)) (hex4 w x y z) else None
   | _ \<Rightarrow> None)"

text \<open>
  The body of a string literal up to its closing quote: escapes are decoded, a surrogate
  pair becomes one rune and a lone surrogate U+FFFD, control characters are refused.
\<close>

function unescape :: "string \<Rightarrow> (string \<times> string) option" where
  "unescape [] = None"
| "unescape (c # r) =
     (if c = quote_chr then Some ([], r)
      else if c = backslash then
        (case unicode_escape (c # r) of
           Some (u, _) \<Rightarrow>
             (let r3 = drop 5 r in
              if 55296 \<le> u \<and> u < 57344 then
                (case unicode_escape r3 of
                   Some (v, _) \<Rightarrow>
                     if u < 56320 \<and> 56320 \<le> v \<and> v < 57344
                     then map_option (\<lambda>(b, t). (utf8_encode ((u - 55296) * 1024 + (v - 56320) + 65536) @ b, t))
                            (unescape (drop 6 r3))
                     else map_option (\<lambda>(b, t). (rune_error @ b, t)) (unescape r3)
                 | None \<Rightarrow> map_option (\<lambda>(b, t). (rune_error @ b, t)) (unescape r3))
              else map_option (\<lambda>(b, t). (utf8_encode u @ b, t)) (unescape r3))
         | None \<Rightarrow> (case r of
             [] \<Rightarrow> None
           | e # r2 \<Rightarrow> (case simple_escape e of
               None \<Rightarrow> None
             | Some x \<Rightarrow> map_option (\<lambda>(b, t). (x # b, t)) (unescape (tl r)))))
      else if byte c < 32 then None
      else map_option (\<lambda>(b, t). (c # b, t)) (unescape r))"
  by pat_completeness auto
termination
  by (relation "measure length") auto

definition parse_string :: "string \<Rightarrow> (string \<times> string) option" where
  "parse_string s = map_option (\<lambda>(b, t). (utf8_fix b, t)) (unescape s)"

text \<open>Number literals.\<close>

definition scan_exp :: "string \<Rightarrow> string \<Rightarrow> (string \<times> string) option" where
  "scan_exp acc t = (case t of
     [] \<Rightarrow> Some (acc, [])
   | c # u \<Rightarrow>
       if c = CHR ''e'' \<or> c = CHR ''E'' then
         (let (sg, v) = (case u of
              x # w \<Rightarrow> if x = CHR ''+'' \<or> x = CHR ''-'' then ([x], w) else ([], u)
            | [] \<Rightarrow> ([], []));
              (ds, w) = take_digits v
          in if ds = [] then None else Some (acc @ c # sg @ ds, w))
       else Some (acc, t))"

definition scan_frac :: "string \<Rightarrow> string \<Rightarrow> (string \<times> string) option" where
  "scan_frac acc t = (case t of
     [] \<Rightarrow> scan_exp acc []
   | c # u \<Rightarrow>
       if c = CHR ''.'' then
         (let (ds, v) = take_digits u in if ds = [] then None else scan_exp (acc @ c # ds) v)
       else scan_exp acc t)"

definition scan_mag :: "string \<Rightarrow> string \<Rightarrow> (string \<times> string) option" where
  "scan_mag sg s = (case s of
      [] \<Rightarrow> None
    | d # t \<Rightarrow>
        if d = CHR ''0'' then scan_frac (sg @ [d]) t
        else if is_digit d then (let (ds, u) = take_digits t in scan_frac (sg @ d # ds) u)
        else None)"

definition scan_num :: "string \<Rightarrow> (string \<times> string) option" where
  "scan_num s = (case s of
      [] \<Rightarrow> None
    | x # t \<Rightarrow> if x = CHR ''-'' then scan_mag [x] t else scan_mag [] s)"

text \<open>
  Values. The first argument is fuel (each call spends one unit; \<open>json_fuel\<close> gives what any
  text needs, \<open>json_fuel_enough\<close>), the second the nesting depth, limited as in the source
  to 10000.
\<close>

definition max_depth :: int where
  "max_depth = 10000"

fun parse_value :: "nat \<Rightarrow> int \<Rightarrow> string \<Rightarrow> (json \<times> string) option"
  and parse_elems :: "nat \<Rightarrow> int \<Rightarrow> string \<Rightarrow> (json list \<times> string) option"
  and parse_members :: "nat \<Rightarrow> int \<Rightarrow> string \<Rightarrow> ((string \<times> json) list \<times> string) option" where
  "parse_value 0 d s = None"
| "parse_value (Suc n) d s =
     (case skip_ws s of
        [] \<Rightarrow> None
      | c # r \<Rightarrow>
          if c = CHR ''{'' then
            (if max_depth \<le> d then None
             else (case skip_ws r of
                 [] \<Rightarrow> None
               | e # t \<Rightarrow> if e = CHR ''}'' then Some (JObj [], t)
                   else map_option (\<lambda>(ms, u). (JObj ms, u)) (parse_members n (d + 1) (e # t))))
          else if c = CHR ''['' then
            (if max_depth \<le> d then None
             else (case skip_ws r of
                 [] \<Rightarrow> None
               | e # t \<Rightarrow> if e = CHR '']'' then Some (JArr [], t)
                   else map_option (\<lambda>(vs, u). (JArr vs, u)) (parse_elems n (d + 1) (e # t))))
          else if c = quote_chr then map_option (\<lambda>(b, t). (JStr b, t)) (parse_string r)
          else if c = CHR ''t'' then (if take 3 r = ''rue'' then Some (JBool True, drop 3 r) else None)
          else if c = CHR ''f'' then (if take 4 r = ''alse'' then Some (JBool False, drop 4 r) else None)
          else if c = CHR ''n'' then (if take 3 r = ''ull'' then Some (JNull, drop 3 r) else None)
          else map_option (\<lambda>(l, t). (JNum l, t)) (scan_num (c # r)))"
| "parse_elems 0 d s = None"
| "parse_elems (Suc n) d s =
     (case parse_value n d s of
        None \<Rightarrow> None
      | Some (v, r) \<Rightarrow> (case skip_ws r of
            [] \<Rightarrow> None
          | c # t \<Rightarrow>
              if c = CHR '','' then map_option (\<lambda>(vs, u). (v # vs, u)) (parse_elems n d t)
              else if c = CHR '']'' then Some ([v], t) else None))"
| "parse_members 0 d s = None"
| "parse_members (Suc n) d s =
     (case skip_ws s of
        [] \<Rightarrow> None
      | c # r \<Rightarrow>
          if c \<noteq> quote_chr then None
          else (case parse_string r of
              None \<Rightarrow> None
            | Some (k, r2) \<Rightarrow> (case skip_ws r2 of
                  [] \<Rightarrow> None
                | e # r3 \<Rightarrow>
                    if e \<noteq> CHR '':'' then None
                    else (case parse_value n d r3 of
                        None \<Rightarrow> None
                      | Some (v, r4) \<Rightarrow> (case skip_ws r4 of
                            [] \<Rightarrow> None
                          | x # t \<Rightarrow>
                              if x = CHR '','' then
                                map_option (\<lambda>(ms, u). ((k, v) # ms, u)) (parse_members n d t)
                              else if x = CHR ''}'' then Some ([(k, v)], t) else None)))))"

definition json_fuel :: "string \<Rightarrow> nat" where
  "json_fuel s = 2 * length s + 2"

text \<open>\<open>json.Unmarshal\<close> wants one value and nothing but white space around it.\<close>

definition json_parse :: "string \<Rightarrow> json option" where
  "json_parse s = (case parse_value (json_fuel s) 0 s of
      Some (v, r) \<Rightarrow> if skip_ws r = [] then Some v else None
    | None \<Rightarrow> None)"

text \<open>
  \<open>json.Decoder.Decode\<close> reads the first value of the stream: an object or array ends at its
  bracket, any other value at white space or the end.
\<close>

definition json_decode :: "string \<Rightarrow> json option" where
  "json_decode s = (case parse_value (json_fuel s) 0 s of
      Some (v, r) \<Rightarrow> (case v of
          JObj _ \<Rightarrow> Some v
        | JArr _ \<Rightarrow> Some v
        | _ \<Rightarrow> (case r of [] \<Rightarrow> Some v | c # _ \<Rightarrow> if is_space c then Some v else None))
    | None \<Rightarrow> None)"

section \<open>Decoding into structs\<close>

text \<open>
  A decoder takes a value and the current content of the field, and returns the new content
  and whether the value fitted; \<open>null\<close> leaves a field alone, and a value that does not fit
  leaves it alone and is reported when the whole value has been decoded.
\<close>

type_synonym 'a decoder = "json \<Rightarrow> 'a \<Rightarrow> 'a \<times> bool"

fun decode_i64 :: "int64 decoder" where
  "decode_i64 (JNum l) old = (case parse_int l of Some v \<Rightarrow> (v, True) | None \<Rightarrow> (old, False))"
| "decode_i64 JNull old = (old, True)"
| "decode_i64 _ old = (old, False)"

fun decode_f64 :: "f64 decoder" where
  "decode_f64 (JNum l) old = (case parse_float l of Some v \<Rightarrow> (v, True) | None \<Rightarrow> (old, False))"
| "decode_f64 JNull old = (old, True)"
| "decode_f64 _ old = (old, False)"

fun decode_string :: "string decoder" where
  "decode_string (JStr s) old = (s, True)"
| "decode_string JNull old = (old, True)"
| "decode_string _ old = (old, False)"

text \<open>The elements of a slice are decoded over the ones it had, as \<open>Unmarshal\<close> does.\<close>

fun decode_elems :: "json list \<Rightarrow> int64 list \<Rightarrow> int64 list \<times> bool" where
  "decode_elems [] old = ([], True)"
| "decode_elems (v # vs) old =
     (let (x, ok) = decode_i64 v (case old of [] \<Rightarrow> 0 | o1 # _ \<Rightarrow> o1);
          (xs, oks) = decode_elems vs (tl old)
      in (x # xs, ok \<and> oks))"

fun decode_i64s :: "int64 list decoder" where
  "decode_i64s (JArr vs) old = decode_elems vs old"
| "decode_i64s JNull old = ([], True)"
| "decode_i64s _ old = (old, False)"

text \<open>
  Keys match a field name exactly, or else up to case; besides the ASCII letters, U+212A and
  U+017F fold to \<open>k\<close> and \<open>s\<close>.
\<close>

definition fold_char :: "char \<Rightarrow> char" where
  "fold_char c = (if 97 \<le> byte c \<and> byte c \<le> 122 then char_of (byte c - 32) else c)"

fun fold_name :: "string \<Rightarrow> string" where
  "fold_name [] = []"
| "fold_name (a # r) =
     (if take 3 (a # r) = [CHR 0xE2, CHR 0x84, CHR 0xAA] then CHR ''K'' # fold_name (drop 2 r)
      else if take 2 (a # r) = [CHR 0xC5, CHR 0xBF] then CHR ''S'' # fold_name (drop 1 r)
      else fold_char a # fold_name r)"

type_synonym 's fields = "(string \<times> 's decoder) list"

definition find_field :: "string \<Rightarrow> 's fields \<Rightarrow> 's decoder option" where
  "find_field k fs = (case map_of fs k of
      Some d \<Rightarrow> Some d
    | None \<Rightarrow> map_of (map (\<lambda>(n, d). (fold_name n, d)) fs) (fold_name k))"

fun decode_members :: "'s fields \<Rightarrow> (string \<times> json) list \<Rightarrow> 's \<Rightarrow> 's \<times> bool" where
  "decode_members fs [] s = (s, True)"
| "decode_members fs ((k, v) # ms) s =
     (let (s', ok) = (case find_field k fs of Some d \<Rightarrow> d v s | None \<Rightarrow> (s, True));
          (s'', oks) = decode_members fs ms s'
      in (s'', ok \<and> oks))"

fun decode_struct :: "'s fields \<Rightarrow> 's decoder" where
  "decode_struct fs (JObj ms) s = decode_members fs ms s"
| "decode_struct fs JNull s = (s, True)"
| "decode_struct fs _ s = (s, False)"

text \<open>\<open>json.Unmarshal(text, &v)\<close> and \<open>Decode(&v)\<close>: the new content of \<open>v\<close> and the error.\<close>

definition unmarshal :: "'s decoder \<Rightarrow> string \<Rightarrow> 's \<Rightarrow> 's \<times> json_error option" where
  "unmarshal dec text s = (case json_parse text of
      None \<Rightarrow> (s, Some JsonSyntax)
    | Some v \<Rightarrow> (case dec v s of (s', ok) \<Rightarrow> (s', if ok then None else Some JsonType)))"

definition decode_stream :: "'s decoder \<Rightarrow> string \<Rightarrow> 's \<Rightarrow> 's \<times> json_error option" where
  "decode_stream dec text s = (case json_decode text of
      None \<Rightarrow> (s, Some JsonSyntax)
    | Some v \<Rightarrow> (case dec v s of (s', ok) \<Rightarrow> (s', if ok then None else Some JsonType)))"

text \<open>A field of a struct: how to read it and how to write it.\<close>

definition on_field :: "('s \<Rightarrow> 'a) \<Rightarrow> ('a \<Rightarrow> 's \<Rightarrow> 's) \<Rightarrow> 'a decoder \<Rightarrow> 's decoder" where
  "on_field get put dec v s = (case dec v (get s) of (x, ok) \<Rightarrow> (put x s, ok))"

end
