(* ===== verification/GoJsonRoundtrip.thy ===== *)
theory GoJsonRoundtrip
  imports GoJson
begin

text \<open>
  What the JSON text layer guarantees: the fuel of the parser is enough for every text, and
  the printer's output parses to the value it was printed from (for values whose strings are
  printable ASCII without the escaped characters, which is what the program stores).
\<close>

section \<open>Fuel\<close>

lemma length_skip_ws: "length (skip_ws s) \<le> length s"
  by (simp add: skip_ws_def length_dropWhile_le)

lemma skip_ws_Cons_length: "skip_ws s = c # r \<Longrightarrow> length r < length s"
  using length_skip_ws [of s] by simp

lemma unescape_length: "unescape s = Some (b, t) \<Longrightarrow> length t < length s"
proof (induction s arbitrary: b t rule: unescape.induct)
  case (2 c r)
  show ?case
  proof (cases "unicode_escape (c # r)")
    case None
    with 2 show ?thesis
      by (fastforce split: if_splits option.splits list.splits)
  next
    case (Some p)
    with 2 show ?thesis
      by (cases p; cases "unicode_escape (drop 5 r)")
        (force split: if_splits option.splits simp: Let_def)+
  qed
qed simp

lemma parse_string_length: "parse_string s = Some (b, t) \<Longrightarrow> length t < length s"
  by (auto simp: parse_string_def dest: unescape_length)

lemma take_digits_length: "take_digits s = (ds, t) \<Longrightarrow> length t \<le> length s"
  by (auto simp: take_digits_def length_dropWhile_le)

lemma scan_exp_length: "scan_exp acc s = Some (l, t) \<Longrightarrow> length t \<le> length s"
  by (auto simp: scan_exp_def split: list.splits if_splits prod.splits dest!: take_digits_length)

lemma scan_frac_length: "scan_frac acc s = Some (l, t) \<Longrightarrow> length t \<le> length s"
  by (fastforce simp: scan_frac_def split: list.splits if_splits prod.splits
      dest!: take_digits_length scan_exp_length)

lemma scan_mag_length: "scan_mag sg s = Some (l, t) \<Longrightarrow> length t < length s"
  by (fastforce simp: scan_mag_def Let_def split: list.splits if_splits prod.splits
      dest!: take_digits_length scan_frac_length)

lemma scan_num_length: "scan_num s = Some (l, t) \<Longrightarrow> length t < length s"
  by (auto simp: scan_num_def split: list.splits if_splits dest: scan_mag_length)

text \<open>Every parser consumes at least one byte.\<close>

lemma parse_length:
  "parse_value n d s = Some (v, t) \<Longrightarrow> length t < length s"
  "parse_elems n d s = Some (vs, t) \<Longrightarrow> length t < length s"
  "parse_members n d s = Some (ms, t) \<Longrightarrow> length t < length s"
proof (induction n arbitrary: d s v t vs ms)
  case (Suc n)
  { case 1
    then obtain c r where s: "skip_ws s = c # r" by (cases "skip_ws s") auto
    have r: "length r < length s" using s by (rule skip_ws_Cons_length)
    have "length t \<le> length r \<or> length t < length (skip_ws r) \<or> length t < length (c # r)"
      using 1
      by (auto simp: s split: if_splits list.splits
          dest: Suc.IH(2,3) parse_string_length scan_num_length)
    then show ?case using r length_skip_ws [of r] by auto }
  { case 2
    then obtain v1 r where v1: "parse_value n d s = Some (v1, r)" by (auto split: option.splits)
    from Suc.IH(1) [OF v1] have r: "length r < length s" .
    obtain c u where u: "skip_ws r = c # u" using 2 v1 by (cases "skip_ws r") auto
    show ?case
      using 2 v1 u r skip_ws_Cons_length [OF u] Suc.IH(2)
      by (auto split: if_splits) (meson order_less_trans) }
  { case 3
    then obtain c r where s: "skip_ws s = c # r" by (cases "skip_ws s") auto
    from 3 s obtain k r2 where k: "parse_string r = Some (k, r2)" by (auto split: if_splits option.splits)
    from 3 s k obtain e r3 where r3: "skip_ws r2 = e # r3" by (auto split: if_splits list.splits)
    from 3 s k r3 obtain v1 r4 where v1: "parse_value n d r3 = Some (v1, r4)"
      by (auto split: if_splits option.splits)
    from 3 s k r3 v1 obtain x w where w: "skip_ws r4 = x # w" by (auto split: if_splits list.splits)
    have "length w < length s"
      using skip_ws_Cons_length [OF s] parse_string_length [OF k] skip_ws_Cons_length [OF r3]
        Suc.IH(1) [OF v1] skip_ws_Cons_length [OF w] by linarith
    then show ?case
      using 3 s k r3 v1 w Suc.IH(3) by (auto split: if_splits) (meson order_less_trans) }
qed simp_all

text \<open>
  Above the bound the fuel does not matter: a call on a text of length \<open>l\<close> never needs more
  than \<open>2 * l + 1\<close> units for a value and \<open>2 * l + 2\<close> for the list loops.
\<close>

lemma fuel_irrelevant:
  "2 * length s < n \<Longrightarrow> 2 * length s < m \<Longrightarrow> parse_value n d s = parse_value m d s"
  "2 * length s + 1 < n \<Longrightarrow> 2 * length s + 1 < m \<Longrightarrow> parse_elems n d s = parse_elems m d s"
  "2 * length s + 1 < n \<Longrightarrow> 2 * length s + 1 < m \<Longrightarrow> parse_members n d s = parse_members m d s"
proof (induction n arbitrary: d s m)
  case (Suc n)
  { case 1
    then obtain m' where m: "m = Suc m'" by (cases m) auto
    have inner: "parse_members n d' w = parse_members m' d' w" "parse_elems n d' w = parse_elems m' d' w"
      if "skip_ws s = c # r" "length w \<le> length r" for c r d' w
      using that 1 m skip_ws_Cons_length [of s c r] by (auto intro!: Suc.IH)
    show ?case
    proof (cases "skip_ws s")
      case (Cons c r)
      have "length (e # w) \<le> length r" if "skip_ws r = e # w" for e w
        using that length_skip_ws [of r] by simp
      then show ?thesis
        using inner [OF Cons] by (auto simp: m Cons split: list.splits)
    qed (simp add: m) }
  { case 2
    then obtain m' where m: "m = Suc m'" by (cases m) auto
    have v: "parse_value n d s = parse_value m' d s" using 2 m by (intro Suc.IH(1)) simp_all
    have "parse_elems n d u = parse_elems m' d u"
      if "parse_value m' d s = Some (v1, r)" "skip_ws r = c # u" for v1 r c u
      using 2 m parse_length(1) [OF that(1)] skip_ws_Cons_length [OF that(2)]
      by (intro Suc.IH(2)) simp_all
    then show ?case by (auto simp: m v split: option.splits list.splits) }
  { case 3
    then obtain m' where m: "m = Suc m'" by (cases m) auto
    have v: "parse_value n d r3 = parse_value m' d r3"
      if "skip_ws s = c # r" "parse_string r = Some (k, r2)" "skip_ws r2 = e # r3" for c r k r2 e r3
      using 3 m skip_ws_Cons_length [OF that(1)] parse_string_length [OF that(2)]
        skip_ws_Cons_length [OF that(3)]
      by (intro Suc.IH(1)) simp_all
    have ms: "parse_members n d w = parse_members m' d w"
      if "skip_ws s = c # r" "parse_string r = Some (k, r2)" "skip_ws r2 = e # r3"
        "parse_value m' d r3 = Some (v1, r4)" "skip_ws r4 = x # w" for c r k r2 e r3 v1 r4 x w
      using 3 m skip_ws_Cons_length [OF that(1)] parse_string_length [OF that(2)]
        skip_ws_Cons_length [OF that(3)] parse_length(1) [OF that(4)] skip_ws_Cons_length [OF that(5)]
      by (intro Suc.IH(3)) simp_all
    show ?case
      by (simp add: m v ms split: option.splits list.splits) }
qed simp_all

lemma json_fuel_enough: "json_fuel s \<le> n \<Longrightarrow> parse_value n d s = parse_value (json_fuel s) d s"
  by (intro fuel_irrelevant(1)) (simp_all add: json_fuel_def)

section \<open>Numbers\<close>

text \<open>What may follow a printed value inside an array or object, or at the end of the text.\<close>

definition stops :: "string \<Rightarrow> bool" where
  "stops r \<longleftrightarrow> r = [] \<or> hd r = CHR '','' \<or> hd r = CHR ''}'' \<or> hd r = CHR '']''"

definition num_ok :: "string \<Rightarrow> bool" where
  "num_ok l \<longleftrightarrow> l \<noteq> [] \<and> hd l \<in> insert CHR ''-'' {c. is_digit c} \<and>
     (\<forall>r. stops r \<longrightarrow> scan_num (l @ r) = Some (l, r))"

definition mag_ok :: "string \<Rightarrow> bool" where
  "mag_ok l \<longleftrightarrow> l \<noteq> [] \<and> is_digit (hd l) \<and>
     (\<forall>sg r. stops r \<longrightarrow> scan_mag sg (l @ r) = Some (sg @ l, r))"

lemma mag_ok_num: "mag_ok l \<Longrightarrow> num_ok l" "mag_ok l \<Longrightarrow> num_ok (CHR ''-'' # l)"
  by (cases l; auto simp: mag_ok_def num_ok_def scan_num_def)+

lemma take_digits_append:
  "list_all is_digit ds \<Longrightarrow> r = [] \<or> \<not> is_digit (hd r) \<Longrightarrow> take_digits (ds @ r) = (ds, r)"
  by (cases r) (auto simp: take_digits_def)

lemma stops_not_digit: "stops r \<Longrightarrow> r = [] \<or> \<not> is_digit (hd r)"
  by (auto simp: stops_def)

lemma scan_exp_stop: "stops r \<Longrightarrow> scan_exp acc r = Some (acc, r)"
  by (cases r) (auto simp: scan_exp_def stops_def)

lemma scan_frac_stop: "stops r \<Longrightarrow> scan_frac acc r = Some (acc, r)"
  by (cases r) (auto simp: scan_frac_def scan_exp_stop stops_def scan_exp_def)

lemma scan_exp_e:
  assumes "list_all is_digit ds" and "ds \<noteq> []" and "sg = ''+'' \<or> sg = ''-''" and "stops r"
  shows "scan_exp acc (CHR ''e'' # sg @ ds @ r) = Some (acc @ CHR ''e'' # sg @ ds, r)"
  using assms take_digits_append [OF assms(1) stops_not_digit [OF assms(4)]]
  by (auto simp: scan_exp_def)

lemma scan_mag_head:
  assumes "is_digit c" and "c \<noteq> CHR ''0'' \<or> ds = []" and "list_all is_digit ds"
    and "r = [] \<or> \<not> is_digit (hd r)"
  shows "scan_mag sg (c # ds @ r) = scan_frac (sg @ c # ds) r"
  using assms take_digits_append [OF assms(3,4)] by (auto simp: scan_mag_def)

lemma mag_ok_digits:
  assumes "is_digit c" and "c \<noteq> CHR ''0'' \<or> ds = []" and "list_all is_digit ds"
  shows "mag_ok (c # ds)"
  using assms by (auto simp: mag_ok_def scan_mag_head [OF assms stops_not_digit] scan_frac_stop)

lemma mag_ok_frac:
  assumes "is_digit c" and "c \<noteq> CHR ''0'' \<or> ds = []" and "list_all is_digit ds"
    and "list_all is_digit fs" and "fs \<noteq> []"
  shows "mag_ok (c # ds @ CHR ''.'' # fs)"
proof -
  have "scan_mag sg (c # ds @ CHR ''.'' # fs @ r) = Some (sg @ c # ds @ CHR ''.'' # fs, r)"
    if "stops r" for sg r
    using assms take_digits_append [OF assms(4) stops_not_digit [OF that]]
      scan_mag_head [OF assms(1-3), of "CHR ''.'' # fs @ r"]
    by (simp add: scan_frac_def scan_exp_stop [OF that])
  then show ?thesis using assms(1) by (simp add: mag_ok_def)
qed

lemma mag_ok_exp:
  assumes "is_digit c" and "list_all is_digit fs" and "list_all is_digit ds" and "ds \<noteq> []"
    and "sg = ''+'' \<or> sg = ''-''"
  shows "mag_ok (c # (if fs = [] then [] else CHR ''.'' # fs) @ CHR ''e'' # sg @ ds)"
proof -
  let ?l = "c # (if fs = [] then [] else CHR ''.'' # fs) @ CHR ''e'' # sg @ ds"
  have "scan_mag pre (?l @ r) = Some (pre @ ?l, r)" if "stops r" for pre r
  proof -
    have e: "scan_exp acc (CHR ''e'' # sg @ ds @ r) = Some (acc @ CHR ''e'' # sg @ ds, r)" for acc
      using assms(3-5) that by (rule scan_exp_e)
    have "take_digits (fs @ CHR ''e'' # sg @ ds @ r) = (fs, CHR ''e'' # sg @ ds @ r)"
      using assms(2) by (rule take_digits_append) simp
    moreover have "scan_mag pre (c # [] @ w) = scan_frac (pre @ [c]) w"
      if "\<not> is_digit (hd w)" for w
      using assms(1) that by (intro scan_mag_head) simp_all
    ultimately show ?thesis by (auto simp: scan_frac_def e)
  qed
  then show ?thesis using assms(1) by (simp add: mag_ok_def)
qed

lemma show_nat_Cons:
  assumes "0 \<le> n"
  obtains c ds where "show_nat n = c # ds" "is_digit c" "list_all is_digit ds" "c \<noteq> CHR ''0'' \<or> ds = []"
proof -
  obtain c ds where s: "show_nat n = c # ds" by (meson list.exhaust show_nat_not_Nil)
  moreover have "is_digit c" "list_all is_digit ds" using show_nat_digits [OF assms] by (simp_all add: s)
  moreover have "c \<noteq> CHR ''0'' \<or> ds = []"
    using hd_show_nat [of n] assms s by (cases "n = 0") auto
  ultimately show ?thesis by (rule that)
qed

lemma mag_ok_show_nat: "0 \<le> n \<Longrightarrow> mag_ok (show_nat n)"
  by (erule show_nat_Cons) (simp add: mag_ok_digits)

lemma num_ok_format_int [simp]: "num_ok (format_int n)"
  by (simp add: format_int_def show_int_def mag_ok_num mag_ok_show_nat)

lemma mag_ok_fmt_f:
  assumes "0 < fst p"
  shows "mag_ok (fmt_f p)"
proof -
  obtain c ds where s: "show_nat (fst p) = c # ds" "is_digit c" "list_all is_digit ds"
    using show_nat_Cons [of "fst p"] assms by (metis order_less_imp_le)
  have nz: "c \<noteq> CHR ''0''" using hd_show_nat [OF assms] s by simp
  define dp where "dp = int (length (c # ds)) + snd p"
  consider "dp \<le> 0" | "0 < dp" "int (length (c # ds)) \<le> dp" | "0 < dp" "dp < int (length (c # ds))"
    by linarith
  then show ?thesis
  proof cases
    case 1
    then have "fmt_f p = CHR ''0'' # [] @ CHR ''.'' # (replicate (nat (- dp)) CHR ''0'' @ c # ds)"
      by (simp add: fmt_f_def s dp_def Let_def)
    then show ?thesis using s by (simp only:) (intro mag_ok_frac; simp)
  next
    case 2
    then have "fmt_f p = c # ds @ replicate (nat dp - length (c # ds)) CHR ''0''"
      by (simp add: fmt_f_def s dp_def Let_def)
    then show ?thesis using s nz by (simp only:) (intro mag_ok_digits; simp)
  next
    case 3
    then obtain k where k: "nat dp = Suc k" by (cases "nat dp") auto
    then have "fmt_f p = c # take k ds @ CHR ''.'' # drop k ds"
      using 3 by (simp add: fmt_f_def s dp_def Let_def)
    moreover have "drop k ds \<noteq> []" using 3 k by simp
    moreover have "list_all is_digit (take k ds)" "list_all is_digit (drop k ds)"
      using s(3) by (metis append_take_drop_id list_all_append)+
    ultimately show ?thesis using s nz by (simp only:) (intro mag_ok_frac; simp)
  qed
qed

lemma mag_ok_fmt_e:
  assumes "0 < fst p"
  shows "mag_ok (fmt_e p)"
proof -
  obtain c ds where s: "show_nat (fst p) = c # ds" "is_digit c" "list_all is_digit ds"
    using show_nat_Cons [of "fst p"] assms by (metis order_less_imp_le)
  define ex where "ex = int (length ds) + snd p"
  have "fmt_e p = c # (if ds = [] then [] else CHR ''.'' # ds) @ CHR ''e'' #
      (if ex < 0 then ''-'' else ''+'') @ ((if 0 \<le> ex \<and> ex < 10 then ''0'' else []) @ show_nat \<bar>ex\<bar>)"
    by (simp add: fmt_e_def s ex_def Let_def)
  then show ?thesis using s by (simp only:) (intro mag_ok_exp; simp)
qed

lemma num_ok_json_float: "wf_f64 f \<Longrightarrow> json_float f = Some l \<Longrightarrow> num_ok l"
proof (cases f)
  case (Num x)
  assume f: "wf_f64 f" "json_float f = Some l"
  have "mag_ok (fmt_mag \<bar>x\<bar>)"
    using f(1) shortest_pos [of "\<bar>x\<bar>"] by (simp add: Num fmt_mag_def mag_ok_fmt_f mag_ok_fmt_e)
  then show ?thesis using f(2) by (auto simp: Num mag_ok_num split: if_splits)
next
  case (Zero z)
  have "mag_ok ''0''" by (rule mag_ok_digits) simp_all
  moreover assume "json_float f = Some l"
  ultimately show ?thesis by (auto simp: Zero mag_ok_num split: if_splits)
qed simp_all

section \<open>Strings and values\<close>

definition plain :: "char \<Rightarrow> bool" where
  "plain c \<longleftrightarrow> 32 \<le> byte c \<and> byte c < 128 \<and> c \<notin> {quote_chr, backslash, CHR ''<'', CHR ''>'', CHR ''&''}"

lemma plain_byte: "plain c \<Longrightarrow> byte c < 128" "plain c \<Longrightarrow> \<not> byte c < 32"
  "plain c \<Longrightarrow> c \<noteq> quote_chr" "plain c \<Longrightarrow> c \<noteq> backslash"
  by (auto simp: plain_def)

lemma plain_not_control:
  "\<not> plain CHR 0x08" "\<not> plain CHR 0x0C" "\<not> plain CHR 0x0A" "\<not> plain CHR 0x0D" "\<not> plain CHR 0x09"
  "\<not> plain CHR ''<''" "\<not> plain CHR ''>''" "\<not> plain CHR ''&''" "\<not> plain quote_chr" "\<not> plain backslash"
  by (simp_all add: plain_def)

lemma quote_ascii_plain:
  assumes "plain c"
  shows "quote_ascii c = [c]"
proof -
  have "c \<noteq> x" if "\<not> plain x" for x using that assms by blast
  then show ?thesis
    using assms by (simp only: quote_ascii_def plain_not_control plain_byte simp_thms if_False)
qed

lemma quote_body_plain: "list_all plain s \<Longrightarrow> quote_body s = s"
  by (induction s) (simp_all add: quote_ascii_plain plain_byte)

lemma json_quote_plain: "list_all plain s \<Longrightarrow> json_quote s = quote_chr # s @ [quote_chr]"
  by (simp add: json_quote_def quote_body_plain)

lemma utf8_fix_plain: "list_all plain s \<Longrightarrow> utf8_fix s = s"
  by (induction s) (simp_all add: plain_byte)

lemma unescape_plain: "list_all plain s \<Longrightarrow> unescape (s @ quote_chr # r) = Some (s, r)"
  by (induction s) (simp_all add: plain_byte)

lemma parse_string_plain: "list_all plain s \<Longrightarrow> parse_string (s @ quote_chr # r) = Some (s, r)"
  by (simp add: parse_string_def unescape_plain utf8_fix_plain)

lemma skip_ws_Cons: "\<not> is_space c \<Longrightarrow> skip_ws (c # r) = c # r"
  by (simp add: skip_ws_def)

lemma skip_ws_punct [simp]:
  "skip_ws (CHR '','' # r) = CHR '','' # r" "skip_ws (CHR '':'' # r) = CHR '':'' # r"
  "skip_ws (CHR ''}'' # r) = CHR ''}'' # r" "skip_ws (CHR '']'' # r) = CHR '']'' # r"
  "skip_ws (CHR ''{'' # r) = CHR ''{'' # r" "skip_ws (CHR ''['' # r) = CHR ''['' # r"
  "skip_ws (CHR ''t'' # r) = CHR ''t'' # r" "skip_ws (CHR ''f'' # r) = CHR ''f'' # r"
  "skip_ws (CHR ''n'' # r) = CHR ''n'' # r" "skip_ws (quote_chr # r) = quote_chr # r"
  "skip_ws [] = []"
  by (simp_all add: skip_ws_def is_space_def)

text \<open>Values the printer round-trips: see \<open>parse_print\<close>. The argument is the nesting depth.\<close>

fun json_ok :: "int \<Rightarrow> json \<Rightarrow> bool" where
  "json_ok d (JNum l) \<longleftrightarrow> num_ok l"
| "json_ok d (JStr s) \<longleftrightarrow> list_all plain s"
| "json_ok d (JArr vs) \<longleftrightarrow> d < max_depth \<and> list_all (json_ok (d + 1)) vs"
| "json_ok d (JObj ms) \<longleftrightarrow> d < max_depth \<and> list_all (\<lambda>(k, v). list_all plain k \<and> json_ok (d + 1) v) ms"
| "json_ok d _ \<longleftrightarrow> True"

abbreviation print_member :: "string \<times> json \<Rightarrow> string" where
  "print_member \<equiv> (\<lambda>(k, v). json_quote k @ '':'' @ json_print v)"

lemma parse_value_num:
  assumes "num_ok l" and "stops r"
  shows "parse_value (Suc n) d (l @ r) = Some (JNum l, r)"
proof -
  obtain c t where l: "l = c # t" and c: "c = CHR ''-'' \<or> is_digit c"
    using assms(1) by (cases l) (auto simp: num_ok_def)
  have "\<not> is_space c" using c by (auto simp: is_space_def is_digit_def)
  moreover have "c \<notin> {CHR ''{'', CHR ''['', quote_chr, CHR ''t'', CHR ''f'', CHR ''n''}"
    using c by (auto simp: is_digit_def)
  moreover have "scan_num (c # t @ r) = Some (c # t, r)" using assms by (simp add: num_ok_def l)
  ultimately show ?thesis by (simp add: l skip_ws_Cons)
qed

lemma json_print_not_Nil: "json_ok d v \<Longrightarrow> json_print v \<noteq> []"
  by (cases v) (auto simp: num_ok_def json_quote_def)

lemma print_head_skip: "json_ok d v \<Longrightarrow> \<exists>c t. json_print v = c # t \<and> \<not> is_space c \<and> c \<noteq> CHR '']''"
  by (cases v) (auto simp: num_ok_def json_quote_def is_space_def is_digit_def neq_Nil_conv)

lemma parse_elems_print:
  assumes v: "\<And>v n r. v \<in> set vs \<Longrightarrow> 2 * length (json_print v) \<le> n \<Longrightarrow> stops r \<Longrightarrow>
      parse_value n d (json_print v @ r) = Some (v, r)"
    and "vs \<noteq> []" and "2 * length (join (map json_print vs)) + 1 \<le> n"
  shows "parse_elems n d (join (map json_print vs) @ CHR '']'' # r) = Some (vs, r)"
  using assms
proof (induction vs arbitrary: n)
  case (Cons v vs)
  then obtain m where n: "n = Suc m" by (cases n) auto
  show ?case
  proof (cases vs)
    case Nil
    have "parse_value m d (json_print v @ CHR '']'' # r) = Some (v, CHR '']'' # r)"
      using Cons.prems n Nil by (intro Cons.prems(1)) (simp_all add: stops_def)
    then show ?thesis by (simp add: n Nil)
  next
    case (Cons w ws)
    let ?rest = "join (map json_print vs) @ CHR '']'' # r"
    have "parse_value m d (json_print v @ CHR '','' # ?rest) = Some (v, CHR '','' # ?rest)"
      using Cons.prems n Cons by (intro Cons.prems(1)) (simp_all add: stops_def)
    moreover have "parse_elems m d ?rest = Some (vs, r)"
      using Cons.prems n Cons by (intro Cons.IH) simp_all
    ultimately show ?thesis by (simp add: n Cons)
  qed
qed simp

lemma parse_members_print:
  assumes v: "\<And>k v n r. (k, v) \<in> set ms \<Longrightarrow> 2 * length (json_print v) \<le> n \<Longrightarrow> stops r \<Longrightarrow>
      parse_value n d (json_print v @ r) = Some (v, r)"
    and "list_all (\<lambda>p. list_all plain (fst p)) ms"
    and "ms \<noteq> []" and "2 * length (join (map print_member ms)) + 1 \<le> n"
  shows "parse_members n d (join (map print_member ms) @ CHR ''}'' # r) = Some (ms, r)"
  using assms
proof (induction ms arbitrary: n)
  case (Cons p ms)
  obtain k v where p: "p = (k, v)" by (cases p)
  from Cons obtain m where n: "n = Suc m" by (cases n) auto
  have k: "list_all plain k" using Cons.prems(2) by (simp add: p)
  show ?case
  proof (cases ms)
    case Nil
    have "parse_value m d (json_print v @ CHR ''}'' # r) = Some (v, CHR ''}'' # r)"
      using Cons.prems(4) n Nil p by (intro Cons.prems(1) [of k]) (simp_all add: stops_def)
    then show ?thesis by (simp add: n Nil p json_quote_plain [OF k] parse_string_plain [OF k])
  next
    case (Cons q qs)
    let ?rest = "join (map print_member ms) @ CHR ''}'' # r"
    have "parse_value m d (json_print v @ CHR '','' # ?rest) = Some (v, CHR '','' # ?rest)"
      using Cons.prems(4) n Cons p by (intro Cons.prems(1) [of k]) (simp_all add: stops_def)
    moreover have "parse_members m d ?rest = Some (ms, r)"
    proof (rule Cons.IH)
      show "parse_value n' d (json_print v' @ r') = Some (v', r')"
        if "(k', v') \<in> set ms" "2 * length (json_print v') \<le> n'" "stops r'" for k' v' n' r'
        using that by (intro Cons.prems(1) [of k']) simp_all
    qed (use Cons.prems(2,4) n Cons in simp_all)
    ultimately show ?thesis
      by (simp add: n Cons p json_quote_plain [OF k] parse_string_plain [OF k])
  qed
qed simp

theorem parse_print:
  "json_ok d v \<Longrightarrow> 2 * length (json_print v) \<le> n \<Longrightarrow> stops r \<Longrightarrow>
   parse_value n d (json_print v @ r) = Some (v, r)"
proof (induction v arbitrary: n d r)
  case JNull
  then show ?case by (cases n) simp_all
next
  case (JBool b)
  then show ?case by (cases n; cases b) simp_all
next
  case (JNum l)
  then have "num_ok l" and "l \<noteq> []" by (auto simp: num_ok_def)
  with JNum obtain m where n: "n = Suc m" by (cases n) auto
  show ?case using parse_value_num [OF \<open>num_ok l\<close> JNum.prems(3)] by (simp only: n json_print.simps)
next
  case (JStr s)
  then show ?case by (cases n) (simp_all add: json_quote_plain parse_string_plain)
next
  case (JArr vs)
  then obtain m where n: "n = Suc m" by (cases n) auto
  show ?case
  proof (cases vs)
    case Nil
    with JArr n show ?thesis by simp
  next
    case (Cons v ws)
    let ?body = "join (map json_print vs) @ CHR '']'' # r"
    have "json_ok (d + 1) v" using JArr.prems by (simp add: Cons)
    then obtain c t where c: "json_print v = c # t" "\<not> is_space c" "c \<noteq> CHR '']''"
      using print_head_skip by blast
    obtain u where u: "?body = c # u" using c Cons by (cases ws) auto
    have "parse_elems m (d + 1) ?body = Some (vs, r)"
      using JArr n Cons by (intro parse_elems_print) (auto simp: list_all_iff)
    then show ?thesis using JArr.prems c u by (simp add: n skip_ws_Cons)
  qed
next
  case (JObj ms)
  then obtain m where n: "n = Suc m" by (cases n) auto
  show ?case
  proof (cases ms)
    case Nil
    with JObj n show ?thesis by simp
  next
    case (Cons p ps)
    let ?body = "join (map print_member ms) @ CHR ''}'' # r"
    obtain u where u: "?body = quote_chr # u" using Cons by (cases p; cases ps) (auto simp: json_quote_def)
    have keys: "list_all (\<lambda>p. list_all plain (fst p)) ms"
      using JObj.prems by (auto simp: list_all_iff)
    have vals: "parse_value k (d + 1) (json_print v @ w) = Some (v, w)"
      if "(x, v) \<in> set ms" "2 * length (json_print v) \<le> k" "stops w" for x v k w
      using that JObj.prems(1) by (intro JObj.IH [of "(x, v)"]) (auto simp: list_all_iff)
    have "parse_members m (d + 1) ?body = Some (ms, r)"
      using vals keys by (rule parse_members_print) (use JObj.prems n Cons in simp_all)
    then show ?thesis using JObj.prems u by (simp add: n skip_ws_Cons is_space_def)
  qed
qed

corollary json_parse_print [simp]:
  assumes "json_ok 0 v"
  shows "json_parse (json_print v) = Some v"
  using parse_print [OF assms, of "json_fuel (json_print v)" "[]"]
  by (simp add: json_parse_def json_fuel_def stops_def)

text \<open>What decoding a marshalled struct of known fields comes down to.\<close>

lemma unmarshal_print:
  assumes "json_ok 0 v" and "dec v s = (s', True)"
  shows "unmarshal dec (json_print v) s = (s', None)"
  using assms by (simp add: unmarshal_def)

lemma json_print_Obj_not_Nil [simp]: "json_print (JObj ms) \<noteq> []"
  by simp

end
