(* ===== verification/GoRuntime.thy ===== *)
theory GoRuntime
  imports GoJsonRoundtrip
begin

text \<open>
  What the program takes from Go's run-time system: \<open>time.Time\<close> and \<open>time.Duration\<close>, error
  values, panics, and the world an operation runs in, which is the state of the store and the
  clock. Every call of \<open>time.Now()\<close> takes the next reading of the clock, so an operation
  that calls it three times sees three, possibly different, instants.
\<close>

section \<open>Time\<close>

text \<open>
  A \<open>time.Time\<close> has a wall-clock reading, in nanoseconds since the Unix epoch, and, where it
  comes from \<open>time.Now()\<close>, a reading of the monotonic clock.
\<close>

record gotime =
  t_wall :: int
  t_mono :: "int option"

definition zero_time :: gotime where
  "zero_time = \<lparr>t_wall = - 62135596800000000000, t_mono = None\<rparr>"

definition is_zero_time :: "gotime \<Rightarrow> bool" where
  "is_zero_time t \<longleftrightarrow> t_wall t = - 62135596800000000000"

definition time_before :: "gotime \<Rightarrow> gotime \<Rightarrow> bool" where
  "time_before t u = (case (t_mono t, t_mono u) of
      (Some a, Some b) \<Rightarrow> a < b
    | _ \<Rightarrow> t_wall t < t_wall u)"

text \<open>\<open>t.Add(d)\<close> shifts both readings; a monotonic reading that overflows is dropped.\<close>

definition time_add :: "gotime \<Rightarrow> int64 \<Rightarrow> gotime" where
  "time_add t d = \<lparr>t_wall = t_wall t + sint d,
     t_mono = (case t_mono t of
         Some m \<Rightarrow> if in_i64 (m + sint d) then Some (m + sint d) else None
       | None \<Rightarrow> None)\<rparr>"

text \<open>\<open>t.Sub(u)\<close> saturates at the ends of \<open>time.Duration\<close>.\<close>

definition saturate :: "int \<Rightarrow> int64" where
  "saturate x = word_of_int (if x < - 9223372036854775808 then - 9223372036854775808
     else if 9223372036854775807 < x then 9223372036854775807 else x)"

definition time_sub :: "gotime \<Rightarrow> gotime \<Rightarrow> int64" where
  "time_sub t u = saturate (case (t_mono t, t_mono u) of
      (Some a, Some b) \<Rightarrow> a - b
    | _ \<Rightarrow> t_wall t - t_wall u)"

text \<open>
  \<open>UnixNano\<close>, \<open>Unix\<close> and \<open>time.Unix(sec, nsec)\<close>, which counts its seconds from the year 1 in an
  \<open>int64\<close>.
\<close>

definition unix_nano :: "gotime \<Rightarrow> int64" where
  "unix_nano t = word_of_int (t_wall t)"

definition unix_sec :: "gotime \<Rightarrow> int64" where
  "unix_sec t = word_of_int (t_wall t div 1000000000)"

definition time_unix :: "int64 \<Rightarrow> int64 \<Rightarrow> gotime" where
  "time_unix sec nsec = \<lparr>t_wall = (sint (sec + 62135596800) - 62135596800) * 1000000000 + sint nsec, t_mono = None\<rparr>"

text \<open>Durations are \<open>int64\<close> nanoseconds.\<close>

definition second :: int64 where "second = 1000000000"
definition hours24 :: int64 where "hours24 = 86400000000000"

definition dur_seconds :: "int64 \<Rightarrow> f64" where
  "dur_seconds d = f64_add (f64_of_int (sint (go_div d second)))
     (f64_div (f64_of_int (sint (go_mod d second))) (f64_of_int 1000000000))"

section \<open>Errors and panics\<close>

text \<open>
  \<open>ErrNotFound\<close> is the sentinel of \<open>service/constants.go\<close>, compared by identity; \<open>ErrNew\<close>
  is \<open>errors.New\<close> (or \<open>fmt.Errorf\<close> without \<open>%w\<close>), \<open>ErrWrap\<close> is \<open>fmt.Errorf("...: %w", err)\<close>,
  \<open>ErrJson\<close> an error of \<open>encoding/json\<close> and \<open>ErrExternal\<close> one of a library or the network.
\<close>

datatype go_error =
    ErrNotFound
  | ErrNew string
  | ErrWrap string go_error
  | ErrJson json_error
  | ErrExternal string

text \<open>\<open>errors.Is\<close> against the sentinel unwraps.\<close>

fun is_not_found :: "go_error \<Rightarrow> bool" where
  "is_not_found ErrNotFound = True"
| "is_not_found (ErrWrap m e) = is_not_found e"
| "is_not_found _ = False"

datatype panic = DivideByZero | NilDereference | CloseOfClosedChannel

datatype 'a outcome = Returns 'a | Panics panic

section \<open>The world\<close>

record 's world =
  w_store :: 's
  w_clock :: "nat \<Rightarrow> gotime"
  w_reads :: nat

text \<open>\<open>time.Now()\<close>.\<close>

definition now :: "'s world \<Rightarrow> gotime" where
  "now w = w_clock w (w_reads w)"

definition tick :: "'s world \<Rightarrow> 's world" where
  "tick w = w\<lparr>w_reads := Suc (w_reads w)\<rparr>"

definition skip :: "nat \<Rightarrow> 's world \<Rightarrow> 's world" where
  "skip n w = w\<lparr>w_reads := w_reads w + n\<rparr>"

definition put_store :: "'s \<Rightarrow> 's world \<Rightarrow> 's world" where
  "put_store s w = w\<lparr>w_store := s\<rparr>"

lemma tick_skip: "tick w = skip 1 w"
  by (simp add: tick_def skip_def)

lemma skip_skip [simp]: "skip m (skip n w) = skip (n + m) w"
  by (simp add: skip_def add.assoc)

lemma skip_0 [simp]: "skip 0 w = w"
  by (simp add: skip_def)

lemma world_simps [simp]:
  "w_store (skip n w) = w_store w" "w_clock (skip n w) = w_clock w" "w_reads (skip n w) = w_reads w + n"
  "w_store (tick w) = w_store w" "w_clock (tick w) = w_clock w" "w_reads (tick w) = Suc (w_reads w)"
  "w_store (put_store s w) = s" "w_clock (put_store s w) = w_clock w" "w_reads (put_store s w) = w_reads w"
  by (simp_all add: skip_def tick_def put_store_def)

lemma now_skip [simp]: "now (skip n w) = w_clock w (w_reads w + n)"
  and now_tick [simp]: "now (tick w) = w_clock w (Suc (w_reads w))"
  and now_put [simp]: "now (put_store s w) = now w"
  by (simp_all add: now_def)

lemma put_store_skip: "put_store s (skip n w) = skip n (put_store s w)"
  by (simp add: put_store_def skip_def)

text \<open>
  A steady clock: both readings advance together, never go back and are after the Unix epoch.
  It is a hypothesis of the properties that need it; the models themselves take any clock.
\<close>

definition steady :: "(nat \<Rightarrow> gotime) \<Rightarrow> bool" where
  "steady c \<longleftrightarrow> (\<exists>offset. (\<forall>i. t_mono (c i) = Some (t_wall (c i) - offset)) \<and>
     (\<forall>i j. i \<le> j \<longrightarrow> t_wall (c i) \<le> t_wall (c j)) \<and> (\<forall>i. 0 \<le> t_wall (c i)))"

lemma steady_mono: "steady c \<Longrightarrow> i \<le> j \<Longrightarrow> t_wall (c i) \<le> t_wall (c j)"
  by (auto simp: steady_def)

lemma steady_before: "steady c \<Longrightarrow> time_before (c i) (c j) \<longleftrightarrow> t_wall (c i) < t_wall (c j)"
  by (auto simp: steady_def time_before_def)

lemma steady_nonneg: "steady c \<Longrightarrow> 0 \<le> t_wall (c i)"
  by (auto simp: steady_def)

lemma steady_before_add:
  "steady c \<Longrightarrow> time_before (time_add (c i) d) (c j) \<longleftrightarrow> t_wall (c i) + sint d < t_wall (c j)"
  by (auto simp: steady_def time_before_def time_add_def split: if_splits)

lemma steady_add_nonzero: "steady c \<Longrightarrow> \<not> is_zero_time (time_add (c i) d)"
  using steady_nonneg [of c i] sint_lower [of d] by (simp add: is_zero_time_def time_add_def)

lemma steady_before_mono: "steady c \<Longrightarrow> i \<le> j \<Longrightarrow> time_before e (c i) \<Longrightarrow> time_before e (c j)"
  by (auto simp: steady_def time_before_def split: option.splits)
    (metis order_less_le_trans diff_right_mono)+

lemma sint_saturate: "sint (saturate x) = min 9223372036854775807 (max (- 9223372036854775808) x)"
  by (auto simp: saturate_def in_i64_def sint_of_int_i64)

lemma sint_second [simp]: "sint second = 1000000000"
  and sint_hours24 [simp]: "sint hours24 = 86400000000000"
  by (simp_all add: second_def hours24_def)

lemma sint_unix_nano: "in_i64 (t_wall t) \<Longrightarrow> sint (unix_nano t) = t_wall t"
  by (simp add: unix_nano_def sint_of_int_i64)

end
