(* ===== verification/Store.thy ===== *)
theory Store
  imports GoRuntime
begin

text \<open>
  The interface \<open>storage.Store\<close> (\<open>internal/storage/interface.go\<close>) as a record of
  operations over the world: Go's interface value is the record, and a call of a method is an
  application of its field. The context argument is left to the implementation of a store. An
  operation that returns a value and an error returns the error (\<open>Inl\<close>) or the value (\<open>Inr\<close>).

  The locale \<open>string_store\<close> is the contract the limiters and the service rely on: what a
  \<open>Get\<close> returns after a \<open>Set\<close> or a \<open>Delete\<close>. Its parameter \<open>lookup s t k\<close> is what \<open>Get\<close> on
  key \<open>k\<close> returns in store \<open>s\<close> at time \<open>t\<close>, and \<open>alive t d u\<close> says that a value stored at \<open>t\<close>
  with expiration \<open>d\<close> is still there at \<open>u\<close>.
\<close>

record 's store_ops =
  st_increment :: "string \<Rightarrow> int64 \<Rightarrow> 's world \<Rightarrow> (go_error + int64) \<times> 's world"
  st_increment_by :: "string \<Rightarrow> int64 \<Rightarrow> int64 \<Rightarrow> 's world \<Rightarrow> (go_error + int64) \<times> 's world"
  st_get :: "string \<Rightarrow> 's world \<Rightarrow> (go_error + string) \<times> 's world"
  st_set :: "string \<Rightarrow> string \<Rightarrow> int64 \<Rightarrow> 's world \<Rightarrow> go_error option \<times> 's world"
  st_delete :: "string \<Rightarrow> 's world \<Rightarrow> go_error option \<times> 's world"
  st_zadd :: "string \<Rightarrow> f64 \<Rightarrow> string \<Rightarrow> int64 \<Rightarrow> 's world \<Rightarrow> go_error option \<times> 's world"
  st_zrem_range_by_score :: "string \<Rightarrow> f64 \<Rightarrow> f64 \<Rightarrow> 's world \<Rightarrow> go_error option \<times> 's world"
  st_zcount :: "string \<Rightarrow> f64 \<Rightarrow> f64 \<Rightarrow> 's world \<Rightarrow> (go_error + int64) \<times> 's world"
  st_expire :: "string \<Rightarrow> int64 \<Rightarrow> 's world \<Rightarrow> go_error option \<times> 's world"
  st_ping :: "'s world \<Rightarrow> go_error option \<times> 's world"
  st_close :: "'s world \<Rightarrow> go_error option outcome \<times> 's world"

section \<open>What a key holds over time\<close>

text \<open>
  \<open>stored lookup w k v dl\<close>: from now on the key \<open>k\<close> reads as \<open>v\<close> up to the deadline \<open>dl\<close> (wall
  clock) and as \<open>v\<close> or nothing afterwards. \<open>quiet lookup k g\<close>: the activity \<open>g\<close> between two calls
  (operations on other keys, the cleanup, the passing of time) does not change what later
  reads of \<open>k\<close> see.
\<close>

definition stored ::
    "('s \<Rightarrow> gotime \<Rightarrow> string \<Rightarrow> string) \<Rightarrow> 's world \<Rightarrow> string \<Rightarrow> string \<Rightarrow> int \<Rightarrow> bool" where
  "stored lookup w k v dl \<longleftrightarrow> (\<forall>i \<ge> w_reads w.
     (t_wall (w_clock w i) \<le> dl \<longrightarrow> lookup (w_store w) (w_clock w i) k = v) \<and>
     lookup (w_store w) (w_clock w i) k \<in> {v, []})"

definition quiet ::
    "('s \<Rightarrow> gotime \<Rightarrow> string \<Rightarrow> string) \<Rightarrow> string \<Rightarrow> ('s world \<Rightarrow> 's world) \<Rightarrow> bool" where
  "quiet lookup k g \<longleftrightarrow> (\<forall>w. steady (w_clock w) \<longrightarrow>
     w_clock (g w) = w_clock w \<and> w_reads w \<le> w_reads (g w) \<and>
     (\<forall>i \<ge> w_reads (g w). lookup (w_store (g w)) (w_clock w i) k = lookup (w_store w) (w_clock w i) k))"

text \<open>\<open>holds lookup w k v\<close>: the key reads as \<open>v\<close> from now on.\<close>

definition holds :: "('s \<Rightarrow> gotime \<Rightarrow> string \<Rightarrow> string) \<Rightarrow> 's world \<Rightarrow> string \<Rightarrow> string \<Rightarrow> bool" where
  "holds lookup w k v \<longleftrightarrow> (\<forall>i \<ge> w_reads w. lookup (w_store w) (w_clock w i) k = v)"

lemma stored_holds:
  "stored lookup w k v dl \<Longrightarrow> (\<And>i. t_wall (w_clock w i) \<le> dl) \<Longrightarrow> holds lookup w k v"
  by (simp add: stored_def holds_def)

lemma holds_now: "holds lookup w k v \<Longrightarrow> lookup (w_store w) (now w) k = v"
  by (simp add: holds_def now_def)

lemma holds_skip: "holds lookup w k v \<Longrightarrow> holds lookup (skip n w) k v"
  by (simp add: holds_def)

text \<open>\<open>undisturbed lookup k w w'\<close>: the step from \<open>w\<close> to \<open>w'\<close> is quiet for the key \<open>k\<close>.\<close>

definition undisturbed ::
    "('s \<Rightarrow> gotime \<Rightarrow> string \<Rightarrow> string) \<Rightarrow> string \<Rightarrow> 's world \<Rightarrow> 's world \<Rightarrow> bool" where
  "undisturbed lookup k w w' \<longleftrightarrow> w_clock w' = w_clock w \<and> w_reads w \<le> w_reads w' \<and>
     (\<forall>i \<ge> w_reads w'. lookup (w_store w') (w_clock w i) k = lookup (w_store w) (w_clock w i) k)"

lemma undisturbed_refl [simp]: "undisturbed lookup k w w"
  by (simp add: undisturbed_def)

lemma undisturbed_tick [simp]: "undisturbed lookup k w (tick w)"
  by (simp add: undisturbed_def)

lemma undisturbed_trans [trans]:
  "undisturbed lookup k w w1 \<Longrightarrow> undisturbed lookup k w1 w2 \<Longrightarrow> undisturbed lookup k w w2"
  by (auto simp: undisturbed_def)

lemma quietI: "(\<And>w. undisturbed lookup k w (g w)) \<Longrightarrow> quiet lookup k g"
  by (simp add: undisturbed_def quiet_def)

lemma undisturbed_holds: "undisturbed lookup k w w' \<Longrightarrow> holds lookup w k v \<Longrightarrow> holds lookup w' k v"
  by (simp add: undisturbed_def holds_def)

lemma quiet_id [simp]: "quiet lookup k (\<lambda>w. w)"
  by (simp add: quiet_def)

lemma quiet_skip [simp]: "quiet lookup k (skip n)"
  by (simp add: quiet_def)

lemma quiet_comp:
  "quiet lookup k f \<Longrightarrow> quiet lookup k g \<Longrightarrow> quiet lookup k (\<lambda>w. f (g w))" for f g :: "'s world \<Rightarrow> 's world"
  unfolding quiet_def
proof (intro allI impI)
  fix w :: "'s world"
  assume f: "\<forall>w. steady (w_clock w) \<longrightarrow> w_clock (f w) = w_clock w \<and> w_reads w \<le> w_reads (f w) \<and>
      (\<forall>i \<ge> w_reads (f w). lookup (w_store (f w)) (w_clock w i) k = lookup (w_store w) (w_clock w i) k)"
    and g: "\<forall>w. steady (w_clock w) \<longrightarrow> w_clock (g w) = w_clock w \<and> w_reads w \<le> w_reads (g w) \<and>
      (\<forall>i \<ge> w_reads (g w). lookup (w_store (g w)) (w_clock w i) k = lookup (w_store w) (w_clock w i) k)"
    and c: "steady (w_clock w)"
  show "w_clock (f (g w)) = w_clock w \<and> w_reads w \<le> w_reads (f (g w)) \<and>
      (\<forall>i \<ge> w_reads (f (g w)). lookup (w_store (f (g w))) (w_clock w i) k = lookup (w_store w) (w_clock w i) k)"
    using spec [OF g, of w] spec [OF f, of "g w"] c by auto
qed

lemma quiet_world:
  "quiet lookup k g \<Longrightarrow> steady (w_clock w) \<Longrightarrow> w_clock (g w) = w_clock w \<and> w_reads w \<le> w_reads (g w)"
  by (simp add: quiet_def)

lemma quiet_stored:
  "quiet lookup k g \<Longrightarrow> steady (w_clock w) \<Longrightarrow> stored lookup w k v dl \<Longrightarrow> stored lookup (g w) k v dl"
  unfolding quiet_def stored_def by (metis order_trans)

lemma stored_skip: "stored lookup w k v dl \<Longrightarrow> stored lookup (skip n w) k v dl"
  by (simp add: stored_def)

lemma stored_read:
  "stored lookup w k v dl \<Longrightarrow> lookup (w_store w) (now w) k = v \<or>
     (lookup (w_store w) (now w) k = [] \<and> dl < t_wall (now w))"
  by (auto simp: stored_def now_def linorder_not_le dest: spec [of _ "w_reads w"])

text \<open>
  \<open>tracks lookup w k v e\<close>: from now on the key \<open>k\<close> reads as \<open>v\<close>, or as nothing at instants
  from \<open>e\<close> on; the reader that treats \<open>v\<close> as nothing from \<open>e\<close> on need not tell the two apart.
\<close>

definition tracks ::
    "('s \<Rightarrow> gotime \<Rightarrow> string \<Rightarrow> string) \<Rightarrow> 's world \<Rightarrow> string \<Rightarrow> string \<Rightarrow> int \<Rightarrow> bool" where
  "tracks lookup w k v e \<longleftrightarrow> (\<forall>i \<ge> w_reads w.
     lookup (w_store w) (w_clock w i) k = v \<or>
     (lookup (w_store w) (w_clock w i) k = [] \<and> e \<le> t_wall (w_clock w i)))"

lemma stored_tracks: "stored lookup w k v dl \<Longrightarrow> e \<le> dl \<Longrightarrow> tracks lookup w k v e"
  by (auto simp: stored_def tracks_def)

lemma tracks_now:
  "tracks lookup w k v e \<Longrightarrow> lookup (w_store w) (now w) k = v \<or>
     (lookup (w_store w) (now w) k = [] \<and> e \<le> t_wall (now w))"
  by (simp add: tracks_def now_def)

lemma tracks_skip: "tracks lookup w k v e \<Longrightarrow> tracks lookup (skip n w) k v e"
  by (simp add: tracks_def)

lemma quiet_tracks:
  "quiet lookup k g \<Longrightarrow> steady (w_clock w) \<Longrightarrow> tracks lookup w k v e \<Longrightarrow> tracks lookup (g w) k v e"
  unfolding quiet_def tracks_def by (metis order_trans)

lemma quiet_holds:
  "quiet lookup k g \<Longrightarrow> steady (w_clock w) \<Longrightarrow> holds lookup w k v \<Longrightarrow> holds lookup (g w) k v"
  unfolding quiet_def holds_def by (metis order_trans)

section \<open>Sequences of calls\<close>

text \<open>
  A sequence of calls of an operation with other activity before each: what each call returned,
  with the reading of the clock it started at. \<open>spec_seq\<close> is the same for a pure step on the
  state of a specification, given the instants.
\<close>

fun call_seq :: "('s world \<Rightarrow> 'r \<times> 's world) \<Rightarrow> ('s world \<Rightarrow> 's world) list \<Rightarrow> 's world \<Rightarrow> (int \<times> 'r) list" where
  "call_seq f [] w = []"
| "call_seq f (g # gs) w = (t_wall (now (g w)), fst (f (g w))) # call_seq f gs (snd (f (g w)))"

fun spec_seq :: "(int \<Rightarrow> 'a \<Rightarrow> 'r \<times> 'a) \<Rightarrow> 'a \<Rightarrow> int list \<Rightarrow> (int \<times> 'r) list" where
  "spec_seq step s [] = []"
| "spec_seq step s (t # ts) = (t, fst (step t s)) # spec_seq step (snd (step t s)) ts"

lemma spec_seq_times: "map fst (spec_seq step s ts) = ts"
  by (induction ts arbitrary: s) simp_all

lemma spec_seq_length [simp]: "length (spec_seq step s ts) = length ts"
  by (induction ts arbitrary: s) simp_all

lemma call_seq_length [simp]: "length (call_seq f gs w) = length gs"
  by (induction gs arbitrary: w) simp_all

definition keeps_clock :: "('s world \<Rightarrow> 's world) \<Rightarrow> bool" where
  "keeps_clock f \<longleftrightarrow> (\<forall>w. steady (w_clock w) \<longrightarrow> w_clock (f w) = w_clock w \<and> w_reads w \<le> w_reads (f w))"

lemma quiet_keeps_clock: "quiet lookup k g \<Longrightarrow> keeps_clock g"
  by (simp add: quiet_def keeps_clock_def)

lemma keeps_clockD:
  "keeps_clock f \<Longrightarrow> steady (w_clock w) \<Longrightarrow> w_clock (f w) = w_clock w \<and> w_reads w \<le> w_reads (f w)"
  by (simp add: keeps_clock_def)

lemma call_seq_sorted:
  assumes "keeps_clock (\<lambda>w. snd (f w))" and "\<forall>g \<in> set gs. keeps_clock g" and "steady (w_clock w)"
  shows "sorted (map fst (call_seq f gs w)) \<and> (\<forall>t \<in> set (map fst (call_seq f gs w)). t_wall (now w) \<le> t)"
  using assms(2,3)
proof (induction gs arbitrary: w)
  case (Cons g gs)
  have g: "w_clock (g w) = w_clock w" "w_reads w \<le> w_reads (g w)"
    using Cons.prems keeps_clockD [of g w] by simp_all
  have f: "w_clock (snd (f (g w))) = w_clock w" "w_reads (g w) \<le> w_reads (snd (f (g w)))"
    using Cons.prems keeps_clockD [OF assms(1), of "g w"] g by simp_all
  have "t_wall (now w) \<le> t_wall (now (g w))" "t_wall (now (g w)) \<le> t_wall (now (snd (f (g w))))"
    using g f Cons.prems(2) by (simp_all add: now_def steady_mono)
  with Cons.IH [of "snd (f (g w))"] f Cons.prems show ?case by fastforce
qed simp

text \<open>A simulation of one call gives the simulation of a sequence of calls.\<close>

lemma call_seq_refines:
  assumes other: "\<And>g w s. g \<in> set gs \<Longrightarrow> R w s \<Longrightarrow> R (g w) s"
    and step: "\<And>w s. R w s \<Longrightarrow> fst (f w) = h (fst (step (t_wall (now w)) s)) \<and>
      R (snd (f w)) (snd (step (t_wall (now w)) s))"
    and "R w s"
  shows "call_seq f gs w = map (\<lambda>(t, r). (t, h r)) (spec_seq step s (map fst (call_seq f gs w)))"
  using other assms(3)
proof (induction gs arbitrary: w s)
  case (Cons g gs)
  have "R (g w) s" using Cons.prems by simp
  from step [OF this] Cons.IH [of "snd (f (g w))" "snd (step (t_wall (now (g w))) s)"] Cons.prems(1)
  show ?case by simp
qed simp

text \<open>
  The same where the instant of the step lies somewhere within the call, so that the
  specification runs at instants \<open>us\<close> next to those recorded.
\<close>

fun call_end :: "('s world \<Rightarrow> 'r \<times> 's world) \<Rightarrow> ('s world \<Rightarrow> 's world) list \<Rightarrow> 's world \<Rightarrow> 's world" where
  "call_end f [] w = w"
| "call_end f (g # gs) w = call_end f gs (snd (f (g w)))"

lemma call_end_clock:
  assumes "keeps_clock (\<lambda>w. snd (f w))" and "\<forall>g \<in> set gs. keeps_clock g" and "steady (w_clock w)"
  shows "w_clock (call_end f gs w) = w_clock w"
  using assms(2,3)
proof (induction gs arbitrary: w)
  case (Cons g gs)
  then show ?case
    using keeps_clockD [of g w] keeps_clockD [OF assms(1), of "g w"] by simp
qed simp

fun call_spans :: "('s world \<Rightarrow> 'r \<times> 's world) \<Rightarrow> ('s world \<Rightarrow> 's world) list \<Rightarrow> 's world \<Rightarrow> ((int \<times> int) \<times> 'r) list" where
  "call_spans f [] w = []"
| "call_spans f (g # gs) w =
     ((t_wall (now (g w)), t_wall (now (snd (f (g w))))), fst (f (g w))) # call_spans f gs (snd (f (g w)))"

lemma call_spans_seq: "call_seq f gs w = map (\<lambda>((a, b), r). (a, r)) (call_spans f gs w)"
  by (induction gs arbitrary: w) simp_all

lemma call_spans_results: "map snd (call_seq f gs w) = map snd (call_spans f gs w)"
  by (simp add: call_spans_seq split_beta)

text \<open>\<open>inside rs us\<close>: each instant lies between the call and the return of its call.\<close>

definition inside :: "((int \<times> int) \<times> 'r) list \<Rightarrow> int list \<Rightarrow> bool" where
  "inside rs us \<longleftrightarrow> list_all2 (\<lambda>((a, b), r) u. a \<le> u \<and> u \<le> b) rs us"

lemma inside_Nil [simp]: "inside [] us \<longleftrightarrow> us = []"
  and inside_Cons [simp]: "inside (((a, b), r) # rs) (u # us) \<longleftrightarrow> a \<le> u \<and> u \<le> b \<and> inside rs us"
  by (simp_all add: inside_def)

lemma inside_length: "inside rs us \<Longrightarrow> length us = length rs"
  by (simp add: inside_def list_all2_lengthD)

text \<open>The state of a specification after a sequence of steps.\<close>

fun spec_end :: "(int \<Rightarrow> 'a \<Rightarrow> 'r \<times> 'a) \<Rightarrow> 'a \<Rightarrow> int list \<Rightarrow> 'a" where
  "spec_end step s [] = s"
| "spec_end step s (t # ts) = spec_end step (snd (step t s)) ts"

text \<open>A call leaves behind \<open>R'\<close>, which what comes between the calls may weaken to \<open>R\<close>.\<close>

lemma call_seq_within:
  assumes other: "\<And>g w s. g \<in> set gs \<Longrightarrow> R w s \<Longrightarrow> R (g w) s \<and> t_wall (now w) \<le> t_wall (now (g w))"
    and step: "\<And>w s. R w s \<Longrightarrow> \<exists>t. t_wall (now w) \<le> t \<and> t \<le> t_wall (now (snd (f w))) \<and>
      fst (f w) = h (fst (step t s)) \<and> R' (snd (f w)) (snd (step t s))"
    and weaken: "\<And>w s. R' w s \<Longrightarrow> R w s" and "R w s"
  shows "\<exists>us. sorted us \<and> (\<forall>u \<in> set us. t_wall (now w) \<le> u \<and> u \<le> t_wall (now (call_end f gs w))) \<and>
      inside (call_spans f gs w) us \<and> map snd (call_spans f gs w) = map (h \<circ> snd) (spec_seq step s us) \<and>
      t_wall (now w) \<le> t_wall (now (call_end f gs w)) \<and>
      R (call_end f gs w) (spec_end step s us) \<and> (gs \<noteq> [] \<longrightarrow> R' (call_end f gs w) (spec_end step s us))"
  using other assms(4)
proof (induction gs arbitrary: w s)
  case (Cons g gs)
  have g: "R (g w) s" "t_wall (now w) \<le> t_wall (now (g w))" using Cons.prems by simp_all
  obtain t where t: "t_wall (now (g w)) \<le> t" "t \<le> t_wall (now (snd (f (g w))))"
    "fst (f (g w)) = h (fst (step t s))" and R': "R' (snd (f (g w))) (snd (step t s))"
    using step [OF g(1)] by blast
  let ?w = "snd (f (g w))"
  obtain us where us: "sorted us" "\<forall>u \<in> set us. t_wall (now ?w) \<le> u \<and> u \<le> t_wall (now (call_end f gs ?w))"
    "inside (call_spans f gs ?w) us" "map snd (call_spans f gs ?w) = map (h \<circ> snd) (spec_seq step (snd (step t s)) us)"
    and e: "t_wall (now ?w) \<le> t_wall (now (call_end f gs ?w))"
    and R: "R (call_end f gs ?w) (spec_end step (snd (step t s)) us)"
      "gs \<noteq> [] \<longrightarrow> R' (call_end f gs ?w) (spec_end step (snd (step t s)) us)"
    using Cons.IH [of ?w "snd (step t s)"] Cons.prems(1) weaken [OF R'] by auto
  have us0: "gs = [] \<Longrightarrow> us = []" using us(3) by simp
  show ?case
  proof (intro exI [of _ "t # us"] conjI)
    show "sorted (t # us)" using us(1,2) t(2) by force
    show "\<forall>u \<in> set (t # us). t_wall (now w) \<le> u \<and> u \<le> t_wall (now (call_end f (g # gs) w))"
      using us(2) t(1,2) g(2) e by force
    show "g # gs \<noteq> [] \<longrightarrow> R' (call_end f (g # gs) w) (spec_end step s (t # us))"
      using R(2) R' us0 by (cases "gs = []") simp_all
  qed (use us t g(2) e R in simp_all)
qed (auto simp: assms(4))

text \<open>The requests allowed from \<open>a\<close> on and before \<open>b\<close>.\<close>

definition allowed_between :: "int \<Rightarrow> int \<Rightarrow> (int \<times> bool) list \<Rightarrow> nat" where
  "allowed_between a b rs = length (filter (\<lambda>(t, ok). ok \<and> a \<le> t \<and> t < b) rs)"

lemma allowed_between_Nil [simp]: "allowed_between a b [] = 0"
  by (simp add: allowed_between_def)

lemma allowed_between_Cons [simp]:
  "allowed_between a b ((t, ok) # rs) = (if ok \<and> a \<le> t \<and> t < b then 1 else 0) + allowed_between a b rs"
  by (simp add: allowed_between_def)

lemma allowed_between_late: "\<forall>t \<in> set (map fst rs). b \<le> t \<Longrightarrow> allowed_between a b rs = 0"
  by (induction rs) auto

text \<open>The same of the results of the code, which come with an error.\<close>

definition admitted :: "int \<Rightarrow> int \<Rightarrow> (int \<times> bool \<times> 'e) list \<Rightarrow> nat" where
  "admitted a b rs = length (filter (\<lambda>(t, ok, e). ok \<and> a \<le> t \<and> t < b) rs)"

lemma admitted_no_error [simp]:
  "admitted a b (map (\<lambda>(t, ok). (t, ok, e)) rs) = allowed_between a b rs"
  by (induction rs) (auto simp: admitted_def allowed_between_def)

section \<open>The contract\<close>

text \<open>
  A value may expire up to a millisecond early, the resolution of Redis. Of the effect of a
  \<open>Set\<close> with expiration 0 the contract says nothing: the stores differ in it. Nor does it say what
  a \<open>Set\<close> with a negative expiration leaves under its key (\<open>-1\<close> is go-redis's \<open>KeepTTL\<close>), but that
  the other keys are left alone.
\<close>

locale string_store =
  fixes st :: "'s store_ops"
    and lookup :: "'s \<Rightarrow> gotime \<Rightarrow> string \<Rightarrow> string"
    and alive :: "gotime \<Rightarrow> int64 \<Rightarrow> gotime \<Rightarrow> bool"
  assumes get_ok: "\<exists>n. st_get st k w = (Inr (lookup (w_store w) (now w) k), skip n w)"
    and set_ok: "\<exists>n s. st_set st k v d w = (None, put_store s (skip n w)) \<and>
      (\<forall>t j. j \<noteq> k \<longrightarrow> lookup s t j = lookup (w_store w) t j) \<and>
      (0 \<le> sint d \<longrightarrow> (\<forall>t. lookup s t k = (if alive (now w) d t then v else [])))"
    and delete_ok: "\<exists>n s. st_delete st k w = (None, put_store s (skip n w)) \<and>
      (\<forall>t j. lookup s t j = (if j = k then [] else lookup (w_store w) t j))"
    and alive_until: "steady c \<Longrightarrow> 0 \<le> sint d \<Longrightarrow> t_wall (c j) + 1000000 \<le> t_wall (c i) + sint d \<Longrightarrow>
      alive (c i) d (c j)"
begin

lemma get_cases:
  obtains n where "st_get st k w = (Inr (lookup (w_store w) (now w) k), skip n w)"
  using get_ok by blast

lemma set_cases:
  obtains n s where "st_set st k v d w = (None, put_store s (skip n w))"
    and "\<And>t. 0 \<le> sint d \<Longrightarrow> lookup s t k = (if alive (now w) d t then v else [])"
    and "\<And>t j. j \<noteq> k \<Longrightarrow> lookup s t j = lookup (w_store w) t j"
  using set_ok [of k v d w] by blast

lemma delete_cases:
  obtains n s where "st_delete st k w = (None, put_store s (skip n w))"
    and "\<And>t. lookup s t k = []"
    and "\<And>t j. j \<noteq> k \<Longrightarrow> lookup s t j = lookup (w_store w) t j"
proof -
  obtain n s where del: "st_delete st k w = (None, put_store s (skip n w))"
    and rd: "\<forall>t j. lookup s t j = (if j = k then [] else lookup (w_store w) t j)"
    using delete_ok by blast
  show ?thesis by (rule that [OF del]) (simp_all add: rd)
qed

lemma set_stored:
  assumes "st_set st k v d w = (None, w')" and "steady (w_clock w)" and "0 \<le> sint d"
  shows "stored lookup w' k v (t_wall (now w) + sint d - 1000000)"
proof -
  obtain n s where set: "st_set st k v d w = (None, put_store s (skip n w))"
    and rd: "\<And>t. lookup s t k = (if alive (now w) d t then v else [])"
    using set_ok [of k v d w] assms(3) by blast
  have w': "w' = put_store s (skip n w)" using assms(1) set by simp
  show ?thesis
    using alive_until [OF assms(2,3), of _ "w_reads w"]
    by (auto simp: stored_def w' rd now_def)
qed

lemma set_world:
  assumes "st_set st k v d w = (e, w')"
  shows "e = None" and "w_clock w' = w_clock w" and "w_reads w \<le> w_reads w'"
    and "j \<noteq> k \<Longrightarrow> lookup (w_store w') t j = lookup (w_store w) t j"
proof -
  obtain n s where "st_set st k v d w = (None, put_store s (skip n w))"
    and rd: "\<And>t j. j \<noteq> k \<Longrightarrow> lookup s t j = lookup (w_store w) t j"
    using set_ok [of k v d w] by blast
  then have "e = None" "w' = put_store s (skip n w)" using assms by auto
  then show "e = None" "w_clock w' = w_clock w" "w_reads w \<le> w_reads w'"
    "j \<noteq> k \<Longrightarrow> lookup (w_store w') t j = lookup (w_store w) t j"
    using rd by simp_all
qed

lemma get_world:
  assumes "st_get st k w = (r, w')"
  shows "r = Inr (lookup (w_store w) (now w) k)" and "w_clock w' = w_clock w"
    and "w_reads w \<le> w_reads w'" and "w_store w' = w_store w"
proof -
  obtain n where "st_get st k w = (Inr (lookup (w_store w) (now w) k), skip n w)"
    using get_ok by blast
  then have "r = Inr (lookup (w_store w) (now w) k)" "w' = skip n w" using assms by auto
  then show "r = Inr (lookup (w_store w) (now w) k)" "w_clock w' = w_clock w"
    "w_reads w \<le> w_reads w'" "w_store w' = w_store w" by simp_all
qed

lemma delete_world:
  assumes "st_delete st k w = (e, w')"
  shows "e = None" and "w_clock w' = w_clock w" and "w_reads w \<le> w_reads w'"
    and "lookup (w_store w') t j = (if j = k then [] else lookup (w_store w) t j)"
proof -
  obtain n s where "st_delete st k w = (None, put_store s (skip n w))"
    and rd: "\<forall>t j. lookup s t j = (if j = k then [] else lookup (w_store w) t j)"
    using delete_ok by blast
  then have "e = None" "w' = put_store s (skip n w)" using assms by auto
  then show "e = None" "w_clock w' = w_clock w" "w_reads w \<le> w_reads w'"
    "lookup (w_store w') t j = (if j = k then [] else lookup (w_store w) t j)"
    using rd by simp_all
qed

text \<open>One step of an operation, seen from another key \<open>j\<close>.\<close>

lemma undisturbed_get: "undisturbed lookup j w (snd (st_get st k w))"
  unfolding undisturbed_def by (metis get_world(2-4) prod.collapse)

lemma undisturbed_set: "j \<noteq> k \<Longrightarrow> undisturbed lookup j w (snd (st_set st k v d w))"
  unfolding undisturbed_def by (metis set_world(2-4) prod.collapse)

lemma undisturbed_delete: "j \<noteq> k \<Longrightarrow> undisturbed lookup j w (snd (st_delete st k w))"
  unfolding undisturbed_def by (metis delete_world(2-4) prod.collapse)

lemma quiet_get: "quiet lookup j (\<lambda>w. snd (st_get st k w))"
  unfolding quiet_def by (metis get_world(2-4) prod.collapse)

lemma quiet_set: "j \<noteq> k \<Longrightarrow> quiet lookup j (\<lambda>w. snd (st_set st k v d w))"
  unfolding quiet_def by (metis set_world(2-4) prod.collapse)

lemma quiet_delete: "j \<noteq> k \<Longrightarrow> quiet lookup j (\<lambda>w. snd (st_delete st k w))"
  unfolding quiet_def by (metis delete_world(2-4) prod.collapse)

end

end
