(* ===== verification/MemoryStore.thy ===== *)
theory MemoryStore
  imports Store "HOL-Library.AList"
begin

text \<open>
  The in-memory store, \<open>internal/storage/memory.go\<close>. Every method holds the store's mutex for
  its whole body, so each is one atomic step on the state: the two maps and the stop channel.
  The cleanup goroutine is modelled by its step \<open>ms_remove_expired_keys\<close>, which may run
  between any two calls, and by its select loop \<open>ms_cleanup\<close>.

  The lemmas show the contract \<open>string_store\<close> (a \<open>Get\<close> after \<open>Set\<close>, \<open>Delete\<close>), the counters
  of \<open>Increment\<close> and \<open>IncrementBy\<close>, the sorted sets against a reference specification, that
  cleanups during a run are invisible as long as no expired entry is written to without being replaced,
  and the well-formedness of sorted sets.
\<close>

record storage_value =
  sv_value :: string
  sv_expiration :: gotime

text \<open>
  The members of a sorted set are a Go map from member to score, kept as an association list
  with distinct keys (\<open>wf_store\<close>); the code never depends on their order.
\<close>

record sorted_set =
  zs_members :: "(string \<times> f64) list"
  zs_expiration :: gotime

record memory_store =
  ms_data :: "string \<Rightarrow> storage_value option"
  ms_sorted_sets :: "string \<Rightarrow> sorted_set option"
  ms_stopped :: bool

type_synonym ms_world = "memory_store world"

definition new_memory_store :: memory_store where
  "new_memory_store = \<lparr>ms_data = Map.empty, ms_sorted_sets = Map.empty, ms_stopped = False\<rparr>"

text \<open>\<open>!e.IsZero() && e.Before(now)\<close>, the test all readers and the cleanup make.\<close>

definition expired :: "gotime \<Rightarrow> gotime \<Rightarrow> bool" where
  "expired e t \<longleftrightarrow> \<not> is_zero_time e \<and> time_before e t"

definition ms_remove_expired_keys :: "ms_world \<Rightarrow> ms_world" where
  "ms_remove_expired_keys w =
     (let t = now w; m = w_store w in
      put_store (m\<lparr>
        ms_data := (\<lambda>k. case ms_data m k of
            Some v \<Rightarrow> if expired (sv_expiration v) t then None else Some v
          | None \<Rightarrow> None),
        ms_sorted_sets := (\<lambda>k. case ms_sorted_sets m k of
            Some z \<Rightarrow> if expired (zs_expiration z) t then None else Some z
          | None \<Rightarrow> None)\<rparr>) (tick w))"

text \<open>
  The goroutine's select loop, over the events it receives: a tick of the 100 ms ticker runs
  a cleanup, the closed stop channel ends the loop.
\<close>

datatype cleanup_event = Ticker | Stop

fun ms_cleanup :: "cleanup_event list \<Rightarrow> ms_world \<Rightarrow> ms_world" where
  "ms_cleanup [] w = w"
| "ms_cleanup (Ticker # es) w = ms_cleanup es (ms_remove_expired_keys w)"
| "ms_cleanup (Stop # es) w = w"

section \<open>Counters\<close>

text \<open>
  \<open>fmt.Sscanf(s, "%d", &n)\<close>: white space but no newline, an optional sign, digits; what follows
  is ignored; a number out of range is an error.
\<close>

definition scan_space :: "char \<Rightarrow> bool" where
  "scan_space c \<longleftrightarrow> c = CHR '' '' \<or> c = CHR 0x09 \<or> c = CHR 0x0B \<or> c = CHR 0x0C \<or> c = CHR 0x0D"

text \<open>The white space beyond ASCII, in UTF-8.\<close>

definition scan_space2 :: "string list" where
  "scan_space2 = [[CHR 0xC2, CHR 0x85], [CHR 0xC2, CHR 0xA0]]"

definition scan_space3 :: "string list" where
  "scan_space3 = [CHR 0xE1, CHR 0x9A, CHR 0x80] # [CHR 0xE2, CHR 0x80, CHR 0xA8] #
     [CHR 0xE2, CHR 0x80, CHR 0xA9] # [CHR 0xE2, CHR 0x80, CHR 0xAF] # [CHR 0xE2, CHR 0x81, CHR 0x9F] #
     [CHR 0xE3, CHR 0x80, CHR 0x80] #
     map (\<lambda>c. [CHR 0xE2, CHR 0x80, c]) [CHR 0x80, CHR 0x81, CHR 0x82, CHR 0x83, CHR 0x84, CHR 0x85,
       CHR 0x86, CHR 0x87, CHR 0x88, CHR 0x89, CHR 0x8A]"

fun skip_scan_space :: "string \<Rightarrow> string" where
  "skip_scan_space [] = []"
| "skip_scan_space (c # r) =
     (if scan_space c then skip_scan_space r
      else if take 2 (c # r) \<in> set scan_space2 then skip_scan_space (drop 1 r)
      else if take 3 (c # r) \<in> set scan_space3 then skip_scan_space (drop 2 r)
      else c # r)"

definition sscanf_d :: "string \<Rightarrow> int64 option" where
  "sscanf_d s =
     (let t = skip_scan_space s;
          (sg, r) = (case t of
              c # u \<Rightarrow> if c = CHR ''-'' \<or> c = CHR ''+'' then ([c], u) else ([], t)
            | [] \<Rightarrow> ([], []))
      in parse_int (sg @ fst (take_digits r)))"

definition ms_increment :: "string \<Rightarrow> int64 \<Rightarrow> ms_world \<Rightarrow> (go_error + int64) \<times> ms_world" where
  "ms_increment key expiration w =
     (let m = w_store w;
          newVal = (case ms_data m key of
              Some val \<Rightarrow> (case sscanf_d (sv_value val) of None \<Rightarrow> 1 | Some n \<Rightarrow> n + 1)
            | None \<Rightarrow> 1);
          v = \<lparr>sv_value = format_int newVal, sv_expiration = time_add (now w) expiration\<rparr>
      in (Inr newVal, put_store (m\<lparr>ms_data := (ms_data m)(key \<mapsto> v)\<rparr>) (tick w)))"

definition ms_increment_by :: "string \<Rightarrow> int64 \<Rightarrow> int64 \<Rightarrow> ms_world \<Rightarrow> (go_error + int64) \<times> ms_world" where
  "ms_increment_by key val expiration w =
     (let m = w_store w;
          currentVal = (case ms_data m key of
              Some v \<Rightarrow> (case sscanf_d (sv_value v) of None \<Rightarrow> 0 | Some n \<Rightarrow> n)
            | None \<Rightarrow> 0);
          newVal = currentVal + val;
          v = \<lparr>sv_value = format_int newVal, sv_expiration = time_add (now w) expiration\<rparr>
      in (Inr newVal, put_store (m\<lparr>ms_data := (ms_data m)(key \<mapsto> v)\<rparr>) (tick w)))"

section \<open>Strings\<close>

definition ms_get :: "string \<Rightarrow> ms_world \<Rightarrow> (go_error + string) \<times> ms_world" where
  "ms_get key w = (case ms_data (w_store w) key of
      None \<Rightarrow> (Inr [], w)
    | Some val \<Rightarrow>
        if is_zero_time (sv_expiration val) then (Inr (sv_value val), w)
        else if time_before (sv_expiration val) (now w) then (Inr [], tick w)
        else (Inr (sv_value val), tick w))"

definition ms_set :: "string \<Rightarrow> string \<Rightarrow> int64 \<Rightarrow> ms_world \<Rightarrow> go_error option \<times> ms_world" where
  "ms_set key val expiration w =
     (let m = w_store w;
          v = \<lparr>sv_value = val, sv_expiration = time_add (now w) expiration\<rparr>
      in (None, put_store (m\<lparr>ms_data := (ms_data m)(key \<mapsto> v)\<rparr>) (tick w)))"

definition ms_delete :: "string \<Rightarrow> ms_world \<Rightarrow> go_error option \<times> ms_world" where
  "ms_delete key w =
     (let m = w_store w
      in (None, put_store (m\<lparr>ms_data := (ms_data m)(key := None),
                             ms_sorted_sets := (ms_sorted_sets m)(key := None)\<rparr>) w))"

section \<open>Sorted sets\<close>

definition ms_zadd :: "string \<Rightarrow> f64 \<Rightarrow> string \<Rightarrow> int64 \<Rightarrow> ms_world \<Rightarrow> go_error option \<times> ms_world" where
  "ms_zadd key score member expiration w =
     (let m = w_store w;
          zset = (case ms_sorted_sets m key of
              Some z \<Rightarrow> z
            | None \<Rightarrow> \<lparr>zs_members = [], zs_expiration = zero_time\<rparr>);
          zset' = zset\<lparr>zs_members := AList.update member score (zs_members zset),
                       zs_expiration := time_add (now w) expiration\<rparr>
      in (None, put_store (m\<lparr>ms_sorted_sets := (ms_sorted_sets m)(key \<mapsto> zset')\<rparr>) (tick w)))"

definition in_score_range :: "f64 \<Rightarrow> f64 \<Rightarrow> f64 \<Rightarrow> bool" where
  "in_score_range lo hi score \<longleftrightarrow> f64_le lo score \<and> f64_le score hi"

definition ms_zrem_range_by_score ::
    "string \<Rightarrow> f64 \<Rightarrow> f64 \<Rightarrow> ms_world \<Rightarrow> go_error option \<times> ms_world" where
  "ms_zrem_range_by_score key lo hi w =
     (let m = w_store w in
      case ms_sorted_sets m key of
        None \<Rightarrow> (None, w)
      | Some zset \<Rightarrow>
          (let members = filter (\<lambda>p. \<not> in_score_range lo hi (snd p)) (zs_members zset)
           in (None, put_store (m\<lparr>ms_sorted_sets := (ms_sorted_sets m)(key :=
                 (if members = [] then None else Some (zset\<lparr>zs_members := members\<rparr>)))\<rparr>) w)))"

definition ms_zcount :: "string \<Rightarrow> f64 \<Rightarrow> f64 \<Rightarrow> ms_world \<Rightarrow> (go_error + int64) \<times> ms_world" where
  "ms_zcount key lo hi w = (case ms_sorted_sets (w_store w) key of
      None \<Rightarrow> (Inr 0, w)
    | Some zset \<Rightarrow>
        (let count = word_of_nat (length (filter (\<lambda>p. in_score_range lo hi (snd p)) (zs_members zset)))
         in if is_zero_time (zs_expiration zset) then (Inr count, w)
            else if time_before (zs_expiration zset) (now w) then (Inr 0, tick w)
            else (Inr count, tick w)))"

section \<open>Expiration, ping and close\<close>

text \<open>\<open>Expire\<close> reads the clock once for each of the two maps that holds the key.\<close>

definition ms_expire_data :: "string \<Rightarrow> int64 \<Rightarrow> ms_world \<Rightarrow> ms_world" where
  "ms_expire_data key expiration w = (case ms_data (w_store w) key of
      Some v \<Rightarrow> put_store ((w_store w)\<lparr>ms_data := (ms_data (w_store w))
          (key \<mapsto> v\<lparr>sv_expiration := time_add (now w) expiration\<rparr>)\<rparr>) (tick w)
    | None \<Rightarrow> w)"

definition ms_expire_set :: "string \<Rightarrow> int64 \<Rightarrow> ms_world \<Rightarrow> ms_world" where
  "ms_expire_set key expiration w = (case ms_sorted_sets (w_store w) key of
      Some z \<Rightarrow> put_store ((w_store w)\<lparr>ms_sorted_sets := (ms_sorted_sets (w_store w))
          (key \<mapsto> z\<lparr>zs_expiration := time_add (now w) expiration\<rparr>)\<rparr>) (tick w)
    | None \<Rightarrow> w)"

definition ms_expire :: "string \<Rightarrow> int64 \<Rightarrow> ms_world \<Rightarrow> go_error option \<times> ms_world" where
  "ms_expire key expiration w =
     (None, ms_expire_set key expiration (ms_expire_data key expiration w))"

definition ms_ping :: "ms_world \<Rightarrow> go_error option \<times> ms_world" where
  "ms_ping w = (None, w)"

text \<open>Closing the stop channel a second time panics.\<close>

definition ms_close :: "ms_world \<Rightarrow> go_error option outcome \<times> ms_world" where
  "ms_close w =
     (if ms_stopped (w_store w) then (Panics CloseOfClosedChannel, w)
      else (Returns None, put_store ((w_store w)\<lparr>ms_stopped := True\<rparr>) w))"

definition memory_ops :: "memory_store store_ops" where
  "memory_ops = \<lparr>st_increment = ms_increment, st_increment_by = ms_increment_by, st_get = ms_get,
     st_set = ms_set, st_delete = ms_delete, st_zadd = ms_zadd,
     st_zrem_range_by_score = ms_zrem_range_by_score, st_zcount = ms_zcount,
     st_expire = ms_expire, st_ping = ms_ping, st_close = ms_close\<rparr>"

lemma memory_ops_simps [simp]:
  "st_get memory_ops = ms_get" "st_set memory_ops = ms_set" "st_delete memory_ops = ms_delete"
  "st_ping memory_ops = ms_ping"
  by (simp_all add: memory_ops_def)

section \<open>The contract of the store\<close>

text \<open>What \<open>Get\<close> returns at time \<open>t\<close>, and how long a stored value lives.\<close>

definition ms_lookup :: "memory_store \<Rightarrow> gotime \<Rightarrow> string \<Rightarrow> string" where
  "ms_lookup m t k = (case ms_data m k of
      None \<Rightarrow> []
    | Some v \<Rightarrow> if expired (sv_expiration v) t then [] else sv_value v)"

definition ms_alive :: "gotime \<Rightarrow> int64 \<Rightarrow> gotime \<Rightarrow> bool" where
  "ms_alive t d u \<longleftrightarrow> \<not> expired (time_add t d) u"

lemma ms_get_lookup:
  "\<exists>n. n \<le> 1 \<and> ms_get k w = (Inr (ms_lookup (w_store w) (now w) k), skip n w)"
  by (cases "ms_data (w_store w) k")
    (auto simp: ms_get_def ms_lookup_def expired_def tick_skip intro: exI [of _ 0])

lemma ms_alive_until:
  assumes "steady c" and "0 \<le> sint d" and "t_wall (c j) + 1000000 \<le> t_wall (c i) + sint d"
  shows "ms_alive (c i) d (c j)"
  using assms by (simp add: ms_alive_def expired_def steady_before_add)

interpretation mem: string_store memory_ops ms_lookup ms_alive
proof unfold_locales
  fix k v w and d :: int64
  show "\<exists>n. st_get memory_ops k w = (Inr (ms_lookup (w_store w) (now w) k), skip n w)"
    using ms_get_lookup [of k w] by auto
  show "\<exists>n s. st_set memory_ops k v d w = (None, put_store s (skip n w)) \<and>
      (\<forall>t j. j \<noteq> k \<longrightarrow> ms_lookup s t j = ms_lookup (w_store w) t j) \<and>
      (0 \<le> sint d \<longrightarrow> (\<forall>t. ms_lookup s t k = (if ms_alive (now w) d t then v else [])))"
    by (auto simp: ms_set_def tick_skip Let_def ms_lookup_def ms_alive_def
        intro!: exI [of _ 1])
  show "\<exists>n s. st_delete memory_ops k w = (None, put_store s (skip n w)) \<and>
      (\<forall>t j. ms_lookup s t j = (if j = k then [] else ms_lookup (w_store w) t j))"
    by (auto simp: ms_delete_def ms_lookup_def Let_def intro!: exI [of _ 0])
qed (rule ms_alive_until)

lemma ms_get_fst: "fst (ms_get k w) = Inr (ms_lookup (w_store w) (now w) k)"
  using ms_get_lookup [of k w] by auto

lemma ms_alive_steady:
  "steady c \<Longrightarrow> ms_alive (c i) d (c j) \<longleftrightarrow> t_wall (c j) \<le> t_wall (c i) + sint d"
  by (auto simp: ms_alive_def expired_def steady_before_add steady_add_nonzero)

lemma expired_mono: "steady c \<Longrightarrow> i \<le> j \<Longrightarrow> expired e (c i) \<Longrightarrow> expired e (c j)"
  by (auto simp: expired_def intro: steady_before_mono)

section \<open>Properties\<close>

text \<open>
  Under a steady clock, a \<open>Get\<close> after a \<open>Set\<close> returns the stored value until its
  expiration has passed and the empty string afterwards, and the \<open>Set\<close> changes no other key.
\<close>

theorem ms_set_get:
  assumes "steady (w_clock w)" and "w' = skip n (snd (ms_set k v d w))"
  shows "fst (ms_get k w') = Inr (if t_wall (now w') \<le> t_wall (now w) + sint d then v else []) \<and>
    (\<forall>j. j \<noteq> k \<longrightarrow> fst (ms_get j w') = fst (ms_get j (skip (Suc n) w)))"
proof -
  have "ms_alive (now w) d (now w') \<longleftrightarrow> t_wall (now w') \<le> t_wall (now w) + sint d"
    using ms_alive_steady [OF assms(1)] by (simp add: assms(2) ms_set_def Let_def now_def)
  then show ?thesis
    by (auto simp: ms_get_fst assms(2) ms_set_def Let_def ms_lookup_def ms_alive_def)
qed

text \<open>A clock for the witnesses: reading \<open>i\<close> is \<open>i * step\<close> nanoseconds after \<open>start\<close>.\<close>

definition ramp_clock :: "int \<Rightarrow> int \<Rightarrow> nat \<Rightarrow> gotime" where
  "ramp_clock start step i = \<lparr>t_wall = start + int i * step, t_mono = Some (int i * step)\<rparr>"

lemma steady_ramp [simp]: "0 \<le> start \<Longrightarrow> 0 \<le> step \<Longrightarrow> steady (ramp_clock start step)"
  by (auto simp: steady_def ramp_clock_def intro!: exI [of _ start] mult_right_mono)

definition start_world :: "(nat \<Rightarrow> gotime) \<Rightarrow> ms_world" where
  "start_world c = \<lparr>w_store = new_memory_store, w_clock = c, w_reads = 0\<rparr>"

lemma start_world_simps [simp]:
  "w_store (start_world c) = new_memory_store" "w_clock (start_world c) = c" "w_reads (start_world c) = 0"
  by (simp_all add: start_world_def)

theorem ms_set_get_witness:
  "fst (ms_get ''k'' (skip 3 (snd (ms_set ''k'' ''v'' 1000 (start_world (ramp_clock 0 100)))))) = Inr ''v''"
proof -
  let ?w = "start_world (ramp_clock 0 100)"
  have "steady (w_clock ?w)" by simp
  from ms_set_get [OF this refl, of "''k''" 3 "''v''" 1000]
  show ?thesis by (simp add: ramp_clock_def now_def ms_set_def)
qed

definition ms_count :: "memory_store \<Rightarrow> gotime \<Rightarrow> string \<Rightarrow> f64 \<Rightarrow> f64 \<Rightarrow> int64" where
  "ms_count m t k lo hi = (case ms_sorted_sets m k of
      None \<Rightarrow> 0
    | Some z \<Rightarrow> if expired (zs_expiration z) t then 0
        else word_of_nat (length (filter (\<lambda>p. in_score_range lo hi (snd p)) (zs_members z))))"

lemma ms_zcount_fst: "fst (ms_zcount k lo hi w) = Inr (ms_count (w_store w) (now w) k lo hi)"
  by (auto simp: ms_zcount_def ms_count_def expired_def Let_def split: option.splits)

lemma remove_expired_invisible:
  assumes "steady (w_clock w)" and "w_reads w \<le> i"
  shows "ms_lookup (w_store (ms_remove_expired_keys w)) (w_clock w i) k = ms_lookup (w_store w) (w_clock w i) k"
    and "ms_count (w_store (ms_remove_expired_keys w)) (w_clock w i) k lo hi = ms_count (w_store w) (w_clock w i) k lo hi"
  using expired_mono [OF assms]
  by (auto simp: ms_remove_expired_keys_def Let_def ms_lookup_def ms_count_def now_def split: option.splits)

lemma ms_cleanup_clock [simp]: "w_clock (ms_cleanup es w) = w_clock w"
  by (induction es w rule: ms_cleanup.induct) (simp_all add: ms_remove_expired_keys_def Let_def)

lemma ms_cleanup_reads: "w_reads w \<le> w_reads (ms_cleanup es w)"
  by (induction es w rule: ms_cleanup.induct) (simp_all add: ms_remove_expired_keys_def Let_def)

text \<open>
  What \<open>Get\<close> and \<open>ZCount\<close> return directly after any events of the cleanup goroutine, closing the
  store included, is what they return without them (\<open>cleanups_invisible\<close> below is about runs).
\<close>

theorem ms_cleanup_invisible:
  assumes "steady (w_clock w)" and "w' = ms_cleanup es w"
  shows "fst (ms_get k w') = fst (ms_get k (w'\<lparr>w_store := w_store w\<rparr>)) \<and>
    fst (ms_zcount k lo hi w') = fst (ms_zcount k lo hi (w'\<lparr>w_store := w_store w\<rparr>))"
proof -
  have "ms_lookup (w_store (ms_cleanup es w)) (w_clock w i) k = ms_lookup (w_store w) (w_clock w i) k \<and>
    ms_count (w_store (ms_cleanup es w)) (w_clock w i) k lo hi = ms_count (w_store w) (w_clock w i) k lo hi"
    if "w_reads (ms_cleanup es w) \<le> i" "steady (w_clock w)" for i
    using that
  proof (induction es w rule: ms_cleanup.induct)
    case (2 es w)
    have c: "w_clock (ms_remove_expired_keys w) = w_clock w" and "w_reads w \<le> w_reads (ms_remove_expired_keys w)"
      by (simp_all add: ms_remove_expired_keys_def Let_def)
    with 2 ms_cleanup_reads [of "ms_remove_expired_keys w" es] have "w_reads w \<le> i" by simp
    with 2 c show ?case by (simp add: remove_expired_invisible)
  qed simp_all
  from this [of "w_reads w'"] assms show ?thesis
    by (simp add: ms_get_fst ms_zcount_fst now_def)
qed

theorem ms_cleanup_invisible_witness:
  "fst (ms_get ''k'' (ms_cleanup [Ticker, Stop] (snd (ms_set ''k'' ''v'' 1000 (start_world (ramp_clock 0 100)))))) = Inr ''v''"
proof -
  let ?w = "snd (ms_set ''k'' ''v'' 1000 (start_world (ramp_clock 0 100)))"
  have "steady (w_clock ?w)" by (simp add: ms_set_def Let_def)
  from ms_cleanup_invisible [OF this refl, of "''k''" "[Ticker, Stop]"]
  show ?thesis
    by (simp add: ramp_clock_def now_def ms_set_def Let_def ms_get_fst ms_lookup_def expired_def
        ms_remove_expired_keys_def is_zero_time_def time_add_def time_before_def in_i64_def)
qed

text \<open>Counters: the text an increment stores is read back by the next one.\<close>

lemma skip_scan_space_other:
  assumes "c = CHR ''-'' \<or> is_digit c"
  shows "skip_scan_space (c # r) = c # r"
proof -
  have "c \<noteq> CHR 0xC2" "c \<noteq> CHR 0xE1" "c \<noteq> CHR 0xE2" "c \<noteq> CHR 0xE3" "\<not> scan_space c"
    using assms by (auto simp: is_digit_def scan_space_def)
  then show ?thesis by (simp add: scan_space2_def scan_space3_def)
qed

lemma sscanf_d_format_int [simp]: "sscanf_d (format_int n) = Some n"
proof (cases "sint n < 0")
  case True
  then have f: "format_int n = CHR ''-'' # show_nat (- sint n)"
    by (simp add: format_int_def show_int_def)
  have "parse_int (CHR ''-'' # show_nat (- sint n)) = Some n"
    using parse_format_int [of n] by (simp add: f)
  then show ?thesis
    using True by (simp add: sscanf_d_def f skip_scan_space_other take_digits_def del: skip_scan_space.simps)
next
  case False
  then obtain c ds where s: "show_nat (sint n) = c # ds" "is_digit c" "list_all is_digit ds"
    using show_nat_Cons [of "sint n"] by (metis linorder_not_less)
  have f: "format_int n = c # ds" using False by (simp add: format_int_def show_int_def s)
  have "c \<noteq> CHR ''-''" "c \<noteq> CHR ''+''" using s(2) by auto
  moreover have "parse_int (c # ds) = Some n" using parse_format_int [of n] by (simp add: f)
  ultimately show ?thesis
    using s by (simp add: sscanf_d_def f skip_scan_space_other take_digits_def del: skip_scan_space.simps)
qed

fun ms_increments :: "nat \<Rightarrow> string \<Rightarrow> int64 \<Rightarrow> ms_world \<Rightarrow> ms_world" where
  "ms_increments 0 k d w = w"
| "ms_increments (Suc n) k d w = ms_increments n k d (snd (ms_increment k d w))"

lemma ms_increments_snoc:
  "ms_increments (Suc n) k d w = snd (ms_increment k d (ms_increments n k d w))"
  by (induction n arbitrary: w) simp_all

lemma ms_increment_data:
  "fst (ms_increment k d w) = Inr n \<Longrightarrow>
   ms_data (w_store (snd (ms_increment k d w))) k =
     Some \<lparr>sv_value = format_int n, sv_expiration = time_add (now w) d\<rparr>"
  by (auto simp: ms_increment_def Let_def)

lemma ms_increment_next:
  "ms_data (w_store w) k = Some \<lparr>sv_value = format_int n, sv_expiration = e\<rparr> \<Longrightarrow>
   fst (ms_increment k d w) = Inr (n + 1)"
  by (simp add: ms_increment_def Let_def)

text \<open>
  On a key the store does not hold, the \<open>n\<close>-th \<open>Increment\<close> returns \<open>n\<close> (modulo \<open>2 ^ 64\<close>),
  whatever the expiration given and however much time passes between the calls: an expired
  counter that the cleanup has not removed yet goes on counting.
\<close>

theorem ms_increments_count:
  assumes "ms_data (w_store w) k = None"
  shows "fst (ms_increment k d (ms_increments n k d w)) = Inr (word_of_nat (Suc n))"
proof (induction n)
  case 0
  show ?case using assms by (simp add: ms_increment_def Let_def)
next
  case (Suc n)
  have "fst (ms_increment k d (snd (ms_increment k d (ms_increments n k d w)))) =
      Inr (word_of_nat (Suc n) + 1)"
    by (rule ms_increment_next [OF ms_increment_data [OF Suc]])
  then show ?case
    by (simp add: add.commute ms_increments_snoc del: ms_increments.simps)
qed

theorem ms_increments_count_witness:
  "fst (ms_increment ''c'' 5 (ms_increments 2 ''c'' 5 (start_world (ramp_clock 0 100)))) = Inr 3"
proof -
  have "ms_data (w_store (start_world (ramp_clock 0 100))) ''c'' = None"
    by (simp add: new_memory_store_def)
  from ms_increments_count [OF this, of 5 2] show ?thesis by simp
qed

text \<open>
  \<open>Increment\<close> does not look at the expiration of the counter it finds: where a \<open>Get\<close>
  already reads nothing because the counter has expired, it still returns the successor of the
  expired value.
\<close>

theorem ms_increment_ignores_expiry:
  assumes "ms_data (w_store w) k = Some \<lparr>sv_value = format_int n, sv_expiration = e\<rparr>"
    and "expired e (now w)"
  shows "fst (ms_get k w) = Inr [] \<and> fst (ms_increment k d w) = Inr (n + 1)"
  using assms by (simp add: ms_get_fst ms_lookup_def ms_increment_next)

theorem ms_increment_ignores_expiry_witness:
  "fst (ms_get ''c'' (skip 9 (snd (ms_increment ''c'' 5 (start_world (ramp_clock 0 100)))))) = Inr [] \<and>
   fst (ms_increment ''c'' 5 (skip 9 (snd (ms_increment ''c'' 5 (start_world (ramp_clock 0 100)))))) = Inr 2"
proof -
  let ?w = "skip 9 (snd (ms_increment ''c'' 5 (start_world (ramp_clock 0 100))))"
  have "ms_data (w_store ?w) ''c'' =
      Some \<lparr>sv_value = format_int 1, sv_expiration = time_add (ramp_clock 0 100 0) 5\<rparr>"
    by (simp add: ms_increment_def Let_def new_memory_store_def now_def)
  moreover have "expired (time_add (ramp_clock 0 100 0) 5) (now ?w)"
    by (simp add: expired_def is_zero_time_def time_add_def time_before_def ramp_clock_def now_def
        ms_increment_def Let_def in_i64_def)
  ultimately show ?thesis
    using ms_increment_ignores_expiry [of ?w "''c''" 1 "time_add (ramp_clock 0 100 0) 5" 5] by simp
qed

section \<open>Sorted sets against their specification\<close>

text \<open>
  The specification of a sorted set is the map from members to scores. A stored set is never
  empty and has each member once.
\<close>

definition wf_set :: "sorted_set \<Rightarrow> bool" where
  "wf_set z \<longleftrightarrow> zs_members z \<noteq> [] \<and> distinct (map fst (zs_members z))"

definition wf_store :: "memory_store \<Rightarrow> bool" where
  "wf_store m \<longleftrightarrow> (\<forall>k. case ms_sorted_sets m k of Some z \<Rightarrow> wf_set z | None \<Rightarrow> True)"

definition scores :: "memory_store \<Rightarrow> string \<Rightarrow> string \<Rightarrow> f64 option" where
  "scores m k = (case ms_sorted_sets m k of Some z \<Rightarrow> map_of (zs_members z) | None \<Rightarrow> Map.empty)"

lemma wf_storeD: "wf_store m \<Longrightarrow> ms_sorted_sets m k = Some z \<Longrightarrow> wf_set z"
  by (metis wf_store_def option.simps(5))

lemma wf_new [simp]: "wf_store new_memory_store"
  by (simp add: wf_store_def new_memory_store_def)

lemma wf_store_update:
  "wf_store m \<Longrightarrow> (case x of Some z \<Rightarrow> wf_set z | None \<Rightarrow> True) \<Longrightarrow>
   wf_store (m\<lparr>ms_sorted_sets := (ms_sorted_sets m)(k := x)\<rparr>)"
  by (simp add: wf_store_def)

lemma wf_store_update_both:
  "wf_store m \<Longrightarrow> (case x of Some z \<Rightarrow> wf_set z | None \<Rightarrow> True) \<Longrightarrow>
   wf_store (m\<lparr>ms_data := f, ms_sorted_sets := (ms_sorted_sets m)(k := x)\<rparr>)"
  by (simp add: wf_store_def)

lemma wf_store_data [simp]: "wf_store (m\<lparr>ms_data := f\<rparr>) = wf_store m"
  by (simp add: wf_store_def)

lemma map_of_filter_snd:
  "distinct (map fst xs) \<Longrightarrow>
   map_of (filter (\<lambda>p. P (snd p)) xs) = (\<lambda>k. case map_of xs k of Some v \<Rightarrow> if P v then Some v else None | None \<Rightarrow> None)"
proof
  fix k
  assume d: "distinct (map fst xs)"
  then have e: "distinct (map fst (filter (\<lambda>p. P (snd p)) xs))" by (rule distinct_map_filter)
  show "map_of (filter (\<lambda>p. P (snd p)) xs) k =
      (case map_of xs k of Some v \<Rightarrow> if P v then Some v else None | None \<Rightarrow> None)"
  proof (cases "map_of xs k")
    case None
    then have "k \<notin> fst ` set (filter (\<lambda>p. P (snd p)) xs)" by (auto simp: map_of_eq_None_iff)
    then have "map_of (filter (\<lambda>p. P (snd p)) xs) k = None"
      by (rule map_of_eq_None_iff [THEN iffD2])
    then show ?thesis by (simp add: None)
  next
    case (Some v)
    then have v: "(k, v) \<in> set xs" by (rule map_of_SomeD)
    show ?thesis
    proof (cases "P v")
      case True
      with v e show ?thesis by (simp add: Some map_of_eq_Some_iff)
    next
      case False
      have "k \<notin> fst ` set (filter (\<lambda>p. P (snd p)) xs)"
        using False eq_key_imp_eq_value [OF d v] by force
      then have "map_of (filter (\<lambda>p. P (snd p)) xs) k = None"
        by (rule map_of_eq_None_iff [THEN iffD2])
      then show ?thesis using False by (simp add: Some)
    qed
  qed
qed

lemma length_filter_card:
  assumes "distinct (map fst xs)"
  shows "length (filter (\<lambda>p. P (snd p)) xs) = card {k. \<exists>v. map_of xs k = Some v \<and> P v}"
proof -
  let ?ys = "filter (\<lambda>p. P (snd p)) xs"
  have "distinct (map fst ?ys)" using assms by (rule distinct_map_filter)
  then have "length ?ys = card (fst ` set ?ys)" by (metis distinct_card length_map list.set_map)
  also have "fst ` set ?ys = {k. \<exists>v. map_of xs k = Some v \<and> P v}"
    by (auto simp: map_of_eq_Some_iff [OF assms] image_iff)
  finally show ?thesis .
qed

text \<open>
  C39: \<open>ZAdd\<close>, \<open>ZRemRangeByScore\<close> and \<open>ZCount\<close> implement their specification on maps from members
  to scores: an update, the removal of every member whose score is in the closed range, and the
  number of members whose score is in the range (0 once the set has expired).
\<close>

theorem sorted_set_refines:
  assumes "wf_store (w_store w)"
  shows "scores (w_store (snd (ms_zadd k sc m d w))) k = (scores (w_store w) k)(m \<mapsto> sc) \<and>
    scores (w_store (snd (ms_zrem_range_by_score k lo hi w))) k =
      (\<lambda>x. case scores (w_store w) k x of
          Some s \<Rightarrow> if in_score_range lo hi s then None else Some s | None \<Rightarrow> None) \<and>
    fst (ms_zcount k lo hi w) =
      Inr (if \<exists>z. ms_sorted_sets (w_store w) k = Some z \<and> expired (zs_expiration z) (now w) then 0
           else word_of_nat (card {x. \<exists>s. scores (w_store w) k x = Some s \<and> in_score_range lo hi s}))"
proof (cases "ms_sorted_sets (w_store w) k")
  case None
  then show ?thesis
    by (simp add: scores_def ms_zadd_def ms_zrem_range_by_score_def ms_zcount_def Let_def)
next
  case (Some z)
  have d: "distinct (map fst (zs_members z))"
    using wf_storeD [OF assms Some] by (simp add: wf_set_def)
  have spec: "scores (w_store w) k = map_of (zs_members z)" by (simp add: scores_def Some)
  have "scores (w_store (snd (ms_zadd k sc m d w))) k = (scores (w_store w) k)(m \<mapsto> sc)"
    by (simp add: scores_def ms_zadd_def Let_def Some update_conv')
  moreover have "scores (w_store (snd (ms_zrem_range_by_score k lo hi w))) k =
      map_of (filter (\<lambda>p. \<not> in_score_range lo hi (snd p)) (zs_members z))"
    by (simp add: scores_def ms_zrem_range_by_score_def Let_def Some)
  then have "scores (w_store (snd (ms_zrem_range_by_score k lo hi w))) k =
      (\<lambda>x. case scores (w_store w) k x of
          Some s \<Rightarrow> if in_score_range lo hi s then None else Some s | None \<Rightarrow> None)"
    by (simp add: map_of_filter_snd [OF d, of "\<lambda>s. \<not> in_score_range lo hi s"] spec
        fun_eq_iff split: option.splits)
  moreover have "fst (ms_zcount k lo hi w) = Inr (if expired (zs_expiration z) (now w) then 0
      else word_of_nat (card {x. \<exists>s. scores (w_store w) k x = Some s \<and> in_score_range lo hi s}))"
    by (simp add: ms_zcount_fst ms_count_def Some length_filter_card [OF d] spec)
  ultimately show ?thesis by (simp add: Some)
qed

theorem sorted_set_refines_witness:
  "fst (ms_zcount ''z'' (Zero False) (Num 5) (snd (ms_zadd ''z'' (Num 2) ''m'' 1000
     (start_world (ramp_clock 0 100))))) = Inr 1"
proof -
  let ?w = "snd (ms_zadd ''z'' (Num 2) ''m'' 1000 (start_world (ramp_clock 0 100)))"
  have "wf_store (w_store ?w)"
    by (simp add: wf_store_def wf_set_def ms_zadd_def Let_def new_memory_store_def)
  from sorted_set_refines [OF this, of "''z''" "Num 2" "''m''" 1000 "Zero False" "Num 5"]
  have "fst (ms_zcount ''z'' (Zero False) (Num 5) ?w) =
      Inr (word_of_nat (card {x. \<exists>s. [''m'' \<mapsto> Num 2] x = Some s \<and> in_score_range (Zero False) (Num 5) s}))"
    by (simp add: scores_def ms_zadd_def Let_def new_memory_store_def expired_def is_zero_time_def
        time_add_def time_before_def ramp_clock_def now_def in_i64_def)
  also have "{x. \<exists>s. [''m'' \<mapsto> Num 2] x = Some s \<and> in_score_range (Zero False) (Num 5) s} = {''m''}"
    by (auto simp: in_score_range_def split: if_splits)
  finally show ?thesis by simp
qed

text \<open>All calls of the store's methods and the cleanup's steps, in any order.\<close>

datatype ms_call =
    Increment string int64
  | IncrementBy string int64 int64
  | Get string
  | Set string string int64
  | Delete string
  | ZAdd string f64 string int64
  | ZRemRangeByScore string f64 f64
  | ZCount string f64 f64
  | Expire string int64
  | Ping
  | Close
  | Cleanup

fun ms_exec :: "ms_call \<Rightarrow> ms_world \<Rightarrow> ms_world" where
  "ms_exec (Increment k d) w = snd (ms_increment k d w)"
| "ms_exec (IncrementBy k v d) w = snd (ms_increment_by k v d w)"
| "ms_exec (Get k) w = snd (ms_get k w)"
| "ms_exec (Set k v d) w = snd (ms_set k v d w)"
| "ms_exec (Delete k) w = snd (ms_delete k w)"
| "ms_exec (ZAdd k s m d) w = snd (ms_zadd k s m d w)"
| "ms_exec (ZRemRangeByScore k lo hi) w = snd (ms_zrem_range_by_score k lo hi w)"
| "ms_exec (ZCount k lo hi) w = snd (ms_zcount k lo hi w)"
| "ms_exec (Expire k d) w = snd (ms_expire k d w)"
| "ms_exec Ping w = snd (ms_ping w)"
| "ms_exec Close w = snd (ms_close w)"
| "ms_exec Cleanup w = ms_remove_expired_keys w"

lemma AList_update_wf: "distinct (map fst xs) \<Longrightarrow> distinct (map fst (AList.update k v xs))"
  by (rule distinct_update)

lemma ms_get_store [simp]: "w_store (snd (ms_get k w)) = w_store w"
  and ms_zcount_store [simp]: "w_store (snd (ms_zcount k lo hi w)) = w_store w"
  by (simp_all add: ms_get_def ms_zcount_def Let_def split: option.splits)

lemma wf_zadd: "wf_store (w_store w) \<Longrightarrow> wf_store (w_store (snd (ms_zadd k s m d w)))"
  by (auto simp: ms_zadd_def Let_def wf_set_def distinct_update update_nonempty
      intro!: wf_store_update split: option.splits dest: wf_storeD)

lemma wf_zrem: "wf_store (w_store w) \<Longrightarrow> wf_store (w_store (snd (ms_zrem_range_by_score k lo hi w)))"
  by (auto simp: ms_zrem_range_by_score_def Let_def wf_set_def distinct_map_filter
      intro!: wf_store_update split: option.splits dest: wf_storeD)

lemma wf_expire: "wf_store (w_store w) \<Longrightarrow> wf_store (w_store (snd (ms_expire k d w)))"
  by (auto simp: ms_expire_def ms_expire_set_def ms_expire_data_def wf_set_def
      intro!: wf_store_update wf_store_update_both split: option.splits dest: wf_storeD)

lemma wf_exec: "wf_store (w_store w) \<Longrightarrow> wf_store (w_store (ms_exec c w))"
proof (cases c)
  case (Delete k)
  assume "wf_store (w_store w)"
  then show ?thesis by (simp add: Delete ms_delete_def Let_def wf_store_def)
next
  case Cleanup
  assume "wf_store (w_store w)"
  then show ?thesis
    by (auto simp: Cleanup ms_remove_expired_keys_def Let_def wf_store_def split: option.splits)
next
  case Close
  assume "wf_store (w_store w)"
  then show ?thesis by (simp add: Close ms_close_def wf_store_def)
qed (simp_all add: wf_zadd wf_zrem wf_expire ms_increment_def ms_increment_by_def ms_set_def ms_ping_def Let_def)

text \<open>
  C40: After any sequence of calls and cleanups on a new store, every stored sorted set has a
  member and holds each member once, so its size is the number of its members.
\<close>

theorem ms_runs_wf: "wf_store (w_store (fold ms_exec calls (start_world c)))"
proof -
  have "wf_store (w_store w) \<Longrightarrow> wf_store (w_store (fold ms_exec calls w))" for w
    by (induction calls arbitrary: w) (simp_all add: wf_exec)
  then show ?thesis by simp
qed

text \<open>
  The cleanup and the callers. In a run each call starts at a given reading of the clock, whatever
  the calls before it have read; the answers are those of the calls other than cleanups.
\<close>

datatype ms_answer = Text "go_error + string" | Number "go_error + int64" | Status "go_error option outcome"

fun ms_reply :: "ms_call \<Rightarrow> ms_world \<Rightarrow> ms_answer list" where
  "ms_reply (Increment k d) w = [Number (fst (ms_increment k d w))]"
| "ms_reply (IncrementBy k v d) w = [Number (fst (ms_increment_by k v d w))]"
| "ms_reply (Get k) w = [Text (fst (ms_get k w))]"
| "ms_reply (Set k v d) w = [Status (Returns (fst (ms_set k v d w)))]"
| "ms_reply (Delete k) w = [Status (Returns (fst (ms_delete k w)))]"
| "ms_reply (ZAdd k s m d) w = [Status (Returns (fst (ms_zadd k s m d w)))]"
| "ms_reply (ZRemRangeByScore k lo hi) w = [Status (Returns (fst (ms_zrem_range_by_score k lo hi w)))]"
| "ms_reply (ZCount k lo hi) w = [Number (fst (ms_zcount k lo hi w))]"
| "ms_reply (Expire k d) w = [Status (Returns (fst (ms_expire k d w)))]"
| "ms_reply Ping w = [Status (Returns (fst (ms_ping w)))]"
| "ms_reply Close w = [Status (fst (ms_close w))]"
| "ms_reply Cleanup w = []"

definition ms_at :: "(nat \<Rightarrow> gotime) \<Rightarrow> nat \<Rightarrow> memory_store \<Rightarrow> ms_world" where
  "ms_at c i m = \<lparr>w_store = m, w_clock = c, w_reads = i\<rparr>"

lemma ms_at_simps [simp]: "w_store (ms_at c i m) = m" "now (ms_at c i m) = c i"
  by (simp_all add: ms_at_def now_def)

fun ms_answers :: "(nat \<Rightarrow> gotime) \<Rightarrow> (nat \<times> ms_call) list \<Rightarrow> memory_store \<Rightarrow> ms_answer list" where
  "ms_answers c [] m = []"
| "ms_answers c ((i, call) # calls) m =
     ms_reply call (ms_at c i m) @ ms_answers c calls (w_store (ms_exec call (ms_at c i m)))"

text \<open>
  The methods that look at an entry without looking at its expiration; a call of one of them on an
  expired entry that is still there can tell whether the cleanup has run.
\<close>

definition data_expired :: "memory_store \<Rightarrow> string \<Rightarrow> gotime \<Rightarrow> bool" where
  "data_expired m k t \<longleftrightarrow> (case ms_data m k of None \<Rightarrow> False | Some v \<Rightarrow> expired (sv_expiration v) t)"

definition set_expired :: "memory_store \<Rightarrow> string \<Rightarrow> gotime \<Rightarrow> bool" where
  "set_expired m k t \<longleftrightarrow> (case ms_sorted_sets m k of None \<Rightarrow> False | Some z \<Rightarrow> expired (zs_expiration z) t)"

fun on_expired :: "ms_call \<Rightarrow> memory_store \<Rightarrow> gotime \<Rightarrow> bool" where
  "on_expired (Increment k d) m t \<longleftrightarrow> data_expired m k t"
| "on_expired (IncrementBy k v d) m t \<longleftrightarrow> data_expired m k t"
| "on_expired (ZAdd k s x d) m t \<longleftrightarrow> set_expired m k t"
| "on_expired (Expire k d) m t \<longleftrightarrow> data_expired m k t \<or> set_expired m k t"
| "on_expired call m t \<longleftrightarrow> False"

fun never_on_expired :: "(nat \<Rightarrow> gotime) \<Rightarrow> (nat \<times> ms_call) list \<Rightarrow> memory_store \<Rightarrow> bool" where
  "never_on_expired c [] m \<longleftrightarrow> True"
| "never_on_expired c ((i, call) # calls) m \<longleftrightarrow> \<not> on_expired call m (c i) \<and>
     never_on_expired c calls (w_store (ms_exec call (ms_at c i m)))"

text \<open>\<open>m'\<close> is \<open>m\<close> without some of the entries that have expired.\<close>

definition swept :: "gotime \<Rightarrow> memory_store \<Rightarrow> memory_store \<Rightarrow> bool" where
  "swept t m m' \<longleftrightarrow> ms_stopped m' = ms_stopped m \<and>
     (\<forall>k. ms_data m' k = ms_data m k \<or> ms_data m' k = None \<and> data_expired m k t) \<and>
     (\<forall>k. ms_sorted_sets m' k = ms_sorted_sets m k \<or> ms_sorted_sets m' k = None \<and> set_expired m k t)"

lemma swept_refl [simp]: "swept t m m"
  by (simp add: swept_def)

lemma swept_later:
  assumes "swept (c i) m m'" and "steady c" and "i \<le> j"
  shows "swept (c j) m m'"
proof -
  have "data_expired m k (c i) \<Longrightarrow> data_expired m k (c j)" and "set_expired m k (c i) \<Longrightarrow> set_expired m k (c j)" for k
    using expired_mono [OF assms(2,3)] by (auto simp: data_expired_def set_expired_def split: option.splits)
  with assms(1) show ?thesis by (auto simp: swept_def)
qed

lemma swept_cleanup: "swept (c i) m m' \<Longrightarrow> swept (c i) m (w_store (ms_exec Cleanup (ms_at c i m')))"
  by (auto simp: swept_def data_expired_def set_expired_def ms_remove_expired_keys_def Let_def split: option.splits)
    (metis option.distinct(1) option.inject)+

lemma swept_data: "swept t m m' \<Longrightarrow> \<not> data_expired m k t \<Longrightarrow> ms_data m' k = ms_data m k"
  and swept_sets: "swept t m m' \<Longrightarrow> \<not> set_expired m k t \<Longrightarrow> ms_sorted_sets m' k = ms_sorted_sets m k"
  and swept_stopped: "swept t m m' \<Longrightarrow> ms_stopped m' = ms_stopped m"
  by (auto simp: swept_def)

lemma swept_put_data:
  "swept t m m' \<Longrightarrow> swept t (m\<lparr>ms_data := (ms_data m)(k := x)\<rparr>) (m'\<lparr>ms_data := (ms_data m')(k := x)\<rparr>)"
  by (auto simp: swept_def data_expired_def set_expired_def)

lemma swept_put_set:
  "swept t m m' \<Longrightarrow> swept t (m\<lparr>ms_sorted_sets := (ms_sorted_sets m)(k := x)\<rparr>) (m'\<lparr>ms_sorted_sets := (ms_sorted_sets m')(k := x)\<rparr>)"
  by (auto simp: swept_def data_expired_def set_expired_def)

lemma swept_answer:
  assumes "swept (c i) m m'" and "\<not> on_expired call m (c i)"
  shows "ms_reply call (ms_at c i m') = ms_reply call (ms_at c i m)"
proof (cases call)
  case (Get k)
  then show ?thesis
    using assms(1) by (auto simp: ms_get_fst ms_lookup_def swept_def data_expired_def dest!: spec [of _ k] split: option.splits)
next
  case (ZCount k lo hi)
  then show ?thesis
    using assms(1) by (auto simp: ms_zcount_fst ms_count_def swept_def set_expired_def dest!: spec [of _ k] split: option.splits)
next
  case (ZRemRangeByScore k lo hi)
  then show ?thesis by (simp add: ms_zrem_range_by_score_def Let_def split: option.split)
qed (use assms swept_data [OF assms(1)] swept_stopped [OF assms(1)] in
  \<open>simp_all add: ms_increment_def ms_increment_by_def ms_set_def ms_delete_def ms_zadd_def ms_expire_def ms_ping_def ms_close_def Let_def\<close>)

lemma swept_exec:
  assumes "swept (c i) m m'" and "\<not> on_expired call m (c i)" and "call \<noteq> Cleanup"
  shows "swept (c i) (w_store (ms_exec call (ms_at c i m))) (w_store (ms_exec call (ms_at c i m')))"
proof (cases call)
  case (Delete k)
  then show ?thesis using assms(1) by (auto simp: swept_def ms_delete_def Let_def data_expired_def set_expired_def)
next
  case (ZRemRangeByScore k lo hi)
  show ?thesis
  proof (cases "ms_sorted_sets m' k = ms_sorted_sets m k")
    case True
    then show ?thesis
      using assms(1) swept_put_set [OF assms(1)]
      by (auto simp: ZRemRangeByScore ms_zrem_range_by_score_def Let_def split: option.split)
  next
    case False
    then have "ms_sorted_sets m' k = None" "set_expired m k (c i)" using assms(1) by (auto simp: swept_def)
    then show ?thesis
      using assms(1) by (auto simp: ZRemRangeByScore swept_def ms_zrem_range_by_score_def Let_def data_expired_def
          set_expired_def split: option.splits)
  qed
next
  case (Expire k d)
  let ?w = "ms_at c i"
  have eq: "ms_data m' k = ms_data m k" "ms_sorted_sets m' k = ms_sorted_sets m k"
    using assms(1,2) Expire swept_data swept_sets by auto
  have sw: "swept (c i) (w_store (ms_expire_data k d (?w m))) (w_store (ms_expire_data k d (?w m')))"
    and e: "now (ms_expire_data k d (?w m')) = now (ms_expire_data k d (?w m))"
    "ms_sorted_sets (w_store (ms_expire_data k d (?w n))) = ms_sorted_sets n" for n
    using assms(1) by (auto simp: ms_expire_data_def eq now_def ms_at_def intro: swept_put_data split: option.split)
  show ?thesis
    using sw swept_put_set [OF sw, of k] by (simp add: Expire ms_expire_def ms_expire_set_def eq e split: option.split)
qed (use assms swept_data [OF assms(1)] swept_sets [OF assms(1)] swept_put_data [OF assms(1)] swept_put_set [OF assms(1)]
     swept_stopped [OF assms(1)] in
  \<open>simp_all add: ms_increment_def ms_increment_by_def ms_set_def ms_zadd_def ms_ping_def ms_close_def Let_def swept_def
    data_expired_def set_expired_def\<close>)

lemma swept_answers:
  assumes "steady c" and "sorted (map fst calls)" and "swept (c i) m m'" and "\<forall>j \<in> set (map fst calls). i \<le> j"
    and "never_on_expired c (filter (\<lambda>(j, call). call \<noteq> Cleanup) calls) m"
  shows "ms_answers c calls m' = ms_answers c (filter (\<lambda>(j, call). call \<noteq> Cleanup) calls) m"
  using assms(2-)
proof (induction calls arbitrary: i m m')
  case (Cons x calls)
  obtain j call where x: "x = (j, call)" by fastforce
  have sw: "swept (c j) m m'" using swept_later [OF Cons.prems(2) assms(1)] Cons.prems(3) by (simp add: x)
  have rest: "sorted (map fst calls)" "\<forall>k \<in> set (map fst calls). j \<le> k" using Cons.prems(1) by (simp_all add: x)
  show ?case
  proof (cases "call = Cleanup")
    case True
    then show ?thesis
      using Cons.IH [OF rest(1) swept_cleanup [where c = c and i = j, OF sw] rest(2)] Cons.prems(4) by (simp add: x)
  next
    case False
    then show ?thesis
      using Cons.IH [OF rest(1) swept_exec [where c = c and i = j, OF sw _ False] rest(2)]
        swept_answer [where c = c and i = j, OF sw] Cons.prems(4) by (simp add: x)
  qed
qed simp

text \<open>
  C27: The cleanup goroutine is invisible: under a steady clock, however many cleanups run between the
  calls of a run, and whenever, every call (with the time at which it is made given) returns what it
  returns in the run without cleanups, if in that run no \<open>Increment\<close>, \<open>IncrementBy\<close>, \<open>ZAdd\<close> or \<open>Expire\<close> is
  called on an entry that has expired and not been replaced: these four do not look at the expiration.
\<close>

theorem cleanups_invisible:
  assumes "steady c" and "sorted (map fst calls)"
    and "never_on_expired c (filter (\<lambda>(i, call). call \<noteq> Cleanup) calls) m"
  shows "ms_answers c calls m = ms_answers c (filter (\<lambda>(i, call). call \<noteq> Cleanup) calls) m"
  by (rule swept_answers [OF assms(1,2) swept_refl _ assms(3), of 0]) simp

text \<open>A value that has expired, and a cleanup before it is read and set again.\<close>

definition demo_calls :: "(nat \<times> ms_call) list" where
  "demo_calls = [(0, Set ''k'' ''v'' 150), (1, Get ''k''), (1, Increment ''n'' 1000), (2, Cleanup), (3, Get ''k''),
     (4, Set ''k'' ''x'' 150), (5, Cleanup), (5, Get ''k''), (6, Increment ''n'' 1000)]"

theorem cleanups_invisible_witness:
  "ms_answers (ramp_clock 0 100) demo_calls new_memory_store =
    [Status (Returns None), Text (Inr ''v''), Number (Inr 1), Text (Inr []), Status (Returns None), Text (Inr ''x''), Number (Inr 2)]"
proof -
  let ?calls = "filter (\<lambda>(i, call). call \<noteq> Cleanup) demo_calls"
  note ev = demo_calls_def ms_increment_def ms_set_def ms_get_fst ms_lookup_def Let_def new_memory_store_def data_expired_def
    expired_def is_zero_time_def time_add_def time_before_def ramp_clock_def in_i64_def
  have "never_on_expired (ramp_clock 0 100) ?calls new_memory_store" by (simp add: ev)
  moreover have "sorted (map fst demo_calls)" by (simp add: demo_calls_def)
  ultimately have "ms_answers (ramp_clock 0 100) demo_calls new_memory_store = ms_answers (ramp_clock 0 100) ?calls new_memory_store"
    by (intro cleanups_invisible) simp_all
  also have "\<dots> = [Status (Returns None), Text (Inr ''v''), Number (Inr 1), Text (Inr []), Status (Returns None), Text (Inr ''x''), Number (Inr 2)]"
    by (simp add: ev)
  finally show ?thesis .
qed

end
