(* ===== verification/FixedWindow.thy ===== *)
theory FixedWindow
  imports MemoryStore
begin

text \<open>
  The fixed-window limiter, \<open>internal/limiter/fixed_window.go\<close>: the JSON state it keeps under
  one key of the store, \<open>Allow\<close>, \<open>Reset\<close> and \<open>Close\<close>.

  Its specification is the pure step \<open>window_step\<close> on a count and the end of the window, over
  unbounded integers. The refinement (\<open>fixed_window_refines\<close>) carries the bounds proved of the
  specification over to the code on a store, with other activity between the calls, where
  the expiration of the stored state is shown to make no difference.
\<close>

record 's fixed_window =
  fw_store :: "'s store_ops"
  fw_max_requests :: int64
  fw_window_duration :: int64

record fixed_window_state =
  fws_count :: int64
  fws_window_end :: int64

definition new_fixed_window :: "'s store_ops \<Rightarrow> int64 \<Rightarrow> int64 \<Rightarrow> 's fixed_window" where
  "new_fixed_window store maxRequests windowDuration =
     \<lparr>fw_store = store, fw_max_requests = maxRequests, fw_window_duration = windowDuration\<rparr>"

definition fw_state_key :: "string \<Rightarrow> string" where
  "fw_state_key key = ''limiter:fixed_window:'' @ key"

text \<open>The struct tags: how \<open>encoding/json\<close> reads and writes the state.\<close>

definition fw_decode :: "fixed_window_state decoder" where
  "fw_decode = decode_struct
     [(''count'', on_field fws_count (\<lambda>x s. s\<lparr>fws_count := x\<rparr>) decode_i64),
      (''window_end'', on_field fws_window_end (\<lambda>x s. s\<lparr>fws_window_end := x\<rparr>) decode_i64)]"

definition fw_json :: "fixed_window_state \<Rightarrow> json" where
  "fw_json s = JObj [(''count'', JNum (format_int (fws_count s))),
     (''window_end'', JNum (format_int (fws_window_end s)))]"

definition fw_marshal :: "fixed_window_state \<Rightarrow> json_error + string" where
  "fw_marshal s = Inr (json_print (fw_json s))"

text \<open>The state a call at time \<open>t\<close> works on, from the text it read.\<close>

definition fw_current :: "'s fixed_window \<Rightarrow> int64 \<Rightarrow> string \<Rightarrow> fixed_window_state" where
  "fw_current fw t stateStr =
     (let windowEnd = t + fw_window_duration fw in
      if stateStr \<noteq> [] then
        (let state = (case unmarshal fw_decode stateStr \<lparr>fws_count = 0, fws_window_end = 0\<rparr> of
               (s, None) \<Rightarrow> s
             | (s, Some err) \<Rightarrow> \<lparr>fws_count = 0, fws_window_end = windowEnd\<rparr>)
         in if fws_window_end state <=s t
            then state\<lparr>fws_count := 0, fws_window_end := t + fw_window_duration fw\<rparr>
            else state)
      else \<lparr>fws_count = 0, fws_window_end = windowEnd\<rparr>)"

text \<open>The expiration of the stored state: the rest of the window and a second.\<close>

definition fw_expiration :: "'s fixed_window \<Rightarrow> fixed_window_state \<Rightarrow> gotime \<Rightarrow> int64" where
  "fw_expiration fw state t =
     (let expiration = time_sub (time_unix 0 (fws_window_end state)) t + second
      in if expiration <s 0 then fw_window_duration fw + second else expiration)"

definition fw_allow ::
    "'s fixed_window \<Rightarrow> string \<Rightarrow> 's world \<Rightarrow> (bool \<times> go_error option) \<times> 's world" where
  "fw_allow fw key w =
     (let stateKey = fw_state_key key;
          t = unix_nano (now w)
      in case st_get (fw_store fw) stateKey (tick w) of
        (Inl err, w) \<Rightarrow> ((True, Some err), w)
      | (Inr stateStr, w) \<Rightarrow>
          (let state = fw_current fw t stateStr;
               allowed = fws_count state <s fw_max_requests fw;
               state = (if allowed then state\<lparr>fws_count := fws_count state + 1\<rparr> else state)
           in case fw_marshal state of
             Inl err \<Rightarrow> ((True, Some (ErrJson err)), w)
           | Inr stateJSON \<Rightarrow>
               (case st_set (fw_store fw) stateKey stateJSON (fw_expiration fw state (now w)) (tick w) of
                 (Some err, w) \<Rightarrow> ((True, Some err), w)
               | (None, w) \<Rightarrow> ((allowed, None), w))))"

text \<open>
  The two halves of \<open>Allow\<close>: up to the answer of \<open>Get\<close> with what is computed from it, and the
  \<open>Set\<close>. A call that nothing divides is one after the other.
\<close>

definition fw_read ::
    "'s fixed_window \<Rightarrow> string \<Rightarrow> 's world \<Rightarrow> (go_error + bool \<times> fixed_window_state) \<times> 's world" where
  "fw_read fw key w =
     (let stateKey = fw_state_key key;
          t = unix_nano (now w)
      in case st_get (fw_store fw) stateKey (tick w) of
        (Inl err, w) \<Rightarrow> (Inl err, w)
      | (Inr stateStr, w) \<Rightarrow>
          (let state = fw_current fw t stateStr;
               allowed = fws_count state <s fw_max_requests fw;
               state = (if allowed then state\<lparr>fws_count := fws_count state + 1\<rparr> else state)
           in (Inr (allowed, state), w)))"

definition fw_write ::
    "'s fixed_window \<Rightarrow> string \<Rightarrow> bool \<times> fixed_window_state \<Rightarrow> 's world \<Rightarrow> (bool \<times> go_error option) \<times> 's world" where
  "fw_write fw key p w = (case p of (allowed, state) \<Rightarrow>
     (case fw_marshal state of
        Inl err \<Rightarrow> ((True, Some (ErrJson err)), w)
      | Inr stateJSON \<Rightarrow>
          (case st_set (fw_store fw) (fw_state_key key) stateJSON (fw_expiration fw state (now w)) (tick w) of
            (Some err, w) \<Rightarrow> ((True, Some err), w)
          | (None, w) \<Rightarrow> ((allowed, None), w))))"

lemma fw_allow_steps:
  "fw_allow fw key w = (case fw_read fw key w of
      (Inl err, w) \<Rightarrow> ((True, Some err), w)
    | (Inr p, w) \<Rightarrow> fw_write fw key p w)"
proof -
  obtain x w1 where "st_get (fw_store fw) (fw_state_key key) (tick w) = (x, w1)" by fastforce
  then show ?thesis
    by (cases x) (simp_all add: fw_allow_def fw_read_def fw_write_def Let_def)
qed

definition fw_reset :: "'s fixed_window \<Rightarrow> string \<Rightarrow> 's world \<Rightarrow> go_error option \<times> 's world" where
  "fw_reset fw key w = (case st_delete (fw_store fw) (fw_state_key key) w of
      (Some err, w) \<Rightarrow> (Some (ErrWrap ''reset fixed window state'' err), w)
    | (None, w) \<Rightarrow> (None, w))"

definition fw_close :: "'s fixed_window \<Rightarrow> 's world \<Rightarrow> go_error option \<times> 's world" where
  "fw_close fw w = (None, w)"

lemma new_fixed_window_simps [simp]:
  "fw_store (new_fixed_window st m d) = st" "fw_max_requests (new_fixed_window st m d) = m"
  "fw_window_duration (new_fixed_window st m d) = d"
  by (simp_all add: new_fixed_window_def)

section \<open>The state's text\<close>

lemma fw_json_ok: "json_ok 0 (fw_json s)"
  by (simp add: fw_json_def max_depth_def plain_def)

lemma fw_unmarshal [simp]: "unmarshal fw_decode (json_print (fw_json s)) z = (s, None)"
  by (rule unmarshal_print [OF fw_json_ok])
    (simp add: fw_decode_def fw_json_def find_field_def on_field_def)

lemma fw_text_not_Nil [simp]: "json_print (fw_json s) \<noteq> []"
  by (simp only: fw_json_def json_print_Obj_not_Nil not_False_eq_True)

section \<open>The specification\<close>

text \<open>
  One request at time \<open>t\<close>, against the number of requests counted and the end of the window;
  \<open>(0, 0)\<close> is the state of a key never seen.
\<close>

definition window_step :: "int \<Rightarrow> int \<Rightarrow> int \<Rightarrow> int \<times> int \<Rightarrow> bool \<times> int \<times> int" where
  "window_step m d t s =
     (let (c, e) = (if snd s \<le> t then (0, t + d) else s)
      in if c < m then (True, c + 1, e) else (False, c, e))"

abbreviation window_run :: "int \<Rightarrow> int \<Rightarrow> int \<times> int \<Rightarrow> int list \<Rightarrow> (int \<times> bool) list" where
  "window_run m d \<equiv> spec_seq (window_step m d)"

lemma window_step_new [simp]:
  "snd s \<le> t \<Longrightarrow> window_step m d t s = (if 0 < m then (True, 1, t + d) else (False, 0, t + d))"
  and window_step_open [simp]:
  "\<not> snd s \<le> t \<Longrightarrow> window_step m d t s = (if fst s < m then (True, fst s + 1, snd s) else (False, s))"
  by (simp_all add: window_step_def split_beta)

text \<open>Within the window that is open, at most the rest of the quota is allowed.\<close>

lemma window_run_open:
  assumes "sorted ts" and "b \<le> snd s" and "fst s \<le> m"
  shows "int (allowed_between a b (window_run m d s ts)) \<le> m - fst s"
  using assms
proof (induction ts arbitrary: s)
  case (Cons t ts)
  show ?case
  proof (cases "snd s \<le> t")
    case True
    with Cons.prems have "\<forall>u \<in> set (map fst (window_run m d s (t # ts))). b \<le> u"
      by (auto simp: spec_seq_times simp del: spec_seq.simps)
    then have "allowed_between a b (window_run m d s (t # ts)) = 0" by (rule allowed_between_late)
    with Cons.prems show ?thesis by (simp del: spec_seq.simps)
  next
    case False
    with Cons.prems Cons.IH [of "(fst s + 1, snd s)"] Cons.IH [of s] show ?thesis
      by auto
  qed
qed simp

lemma window_run_from:
  assumes "sorted ts" and "\<forall>t \<in> set ts. a \<le> t" and "0 \<le> m" and "fst s \<le> m"
  shows "int (allowed_between a (a + d) (window_run m d s ts)) \<le> 2 * m - fst s"
  using assms
proof (induction ts arbitrary: s)
  case (Cons t ts)
  show ?case
  proof (cases "snd s \<le> t")
    case True
    with Cons.prems window_run_open [of ts "a + d" "(1, t + d)" m a d]
      window_run_open [of ts "a + d" "(0, t + d)" m a d] show ?thesis
      by auto
  next
    case False
    with Cons.prems Cons.IH [of "(fst s + 1, snd s)"] Cons.IH [of s] show ?thesis
      by auto
  qed
qed simp

text \<open>The first request of a window is at its start, so no interval of its length has two full quotas.\<close>

lemma window_run_bound:
  assumes "sorted ts" and "1 \<le> m" and "0 \<le> fst s" and "fst s \<le> m"
    and "1 \<le> fst s \<or> (\<forall>t \<in> set ts. snd s \<le> t)"
  shows "int (allowed_between a (a + d) (window_run m d s ts)) \<le> 2 * m - 1"
  using assms
proof (induction ts arbitrary: s)
  case (Cons t ts)
  show ?case
  proof (cases "a \<le> t")
    case True
    then have late: "\<forall>u \<in> set (t # ts). a \<le> u" using Cons.prems by fastforce
    show ?thesis
    proof (cases "snd s \<le> t")
      case True
      with late Cons.prems window_run_open [of ts "a + d" "(1, t + d)" m a d] show ?thesis by auto
    next
      case False
      with late Cons.prems window_run_from [of "t # ts" a m s d] show ?thesis
        by (auto simp del: spec_seq.simps)
    qed
  next
    case False
    have "fst (snd (window_step m d t s)) \<le> m" "1 \<le> fst (snd (window_step m d t s))"
      using Cons.prems by (cases "snd s \<le> t"; auto)+
    with False Cons.prems Cons.IH [of "snd (window_step m d t s)"] show ?thesis by simp
  qed
qed simp

text \<open>As long as the window stays open, exactly the rest of the quota is allowed, first come first served.\<close>

lemma window_run_exact_open:
  assumes "\<forall>t \<in> set ts. t < e" and "0 \<le> c" and "c \<le> m"
  shows "map snd (window_run m d (c, e) ts) = map (\<lambda>i. c + int i < m) [0..<length ts]"
  using assms
proof (induction ts arbitrary: c)
  case (Cons t ts)
  have shift: "map (\<lambda>i. c + int i < m) [0..<Suc n] = (c < m) # map (\<lambda>i. c + 1 + int i < m) [0..<n]" for n
    by (simp add: upt_conv_Cons map_Suc_upt [symmetric] o_def algebra_simps del: upt_Suc)
  show ?case
  proof (cases "c < m")
    case True
    with Cons show ?thesis by (simp add: shift del: upt_Suc)
  next
    case False
    with Cons.prems Cons.IH [of c] show ?thesis
      by (simp add: map_replicate_const del: upt_Suc)
  qed
qed simp

section \<open>The code implements the specification\<close>

text \<open>The stored state stands for a pair of the specification.\<close>

definition fw_state :: "int \<times> int \<Rightarrow> fixed_window_state" where
  "fw_state s = \<lparr>fws_count = word_of_int (fst s), fws_window_end = word_of_int (snd s)\<rparr>"

text \<open>
  The range in which the code's arithmetic does not wrap: the sum of the window and any
  reading of the clock is a time before 2262, and the limit and the window are not negative.
  The readings of the clock a call makes are at most 999 ms apart: the call is not stopped
  for longer between its own reading and the store's (longer waits between calls are
  activity in between).
\<close>

definition in_range :: "(nat \<Rightarrow> gotime) \<Rightarrow> int64 \<Rightarrow> int64 \<Rightarrow> bool" where
  "in_range c m d \<longleftrightarrow> steady c \<and> 0 \<le> sint m \<and> 0 \<le> sint d \<and>
     (\<forall>i. t_wall (c i) + sint d + 1000000000 < 2 ^ 63) \<and>
     (\<forall>i. t_wall (c (Suc i)) \<le> t_wall (c i) + 999000000)"

lemma in_rangeD:
  assumes "in_range c m d"
  shows "steady c" and "0 \<le> sint m" and "0 \<le> sint d"
    and "\<And>i. 0 \<le> t_wall (c i)" and "\<And>i. t_wall (c i) + sint d + 1000000000 < 9223372036854775808"
    and "\<And>i. t_wall (c (Suc i)) \<le> t_wall (c i) + 999000000"
  using assms steady_nonneg [of c] by (auto simp: in_range_def)

lemma in_range_nano:
  "in_range c m d \<Longrightarrow> sint (unix_nano (c i)) = t_wall (c i)"
  using in_rangeD(3) in_rangeD(4,5) [of c m d i] by (force simp: sint_unix_nano in_i64_def)

lemma unix_nano_add: "unix_nano t + d = word_of_int (t_wall t + sint d)"
  by (simp add: unix_nano_def wi_hom_syms)

lemma in_range_le:
  assumes "in_range c m d" and "0 \<le> e" and "e \<le> t_wall (c j) + sint d"
  shows "word_of_int e <=s unix_nano (c i) \<longleftrightarrow> e \<le> t_wall (c i)"
  using assms in_rangeD(5) [OF assms(1), of j]
  by (simp add: sle_i64 in_range_nano [OF assms(1)] sint_of_int_i64 in_i64_def)

definition fw_inv :: "int \<Rightarrow> int \<Rightarrow> int \<Rightarrow> int \<times> int \<Rightarrow> bool" where
  "fw_inv m d t s \<longleftrightarrow> 0 \<le> fst s \<and> fst s \<le> m \<and> 0 \<le> snd s \<and> snd s \<le> t + d"

lemma fw_current_state:
  assumes "in_range (w_clock w) m d" and "fw_inv (sint m) (sint d) (t_wall (now w)) s"
    and "str = json_print (fw_json (fw_state s)) \<or> (str = [] \<and> snd s \<le> t_wall (now w))"
  shows "fw_current (new_fixed_window st m d) (unix_nano (now w)) str =
    fw_state (if snd s \<le> t_wall (now w) then (0, t_wall (now w) + sint d) else s)"
proof -
  have "word_of_int (snd s) <=s unix_nano (now w) \<longleftrightarrow> snd s \<le> t_wall (now w)"
    using assms(2) unfolding now_def
    by (intro in_range_le [OF assms(1), of _ "w_reads w"]) (simp_all add: fw_inv_def now_def)
  with assms(3) show ?thesis
    by (auto simp: fw_current_def Let_def fw_state_def now_def unix_nano_add)
qed

definition fw_next :: "int64 \<Rightarrow> fixed_window_state \<Rightarrow> bool \<times> fixed_window_state" where
  "fw_next m s = (if fws_count s <s m then (True, s\<lparr>fws_count := fws_count s + 1\<rparr>) else (False, s))"

lemma fw_next_state:
  assumes "0 \<le> fst s" and "fst s \<le> sint m"
  shows "fw_next m (fw_state s) =
    (if fst s < sint m then (True, fw_state (fst s + 1, snd s)) else (False, fw_state s))"
proof -
  have "(word_of_int (fst s) :: int64) <s m \<longleftrightarrow> fst s < sint m"
    using assms sint_upper [of m] by (simp add: sless_i64 sint_of_int_i64 in_i64_def)
  then show ?thesis by (simp add: fw_next_def fw_state_def wi_hom_syms)
qed

lemma fw_step_spec:
  assumes "in_range (w_clock w) m d" and "fw_inv (sint m) (sint d) (t_wall (now w)) s"
    and "str = json_print (fw_json (fw_state s)) \<or> (str = [] \<and> snd s \<le> t_wall (now w))"
  shows "fw_next m (fw_current (new_fixed_window st m d) (unix_nano (now w)) str) =
    (case window_step (sint m) (sint d) (t_wall (now w)) s of (ok, s') \<Rightarrow> (ok, fw_state s'))"
  unfolding fw_current_state [OF assms] using assms(2) in_rangeD(2) [OF assms(1)]
  by (cases "snd s \<le> t_wall (now w)") (simp_all add: fw_next_state fw_inv_def)

lemma window_step_inv:
  assumes "fw_inv m d t s" and "0 \<le> m" and "0 \<le> d" and "0 \<le> t" and "t \<le> t'"
  shows "fw_inv m d t' (snd (window_step m d t s))"
  using assms by (cases "snd s \<le> t") (auto simp: fw_inv_def)

lemma fw_expiration_ok:
  assumes "in_range c m d" and "0 \<le> e" and "e \<le> t_wall (c j) + sint d"
  shows "0 \<le> sint (fw_expiration (new_fixed_window st m d) \<lparr>fws_count = n, fws_window_end = word_of_int e\<rparr> (c i))"
    and "j \<le> i \<Longrightarrow> e + 1000000000 \<le> t_wall (c i) +
      sint (fw_expiration (new_fixed_window st m d) \<lparr>fws_count = n, fws_window_end = word_of_int e\<rparr> (c i))"
proof -
  note r = in_rangeD [OF assms(1)]
  have e: "sint (word_of_int e :: int64) = e"
    using assms(2,3) r(5) [of j] by (simp add: sint_of_int_i64 in_i64_def)
  have "time_sub (time_unix 0 (word_of_int e)) (c i) = saturate (e - t_wall (c i))"
    by (simp add: time_sub_def time_unix_def e)
  moreover have "sint (saturate (e - t_wall (c i))) = e - t_wall (c i)"
    using assms(2,3) r(4,5) [of i] r(4,5) [of j] r(3) by (simp add: sint_saturate)
  ultimately have rest: "sint (time_sub (time_unix 0 (word_of_int e)) (c i) + second) = e - t_wall (c i) + 1000000000"
    using assms(2,3) r(4,5) [of i] r(4,5) [of j] r(3) by (simp add: sint_add_i64 in_i64_def)
  have whole: "sint (d + second) = sint d + 1000000000"
    using r(3) r(4,5) [of i] by (simp add: sint_add_i64 in_i64_def)
  show "0 \<le> sint (fw_expiration (new_fixed_window st m d) \<lparr>fws_count = n, fws_window_end = word_of_int e\<rparr> (c i))"
    using r(3) by (simp add: fw_expiration_def Let_def sless_i64 rest whole)
  assume "j \<le> i"
  then have "t_wall (c j) \<le> t_wall (c i)" using r(1) by (simp add: steady_mono)
  then show "e + 1000000000 \<le> t_wall (c i) +
      sint (fw_expiration (new_fixed_window st m d) \<lparr>fws_count = n, fws_window_end = word_of_int e\<rparr> (c i))"
    using assms(3) by (simp add: fw_expiration_def Let_def sless_i64 rest whole)
qed

text \<open>
  The relation between the world and the specification: the key holds the text of the state,
  until 999 ms after the end of its window at least, or nothing if it was never used.
\<close>

definition fw_rel ::
    "('s \<Rightarrow> gotime \<Rightarrow> string \<Rightarrow> string) \<Rightarrow> int64 \<Rightarrow> int64 \<Rightarrow> string \<Rightarrow> 's world \<Rightarrow> int \<times> int \<Rightarrow> bool" where
  "fw_rel lookup m d key w s \<longleftrightarrow> in_range (w_clock w) m d \<and> fw_inv (sint m) (sint d) (t_wall (now w)) s \<and>
     (tracks lookup w (fw_state_key key) (json_print (fw_json (fw_state s))) (snd s + 999000000) \<or>
      s = (0, 0) \<and> tracks lookup w (fw_state_key key) [] 0)"

lemma fw_rel_quiet:
  assumes "quiet lookup (fw_state_key key) g" and "fw_rel lookup m d key w s"
  shows "fw_rel lookup m d key (g w) s"
proof -
  have c: "steady (w_clock w)" using assms(2) in_rangeD(1) by (auto simp: fw_rel_def)
  have g: "w_clock (g w) = w_clock w" "w_reads w \<le> w_reads (g w)" using quiet_world [OF assms(1) c] by auto
  then have "t_wall (now w) \<le> t_wall (now (g w))" using c by (simp add: now_def steady_mono)
  with assms(2) show ?thesis
    by (auto simp: fw_rel_def g fw_inv_def intro: quiet_tracks [OF assms(1) c])
qed

lemma fw_rel_text:
  assumes "fw_rel lookup m d key w s" and "str = lookup (w_store w) (now (tick w)) (fw_state_key key)"
  shows "str = json_print (fw_json (fw_state s)) \<or> (str = [] \<and> snd s \<le> t_wall (now w))"
proof -
  have "t_wall (now (tick w)) \<le> t_wall (now w) + 999000000" "0 \<le> t_wall (now w)"
    using assms(1) in_rangeD(4,6) [of "w_clock w" m d] by (auto simp: fw_rel_def now_def tick_def)
  with assms show ?thesis
    using tracks_now [of lookup "tick w" "fw_state_key key"] tracks_skip [of lookup w _ _ _ 1]
    by (fastforce simp: fw_rel_def tick_skip)
qed

text \<open>A call between its halves: the new state, computed from a reading of the clock that has passed.\<close>

definition fw_due :: "int64 \<Rightarrow> int64 \<Rightarrow> 's world \<Rightarrow> int \<times> int \<Rightarrow> bool" where
  "fw_due m d w s \<longleftrightarrow> in_range (w_clock w) m d \<and>
     (\<exists>j \<le> w_reads w. fw_inv (sint m) (sint d) (t_wall (w_clock w j)) s)"

lemma fw_due_later:
  "fw_due m d w s \<Longrightarrow> w_clock w' = w_clock w \<Longrightarrow> w_reads w \<le> w_reads w' \<Longrightarrow> fw_due m d w' s"
  unfolding fw_due_def by (metis order_trans)

context string_store
begin

lemma fw_read_step:
  assumes rel: "fw_rel lookup m d key w s"
  obtains w1 where "fw_read (new_fixed_window st m d) key w = (Inr (fst (window_step (sint m) (sint d) (t_wall (now w)) s),
      fw_state (snd (window_step (sint m) (sint d) (t_wall (now w)) s))), w1)"
    and "fw_due m d w1 (snd (window_step (sint m) (sint d) (t_wall (now w)) s))"
    and "w_clock w1 = w_clock w" and "w_reads w \<le> w_reads w1"
proof -
  let ?fw = "new_fixed_window st m d" and ?t = "t_wall (now w)"
  have rng: "in_range (w_clock w) m d" and inv: "fw_inv (sint m) (sint d) ?t s"
    using rel by (simp_all add: fw_rel_def)
  note r = in_rangeD [OF rng]
  obtain str w1 where get: "st_get st (fw_state_key key) (tick w) = (Inr str, w1)"
    and str: "str = lookup (w_store (tick w)) (now (tick w)) (fw_state_key key)"
    using get_cases [of "fw_state_key key" "tick w"] by metis
  have w1: "w_clock w1 = w_clock w" "w_reads w \<le> w_reads w1" using get_world [OF get] by simp_all
  obtain ok s' where step: "window_step (sint m) (sint d) ?t s = (ok, s')" by (meson surj_pair)
  have "fw_next m (fw_current ?fw (unix_nano (now w)) str) = (ok, fw_state s')"
    using fw_step_spec [OF rng inv fw_rel_text [OF rel]] str by (simp add: step)
  then have "fw_read ?fw key w = (Inr (ok, fw_state s'), w1)"
    using get by (auto simp: fw_read_def Let_def fw_next_def split: if_splits)
  moreover have "fw_inv (sint m) (sint d) ?t s'"
    using window_step_inv [OF inv r(2,3)] r(4) step by (metis now_def order_refl snd_conv)
  then have "fw_due m d w1 s'" using rng w1 by (auto simp: fw_due_def now_def)
  ultimately show thesis using that w1 by (simp add: step)
qed

lemma fw_write_step:
  assumes due: "fw_due m d w s"
  obtains w' where "fw_write (new_fixed_window st m d) key (ok, fw_state s) w = ((ok, None), w')"
    and "fw_rel lookup m d key w' s" and "w_clock w' = w_clock w" and "w_reads w \<le> w_reads w'"
proof -
  let ?fw = "new_fixed_window st m d" and ?k = "fw_state_key key" and ?txt = "json_print (fw_json (fw_state s))"
  obtain j where rng: "in_range (w_clock w) m d" and j: "j \<le> w_reads w"
    and inv: "fw_inv (sint m) (sint d) (t_wall (w_clock w j)) s"
    using due by (auto simp: fw_due_def)
  note r = in_rangeD [OF rng]
  let ?e = "fw_expiration ?fw (fw_state s) (now w)"
  have e: "0 \<le> sint ?e" "snd s + 1000000000 \<le> t_wall (now w) + sint ?e"
    using fw_expiration_ok [OF rng, where e = "snd s" and j = j and i = "w_reads w"
        and st = st and n = "word_of_int (fst s)"] inv j
    by (simp_all add: fw_inv_def now_def fw_state_def)
  obtain w' where set: "st_set st ?k ?txt ?e (tick w) = (None, w')" using set_ok by blast
  have w': "w_clock w' = w_clock w" "Suc (w_reads w) \<le> w_reads w'" using set_world(2,3) [OF set] by simp_all
  have "stored lookup w' ?k ?txt (t_wall (now (tick w)) + sint ?e - 1000000)"
    using set_stored [OF set] e r(1) by simp
  then have "tracks lookup w' ?k ?txt (snd s + 999000000)"
    using e(2) steady_mono [OF r(1), of "w_reads w" "Suc (w_reads w)"] by (auto simp: now_def elim: stored_tracks)
  moreover have "t_wall (w_clock w j) \<le> t_wall (now w')" using w' j r(1) by (simp add: now_def steady_mono)
  then have "fw_inv (sint m) (sint d) (t_wall (now w')) s" using inv by (simp add: fw_inv_def)
  ultimately have "fw_rel lookup m d key w' s" by (simp add: fw_rel_def w' rng)
  moreover have "fw_write ?fw key (ok, fw_state s) w = ((ok, None), w')"
    using set by (simp add: fw_write_def fw_marshal_def)
  ultimately show thesis using that w' by simp
qed

lemma fw_allow_step:
  assumes rel: "fw_rel lookup m d key w s"
  shows "fst (fw_allow (new_fixed_window st m d) key w) =
      (fst (window_step (sint m) (sint d) (t_wall (now w)) s), None) \<and>
    fw_rel lookup m d key (snd (fw_allow (new_fixed_window st m d) key w))
      (snd (window_step (sint m) (sint d) (t_wall (now w)) s))"
proof (rule fw_read_step [OF rel])
  fix w1
  let ?r = "window_step (sint m) (sint d) (t_wall (now w)) s"
  assume read: "fw_read (new_fixed_window st m d) key w = (Inr (fst ?r, fw_state (snd ?r)), w1)"
    and due: "fw_due m d w1 (snd ?r)"
  show ?thesis
    by (rule fw_write_step [OF due, of key "fst ?r"]) (simp add: fw_allow_steps read)
qed

lemma fw_refines:
  assumes "in_range (w_clock w) m d" and "\<forall>g \<in> set gs. quiet lookup (fw_state_key key) g"
    and "\<forall>i \<ge> w_reads w. lookup (w_store w) (w_clock w i) (fw_state_key key) = []"
  shows "call_seq (fw_allow (new_fixed_window st m d) key) gs w =
    map (\<lambda>(t, ok). (t, ok, None)) (window_run (sint m) (sint d) (0, 0)
      (map fst (call_seq (fw_allow (new_fixed_window st m d) key) gs w)))"
proof (rule call_seq_refines [where R = "fw_rel lookup m d key"])
  show "fw_rel lookup m d key w (0, 0)"
    using assms in_rangeD [OF assms(1)] by (simp add: fw_rel_def fw_inv_def tracks_def now_def)
next
  show "fw_rel lookup m d key (g w) s" if "g \<in> set gs" "fw_rel lookup m d key w s" for g w s
    using assms(2) that fw_rel_quiet by blast
qed (rule fw_allow_step)

end

section \<open>Properties\<close>

lemma fixed_window_start:
  assumes "in_range c m d" and "\<forall>g \<in> set gs. quiet ms_lookup (fw_state_key key) g"
  shows "call_seq (fw_allow (new_fixed_window memory_ops m d) key) gs (start_world c) =
    map (\<lambda>(t, ok). (t, ok, None)) (window_run (sint m) (sint d) (0, 0)
      (map fst (call_seq (fw_allow (new_fixed_window memory_ops m d) key) gs (start_world c))))"
  using assms by (intro mem.fw_refines) (simp_all add: ms_lookup_def new_memory_store_def)

lemma fw_keeps_clock:
  "keeps_clock (\<lambda>w. snd (fw_allow (new_fixed_window memory_ops m d) key w))"
  by (auto simp: keeps_clock_def fw_allow_def Let_def fw_marshal_def split_beta ms_set_def ms_get_def
      split: option.splits sum.splits)

lemma fixed_window_times:
  assumes "in_range c m d" and "\<forall>g \<in> set gs. quiet ms_lookup (fw_state_key key) g"
  shows "sorted (map fst (call_seq (fw_allow (new_fixed_window memory_ops m d) key) gs (start_world c))) \<and>
    (\<forall>t \<in> set (map fst (call_seq (fw_allow (new_fixed_window memory_ops m d) key) gs (start_world c))). t_wall (c 0) \<le> t)"
proof -
  have "\<forall>g \<in> set gs. keeps_clock g" using assms(2) quiet_keeps_clock by blast
  from call_seq_sorted [OF fw_keeps_clock this, of "start_world c" m d key] show ?thesis
    using in_rangeD(1) [OF assms(1)] by (simp add: now_def)
qed

text \<open>
  C17: On a new in-memory store, a sequence of \<open>Allow\<close> calls on one key, with any activity on the
  other keys, cleanups and waiting between them, decides exactly as the specification does
  at the instants the calls are made, and returns no error.
\<close>

theorem fixed_window_refines:
  assumes "in_range c m d" and "\<forall>g \<in> set gs. quiet ms_lookup (fw_state_key key) g"
    and "rs = call_seq (fw_allow (new_fixed_window memory_ops m d) key) gs (start_world c)"
  shows "rs = map (\<lambda>(t, ok). (t, ok, None)) (spec_seq (window_step (sint m) (sint d)) (0, 0) (map fst rs))"
  unfolding assms(3) by (rule fixed_window_start [OF assms(1,2)])

text \<open>The clock and the calls of the witnesses: a limit of 2 in a second, readings 100 ms apart.\<close>

lemmas run_defs = ms_get_def ms_set_def Let_def now_def ramp_clock_def unix_nano_def time_sub_def
  time_unix_def time_add_def is_zero_time_def time_before_def saturate_def second_def
  new_memory_store_def in_i64_def sle_i64 sless_i64

lemma in_range_plateau:
  "in_range (\<lambda>i. ramp_clock 0 100000000 (min i 100)) 2 1000000000"
  by (auto simp: in_range_def steady_def ramp_clock_def)

definition burst :: "(int \<times> bool \<times> go_error option) list" where
  "burst = call_seq (fw_allow (new_fixed_window memory_ops 2 1000000000) ''u'')
     [skip 3, skip 6, skip 0, skip 0, skip 0] (start_world (\<lambda>i. ramp_clock 0 100000000 (min i 100)))"

lemma burst_eval:
  "burst = [(300000000, True, None), (1200000000, True, None), (1600000000, True, None),
     (2000000000, True, None), (2400000000, False, None)]"
  by (simp add: burst_def fw_allow_def fw_current_def fw_expiration_def fw_marshal_def run_defs)

theorem fixed_window_refines_witness:
  "burst = map (\<lambda>(t, ok). (t, ok, None)) (spec_seq (window_step 2 1000000000) (0, 0) (map fst burst)) \<and>
   map (fst \<circ> snd) burst = [True, True, True, True, False]"
  using fixed_window_refines [OF in_range_plateau _ burst_def] by (simp add: burst_eval)

text \<open>
  In any interval of the length of a window, however it lies against the windows, at most
  \<open>2 * maxRequests - 1\<close> calls on a key are allowed (the file's comment says twice the limit).
\<close>

theorem fixed_window_bound:
  assumes "in_range c m d" and "1 \<le> sint m"
    and "\<forall>g \<in> set gs. quiet ms_lookup (fw_state_key key) g"
    and "rs = call_seq (fw_allow (new_fixed_window memory_ops m d) key) gs (start_world c)"
  shows "int (admitted a (a + sint d) rs) \<le> 2 * sint m - 1"
proof -
  let ?ts = "map fst rs"
  have "sorted ?ts" and late: "\<forall>t \<in> set ?ts. t_wall (c 0) \<le> t"
    using fixed_window_times [OF assms(1,3)] unfolding assms(4) by blast+
  moreover have "\<forall>t \<in> set ?ts. 0 \<le> t" using late in_rangeD(4) [OF assms(1)] by (meson order_trans)
  ultimately have "int (allowed_between a (a + sint d) (window_run (sint m) (sint d) (0, 0) ?ts)) \<le> 2 * sint m - 1"
    using assms(2) by (intro window_run_bound) auto
  moreover have "rs = map (\<lambda>(t, ok). (t, ok, None)) (window_run (sint m) (sint d) (0, 0) ?ts)"
    unfolding assms(4) by (rule fixed_window_start [OF assms(1,3)])
  ultimately show ?thesis by (metis admitted_no_error)
qed

text \<open>The bound is reached: three calls with a limit of two, 800 ms apart.\<close>

theorem fixed_window_bound_witness:
  "int (admitted 1200000000 (1200000000 + 1000000000) burst) \<le> 3 \<and>
   admitted 1200000000 (1200000000 + 1000000000) burst = 3"
  using fixed_window_bound [OF in_range_plateau _ _ burst_def, of 1200000000]
  by (simp add: burst_eval admitted_def)

text \<open>
  C18: The calls on a fresh key within one window of the first of them are allowed first come
  first served: the \<open>i\<close>-th is allowed if and only if \<open>i < maxRequests\<close>.
\<close>

theorem fixed_window_exact:
  assumes "in_range c m d" and "\<forall>g \<in> set gs. quiet ms_lookup (fw_state_key key) g"
    and "rs = call_seq (fw_allow (new_fixed_window memory_ops m d) key) gs (start_world c)"
    and "\<forall>t \<in> set (map fst rs). t < fst (hd rs) + sint d"
  shows "map (fst \<circ> snd) rs = map (\<lambda>i. int i < sint m) [0..<length gs]"
proof (cases gs)
  case (Cons g gs')
  obtain t r rs' where rs: "rs = (t, r) # rs'" using Cons assms(3) by simp
  let ?ts = "map fst rs'"
  have len: "length rs' = length gs'"
    using arg_cong [OF assms(3), of length] by (simp add: rs Cons)
  have eq: "rs = map (\<lambda>(t, ok). (t, ok, None)) (window_run (sint m) (sint d) (0, 0) (t # ?ts))"
    using fixed_window_start [OF assms(1,2)] unfolding assms(3) [symmetric] by (simp add: rs)
  have "0 \<le> t_wall (c 0)" "t_wall (c 0) \<le> t"
    using fixed_window_times [OF assms(1,2)] in_rangeD(4) [OF assms(1)]
    unfolding assms(3) [symmetric] by (simp_all add: rs)
  then have t: "0 \<le> t" by simp
  have m: "0 \<le> sint m" using in_rangeD(2) [OF assms(1)] .
  have "map (fst \<circ> snd) rs = map snd (window_run (sint m) (sint d) (0, 0) (t # ?ts))"
    by (subst eq) (simp add: split_beta o_def)
  also have "\<dots> = map snd (window_run (sint m) (sint d) (0, t + sint d) (t # ?ts))"
    using t assms(4) by (simp add: rs)
  also have "\<dots> = map (\<lambda>i. 0 + int i < sint m) [0..<length (t # ?ts)]"
    using assms(4) m by (intro window_run_exact_open) (simp_all add: rs)
  finally show ?thesis by (simp add: len Cons)
qed (use assms(3) in simp)

theorem fixed_window_exact_witness:
  "map (fst \<circ> snd) (call_seq (fw_allow (new_fixed_window memory_ops 2 1000000000) ''u'')
     [skip 0, skip 0, skip 0] (start_world (\<lambda>i. ramp_clock 0 100000000 (min i 100)))) =
   [True, True, False]"
proof -
  have "\<forall>t \<in> set (map fst (call_seq (fw_allow (new_fixed_window memory_ops 2 1000000000) ''u'')
     [skip 0, skip 0, skip 0] (start_world (\<lambda>i. ramp_clock 0 100000000 (min i 100))))). t < 0 + 1000000000"
    by (simp add: fw_allow_def fw_current_def fw_expiration_def fw_marshal_def run_defs)
  then show ?thesis
    using fixed_window_exact [OF in_range_plateau _ refl, of "[skip 0, skip 0, skip 0]" "''u''"]
    by (simp add: now_def ramp_clock_def)
qed

text \<open>
  A stored state is read back as it was written, for every count and window end, negative
  ones included.
\<close>

theorem fixed_window_roundtrip:
  "\<exists>text. fw_marshal s = Inr text \<and> text \<noteq> [] \<and> unmarshal fw_decode text z = (s, None)"
  by (simp add: fw_marshal_def)

text \<open>
  A stored text that is not a state (no JSON, or with a field of the wrong type) is treated
  as if there were none, for every limit and window.
\<close>

theorem fixed_window_recovers:
  assumes "snd (unmarshal fw_decode str \<lparr>fws_count = 0, fws_window_end = 0\<rparr>) \<noteq> None"
  shows "fw_current fw t str = fw_current fw t []"
  using assms by (auto simp: fw_current_def Let_def split_beta split: option.splits)

theorem fixed_window_recovers_witness:
  "fw_current (new_fixed_window memory_ops 2 1000) 5 ''zz'' = \<lparr>fws_count = 0, fws_window_end = 1005\<rparr>"
proof -
  have "snd (unmarshal fw_decode ''zz'' \<lparr>fws_count = 0, fws_window_end = 0\<rparr>) = Some JsonSyntax"
    by code_simp
  then show ?thesis
    using fixed_window_recovers [of "''zz''" "new_fixed_window memory_ops 2 1000" 5]
    by (simp add: fw_current_def)
qed

end
