(* ===== verification/FloatOrder.thy ===== *)
theory FloatOrder
  imports GoRuntime
begin

text \<open>
  The arithmetic of doubles that are not negative, in the form the limiters and the service use
  it: \<open>fl x\<close> is the double of a rational, \<open>rnd\<close> its rounding, and each operation is the exact
  operation followed by \<open>rnd\<close>, which is monotone and leaves integers up to \<open>2 ^ 53\<close> alone.
\<close>

definition rnd :: "rat \<Rightarrow> rat" where
  "rnd x = (if x \<le> 0 then 0 else round_pos x)"

definition fl :: "rat \<Rightarrow> f64" where
  "fl x = (if x = 0 then Zero False else Num x)"

lemma fl_0 [simp]: "fl 0 = Zero False"
  by (simp add: fl_def)

lemma f64_val_fl [simp]: "f64_val (fl x) = x"
  by (simp add: fl_def)

lemma fl_inject [simp]: "fl x = fl y \<longleftrightarrow> x = y"
  by (metis f64_val_fl)

lemma rnd_0 [simp]: "rnd 0 = 0"
  by (simp add: rnd_def)

lemma rnd_nonneg [simp]: "0 \<le> rnd x"
  using round_pos_nonneg [of x] by (simp add: rnd_def)

lemma rnd_mono: "x \<le> y \<Longrightarrow> rnd x \<le> rnd y"
  using round_pos_mono [of x y] round_pos_nonneg [of y] by (auto simp: rnd_def)

lemma rnd_idem [simp]: "rnd (rnd x) = rnd x"
  using round_pos_idem [of x] round_pos_nonneg [of x] by (auto simp: rnd_def)

lemma rnd_int [simp]: "0 \<le> n \<Longrightarrow> n \<le> 2 ^ 53 \<Longrightarrow> rnd (of_int n) = of_int n"
  using round_pos_int [of n] by (cases "n = 0") (auto simp: rnd_def)

lemma rnd_1 [simp]: "rnd 1 = 1"
  using rnd_int [of 1] by simp

lemma rnd_pow2: "rnd (2 ^ k) = 2 ^ k"
  using round_pos_exact [of 1 "int k"] by (simp add: rnd_def power_int_def linorder_not_le)

lemma rnd_le_pow2: "x \<le> 2 ^ k \<Longrightarrow> rnd x \<le> 2 ^ k"
  using rnd_mono [of x "2 ^ k"] by (simp add: rnd_pow2)

lemma rnd_ge_1: "1 \<le> x \<Longrightarrow> 1 \<le> rnd x"
  using rnd_mono [of 1 x] by simp

lemma flog2_small: "0 < x \<Longrightarrow> x \<le> 2 ^ 200 \<Longrightarrow> flog2 x < 1024"
proof (rule flog2_less)
  assume "x \<le> 2 ^ 200"
  also have "(2 :: rat) ^ 200 = 2 powi 200" by (simp add: power_int_def power_divide)
  also have "\<dots> < 2 powi 1024" by (simp only: pow2_less_iff)
  finally show "x < 2 powi 1024" .
qed

lemma f64_round_fl:
  assumes "0 \<le> x" and "x \<le> 2 ^ 200"
  shows "f64_round False x = fl (rnd x)"
proof (cases "x = 0")
  case False
  then have r: "round_pos x = rnd x" using assms(1) by (simp add: rnd_def)
  have "rnd x \<le> 2 ^ 200" using assms(2) by (rule rnd_le_pow2)
  then have "rnd x \<noteq> 0 \<Longrightarrow> \<not> 1024 \<le> flog2 (rnd x)"
    using flog2_small [of "rnd x"] rnd_nonneg [of x] by linarith
  with False assms(1) show ?thesis by (simp add: f64_round_def Let_def r fl_def)
qed (simp add: f64_round_def)

lemma wf_fl: "0 \<le> x \<Longrightarrow> x \<le> 2 ^ 200 \<Longrightarrow> rnd x = x \<Longrightarrow> wf_f64 (fl x)"
  by (metis f64_round_fl wf_f64_round)

lemma f64_of_int_fl: "0 \<le> n \<Longrightarrow> n \<le> 2 ^ 53 \<Longrightarrow> f64_of_int n = fl (of_int n)"
  using f64_of_int_exact [of n] by (cases "n = 0") (auto simp: fl_def)

lemma f64_add_fl:
  assumes "0 \<le> x" and "0 \<le> y" and "x + y \<le> 2 ^ 200"
  shows "f64_add (fl x) (fl y) = fl (rnd (x + y))"
  using f64_round_fl [of "x + y"] assms by (auto simp: fl_def split: if_splits)

lemma f64_mul_fl:
  assumes "0 \<le> x" and "0 \<le> y" and "x * y \<le> 2 ^ 200"
  shows "f64_mul (fl x) (fl y) = fl (rnd (x * y))"
  using f64_round_fl [of "x * y"] assms by (auto simp: fl_def f64_round_def split: if_splits)

lemma f64_div_fl:
  assumes "0 \<le> x" and "0 < y" and "x / y \<le> 2 ^ 200"
  shows "f64_div (fl x) (fl y) = fl (rnd (x / y))"
  using f64_round_fl [of "x / y"] assms by (auto simp: fl_def f64_round_def split: if_splits)

lemma f64_sub_fl:
  assumes "0 < y" and "y \<le> x" and "x \<le> 2 ^ 200"
  shows "f64_sub (fl x) (fl y) = fl (rnd (x - y))"
  using f64_round_fl [of "x - y"] assms by (auto simp: f64_sub_def fl_def split: if_splits)

lemma f64_less_fl: "f64_less (fl x) (fl y) \<longleftrightarrow> x < y"
  and f64_le_fl: "f64_le (fl x) (fl y) \<longleftrightarrow> x \<le> y"
  by (auto simp: fl_def)

text \<open>Rounding adds at most one part in \<open>2 ^ 53\<close>, and next to nothing to a subnormal.\<close>

lemma rnd_upper:
  assumes "0 \<le> y"
  shows "rnd y \<le> y + y / 2 ^ 53 + 1 / 2 ^ 200"
proof (cases "y = 0")
  case False
  then have y: "0 < y" using assms by simp
  let ?u = "ulp_exp y"
  have "of_int (round_even (y / 2 powi ?u)) \<le> y / 2 powi ?u + 1 / 2"
    using abs_le_D1 [OF round_even_close [of "y / 2 powi ?u"]] by linarith
  then have "of_int (round_even (y / 2 powi ?u)) * 2 powi ?u \<le> (y / 2 powi ?u + 1 / 2) * 2 powi ?u"
    by (intro mult_right_mono) simp_all
  then have r: "round_pos y \<le> y + 2 powi ?u / 2" by (simp add: round_pos_def distrib_right)
  have "(2 :: rat) powi ?u / 2 \<le> y / 2 ^ 53 + 1 / 2 ^ 200"
  proof (cases "- 1074 \<le> flog2 y - 52")
    case True
    have "(2 :: rat) powi (flog2 y - 52) / 2 = 2 powi (flog2 y) / 2 ^ 53"
    proof -
      have "(2 :: rat) powi 52 = 2 ^ 52" by (simp add: power_int_def)
      then show ?thesis by (simp add: pow2_diff)
    qed
    also have "\<dots> \<le> y / 2 ^ 53" using flog2_bounds [OF y] by (intro divide_right_mono) simp_all
    finally have "2 powi (flog2 y - 52) / 2 \<le> y / 2 ^ 53 + 1 / 2 ^ 200" by (rule order_trans) simp
    moreover have "?u = flog2 y - 52" using True by (simp add: ulp_exp_def)
    ultimately show ?thesis by simp
  next
    case False
    have "(2 :: rat) powi (- 1074) \<le> 2 powi (- 200)" by (simp only: pow2_le_iff)
    also have "\<dots> = 1 / 2 ^ 200" by (simp add: power_int_def power_divide)
    finally have "(2 :: rat) powi (- 1074) / 2 \<le> 1 / 2 ^ 200" by simp
    then have "(2 :: rat) powi (- 1074) / 2 \<le> y / 2 ^ 53 + 1 / 2 ^ 200" using y by (simp add: add_increasing)
    moreover have "?u = - 1074" using False by (simp add: ulp_exp_def)
    ultimately show ?thesis by simp
  qed
  with r show ?thesis using y by (simp add: rnd_def)
qed simp

section \<open>Durations in seconds\<close>

text \<open>\<open>secs n\<close> is \<open>Seconds()\<close> of a duration of \<open>n\<close> nanoseconds.\<close>

definition secs :: "int \<Rightarrow> rat" where
  "secs n = rnd (of_int (n div 1000000000) + rnd (of_int (n mod 1000000000) / 1000000000))"

lemma frac_le_1: "rnd (of_int (n mod 1000000000) / 1000000000) \<le> 1"
proof -
  have "n mod 1000000000 \<le> 1000000000" using pos_mod_bound [of 1000000000 n] by simp
  then have "(of_int (n mod 1000000000) :: rat) \<le> of_int 1000000000" by (simp only: of_int_le_iff)
  then have "of_int (n mod 1000000000) / 1000000000 \<le> (1 :: rat)" by simp
  then show ?thesis using rnd_mono [of _ 1] by simp
qed

lemma dur_seconds_fl:
  assumes "0 \<le> sint d"
  shows "dur_seconds d = fl (secs (sint d))"
proof -
  let ?s = "sint d div 1000000000" and ?n = "sint d mod 1000000000"
  have s: "0 \<le> ?s" "?s \<le> 9223372036" using assms sint_upper [of d] by (simp_all add: pos_imp_zdiv_nonneg_iff)
  have n: "0 \<le> ?n" "?n < 1000000000" by simp_all
  have "sint (go_div d second) = ?s" using assms by (simp add: sint_go_div)
  moreover have "sint (go_mod d second) = ?n"
  proof -
    have "in_i64 ?n" unfolding in_i64_def using n by linarith
    then show ?thesis using assms by (simp add: go_mod_def smod_nonneg sint_of_int_i64)
  qed
  moreover have "f64_div (fl (of_int ?n)) (fl 1000000000) = fl (rnd (of_int ?n / 1000000000))"
  proof (rule f64_div_fl)
    have "(of_int ?n :: rat) \<le> of_int 1000000000" using n by (simp only: of_int_le_iff)
    then show "of_int ?n / 1000000000 \<le> (2 :: rat) ^ 200" by simp
  qed simp_all
  moreover have "f64_add (fl (of_int ?s)) (fl (rnd (of_int ?n / 1000000000))) = fl (secs (sint d))"
    unfolding secs_def
  proof (rule f64_add_fl)
    have "(of_int ?s :: rat) \<le> of_int 9223372036" using s by (simp only: of_int_le_iff)
    then show "of_int ?s + rnd (of_int ?n / 1000000000) \<le> (2 :: rat) ^ 200"
      using frac_le_1 [of "sint d"] by simp
  qed (use s in simp_all)
  ultimately show ?thesis
    using s n f64_of_int_fl [of 1000000000] f64_of_int_fl [of ?s] f64_of_int_fl [of ?n]
    by (simp add: dur_seconds_def)
qed

lemma secs_mono:
  assumes "m \<le> n"
  shows "secs m \<le> secs n"
proof (cases "m div 1000000000 = n div 1000000000")
  case True
  then have "m mod 1000000000 \<le> n mod 1000000000"
    using assms by (simp add: minus_div_mult_eq_mod [symmetric])
  then have "(of_int (m mod 1000000000) :: rat) \<le> of_int (n mod 1000000000)" by (simp only: of_int_le_iff)
  then have "rnd (of_int (m mod 1000000000) / 1000000000) \<le> rnd (of_int (n mod 1000000000) / 1000000000)"
    by (intro rnd_mono divide_right_mono) simp_all
  then show ?thesis unfolding secs_def True by (intro rnd_mono) simp
next
  case False
  then have "m div 1000000000 + 1 \<le> n div 1000000000"
    using zdiv_mono1 [OF assms, of 1000000000] by simp
  then have "(of_int (m div 1000000000 + 1) :: rat) \<le> of_int (n div 1000000000)" by (simp only: of_int_le_iff)
  then show ?thesis
    unfolding secs_def using frac_le_1 [of m] by (intro rnd_mono) (simp add: add_increasing2)
qed

lemma secs_0 [simp]: "secs 0 = 0"
  by (simp add: secs_def)

lemma secs_nonneg [simp]: "0 \<le> secs n"
  by (simp add: secs_def)

lemma secs_le:
  assumes "n < 9223372036854775808"
  shows "secs n \<le> 2 ^ 34"
  unfolding secs_def
proof (rule rnd_le_pow2)
  have "n div 1000000000 \<le> 9223372036" using assms by simp
  then have "(of_int (n div 1000000000) :: rat) \<le> of_int 9223372036" by (simp only: of_int_le_iff)
  then show "of_int (n div 1000000000) + rnd (of_int (n mod 1000000000) / 1000000000) \<le> (2 :: rat) ^ 34"
    using frac_le_1 [of n] by simp
qed

text \<open>A nanosecond is more than \<open>2 powi - 30\<close> seconds, and stays so when rounded.\<close>

lemma rnd_pow2_neg: "rnd (1 / 2 ^ 30) = 1 / 2 ^ 30"
proof -
  have e: "(1 :: rat) / 2 ^ 30 = of_int 1 * 2 powi (- 30)" by (simp add: power_int_def power_divide)
  have "rnd (of_int 1 * 2 powi (- 30)) = round_pos (of_int 1 * 2 powi (- 30))" by (simp add: rnd_def)
  also have "\<dots> = of_int 1 * 2 powi (- 30)" by (rule round_pos_exact) simp_all
  finally show ?thesis unfolding e .
qed

lemma secs_pos:
  assumes "1 \<le> n"
  shows "1 / 2 ^ 30 \<le> secs n"
proof -
  have "1 / 2 ^ 30 \<le> secs 1"
  proof -
    have "(1 / 2 ^ 30 :: rat) \<le> rnd (1 / 1000000000)"
      using rnd_mono [of "1 / 2 ^ 30" "1 / 1000000000"] rnd_pow2_neg by simp
    then show ?thesis by (simp add: secs_def)
  qed
  then show ?thesis using secs_mono [OF assms] by (rule order_trans)
qed

lemma secs_upper:
  assumes "0 \<le> n"
  shows "secs n \<le> of_int n / 1000000000 * (1 + 3 / 2 ^ 53) + 3 / 2 ^ 200"
proof -
  let ?N = "of_int n / 1000000000 :: rat"
  let ?f = "of_int (n mod 1000000000) / 1000000000 :: rat"
  have "n = n div 1000000000 * 1000000000 + n mod 1000000000" by simp
  then have "(of_int n :: rat) = of_int (n div 1000000000) * 1000000000 + of_int (n mod 1000000000)"
    by (metis of_int_add of_int_mult of_int_numeral)
  then have N: "?N = of_int (n div 1000000000) + ?f" by (simp add: add_divide_distrib)
  have "0 \<le> n div 1000000000" using assms by (simp add: pos_imp_zdiv_nonneg_iff)
  then have "(0 :: rat) \<le> of_int (n div 1000000000)" by simp
  then have f: "0 \<le> ?f" "?f \<le> ?N" using N by (simp, linarith)
  define a where "a = (of_int (n div 1000000000) :: rat)"
  define f where "f = ?f"
  have af: "0 \<le> a" "0 \<le> f" "?N = a + f"
    using N f \<open>(0 :: rat) \<le> of_int (n div 1000000000)\<close> by (simp_all add: a_def f_def)
  have "a + rnd f \<le> (a + f) + (a + f) / 2 ^ 53 + 1 / 2 ^ 200"
    using rnd_upper [OF af(2)] af(1) by (simp add: add_divide_distrib)
  moreover have "rnd (a + rnd f) \<le> (a + rnd f) + (a + rnd f) / 2 ^ 53 + 1 / 2 ^ 200"
    using af(1) by (intro rnd_upper) simp
  ultimately have "rnd (a + rnd f) \<le> (a + f) * (1 + 3 / 2 ^ 53) + 3 / 2 ^ 200"
    using af(1,2) by (simp add: field_simps)
  then show ?thesis unfolding secs_def af(3) by (simp add: a_def f_def)
qed

end
