(* ===== verification/TokenBucket.thy ===== *)
theory TokenBucket
  imports FixedWindow FloatOrder
begin

text \<open>
  The token-bucket limiter, \<open>internal/limiter/token_bucket.go\<close>: a number of tokens, a
  \<open>float64\<close>, refilled with the time that has passed. Arithmetic on doubles is not fused, as on
  amd64.

  The specification \<open>token_step\<close> is the step on rationals with the rounding of each operation
  in its place (\<open>rnd\<close>). \<open>Allow\<close> reads the clock after it has read the store, so the instant of
  the step lies within the call.
\<close>

record 's token_bucket =
  tb_store :: "'s store_ops"
  tb_refill_rate :: f64
  tb_refill_interval :: int64
  tb_max_tokens :: f64

record token_bucket_state =
  tbs_tokens :: f64
  tbs_last_fill_time :: int64

definition new_token_bucket :: "'s store_ops \<Rightarrow> f64 \<Rightarrow> int64 \<Rightarrow> f64 \<Rightarrow> 's token_bucket" where
  "new_token_bucket store refillRate refillInterval maxTokens =
     \<lparr>tb_store = store, tb_refill_rate = refillRate, tb_refill_interval = refillInterval,
      tb_max_tokens = maxTokens\<rparr>"

definition tb_state_key :: "string \<Rightarrow> string" where
  "tb_state_key key = ''limiter:token_bucket:'' @ key"

definition tb_min :: "f64 \<Rightarrow> f64 \<Rightarrow> f64" where
  "tb_min a b = (if f64_less a b then a else b)"

definition tb_decode :: "token_bucket_state decoder" where
  "tb_decode = decode_struct
     [(''tokens'', on_field tbs_tokens (\<lambda>x s. s\<lparr>tbs_tokens := x\<rparr>) decode_f64),
      (''last_fill_time'', on_field tbs_last_fill_time (\<lambda>x s. s\<lparr>tbs_last_fill_time := x\<rparr>) decode_i64)]"

text \<open>\<open>json.Marshal\<close> refuses infinities and NaNs.\<close>

definition tb_marshal :: "token_bucket_state \<Rightarrow> json_error + string" where
  "tb_marshal s = (case json_float (tbs_tokens s) of
      None \<Rightarrow> Inl JsonUnsupported
    | Some l \<Rightarrow> Inr (json_print (JObj [(''tokens'', JNum l),
        (''last_fill_time'', JNum (format_int (tbs_last_fill_time s)))])))"

definition tb_get_bucket_state ::
    "'s token_bucket \<Rightarrow> string \<Rightarrow> 's world \<Rightarrow> (go_error + token_bucket_state) \<times> 's world" where
  "tb_get_bucket_state tb stateKey w =
     (case st_get (tb_store tb) stateKey w of
        (Inl err, w) \<Rightarrow> (Inl (ErrWrap ''get bucket state'' err), w)
      | (Inr stateStr, w) \<Rightarrow>
          if stateStr = [] then
            (Inr \<lparr>tbs_tokens = tb_max_tokens tb, tbs_last_fill_time = unix_nano (now w)\<rparr>, tick w)
          else (case unmarshal tb_decode stateStr \<lparr>tbs_tokens = Zero False, tbs_last_fill_time = 0\<rparr> of
              (state, None) \<Rightarrow> (Inr state, w)
            | (state, Some err) \<Rightarrow>
                (Inr \<lparr>tbs_tokens = tb_max_tokens tb, tbs_last_fill_time = unix_nano (now w)\<rparr>, tick w)))"

definition tb_set_bucket_state ::
    "'s token_bucket \<Rightarrow> string \<Rightarrow> token_bucket_state \<Rightarrow> 's world \<Rightarrow> go_error option \<times> 's world" where
  "tb_set_bucket_state tb stateKey state w =
     (case tb_marshal state of
        Inl err \<Rightarrow> (Some (ErrWrap ''marshal bucket state'' (ErrJson err)), w)
      | Inr stateJSON \<Rightarrow>
          (case st_set (tb_store tb) stateKey stateJSON hours24 w of
             (Some err, w) \<Rightarrow> (Some (ErrWrap ''set bucket state'' err), w)
           | (None, w) \<Rightarrow> (None, w)))"

definition tb_refill :: "'s token_bucket \<Rightarrow> gotime \<Rightarrow> token_bucket_state \<Rightarrow> token_bucket_state" where
  "tb_refill tb t state =
     (let elapsed = time_sub t (time_unix 0 (tbs_last_fill_time state));
          tokensToAdd = f64_mul (tb_refill_rate tb)
            (f64_div (dur_seconds elapsed) (dur_seconds (tb_refill_interval tb)))
      in state\<lparr>tbs_tokens := tb_min (f64_add (tbs_tokens state) tokensToAdd) (tb_max_tokens tb),
               tbs_last_fill_time := unix_nano t\<rparr>)"

definition tb_allow ::
    "'s token_bucket \<Rightarrow> string \<Rightarrow> 's world \<Rightarrow> (bool \<times> go_error option) \<times> 's world" where
  "tb_allow tb key w =
     (let stateKey = tb_state_key key in
      case tb_get_bucket_state tb stateKey w of
        (Inl err, w) \<Rightarrow> ((True, Some err), w)
      | (Inr state, w) \<Rightarrow>
          (let state = tb_refill tb (now w) state;
               allowed = f64_le (Num 1) (tbs_tokens state);
               state = (if allowed then state\<lparr>tbs_tokens := f64_sub (tbs_tokens state) (Num 1)\<rparr> else state)
           in case tb_set_bucket_state tb stateKey state (tick w) of
             (Some err, w) \<Rightarrow> ((True, Some err), w)
           | (None, w) \<Rightarrow> ((allowed, None), w)))"

text \<open>The two halves of \<open>Allow\<close>, up to the last reading of the clock and from the call of \<open>Set\<close>.\<close>

definition tb_read ::
    "'s token_bucket \<Rightarrow> string \<Rightarrow> 's world \<Rightarrow> (go_error + bool \<times> token_bucket_state) \<times> 's world" where
  "tb_read tb key w =
     (let stateKey = tb_state_key key in
      case tb_get_bucket_state tb stateKey w of
        (Inl err, w) \<Rightarrow> (Inl err, w)
      | (Inr state, w) \<Rightarrow>
          (let state = tb_refill tb (now w) state;
               allowed = f64_le (Num 1) (tbs_tokens state);
               state = (if allowed then state\<lparr>tbs_tokens := f64_sub (tbs_tokens state) (Num 1)\<rparr> else state)
           in (Inr (allowed, state), tick w)))"

definition tb_write ::
    "'s token_bucket \<Rightarrow> string \<Rightarrow> bool \<times> token_bucket_state \<Rightarrow> 's world \<Rightarrow> (bool \<times> go_error option) \<times> 's world" where
  "tb_write tb key p w = (case p of (allowed, state) \<Rightarrow>
     (case tb_set_bucket_state tb (tb_state_key key) state w of
        (Some err, w) \<Rightarrow> ((True, Some err), w)
      | (None, w) \<Rightarrow> ((allowed, None), w)))"

lemma tb_allow_steps:
  "tb_allow tb key w = (case tb_read tb key w of
      (Inl err, w) \<Rightarrow> ((True, Some err), w)
    | (Inr p, w) \<Rightarrow> tb_write tb key p w)"
proof -
  obtain x w1 where "tb_get_bucket_state tb (tb_state_key key) w = (x, w1)" by fastforce
  then show ?thesis
    by (cases x) (simp_all add: tb_allow_def tb_read_def tb_write_def Let_def)
qed

definition tb_reset :: "'s token_bucket \<Rightarrow> string \<Rightarrow> 's world \<Rightarrow> go_error option \<times> 's world" where
  "tb_reset tb key w = (case st_delete (tb_store tb) (tb_state_key key) w of
      (Some err, w) \<Rightarrow> (Some (ErrWrap ''reset bucket state'' err), w)
    | (None, w) \<Rightarrow> (None, w))"

definition tb_close :: "'s token_bucket \<Rightarrow> 's world \<Rightarrow> go_error option \<times> 's world" where
  "tb_close tb w = (None, w)"

lemma new_token_bucket_simps [simp]:
  "tb_store (new_token_bucket st r d m) = st" "tb_refill_rate (new_token_bucket st r d m) = r"
  "tb_refill_interval (new_token_bucket st r d m) = d" "tb_max_tokens (new_token_bucket st r d m) = m"
  by (simp_all add: new_token_bucket_def)

section \<open>The state's text\<close>

lemma tb_unmarshal:
  assumes "tb_marshal s = Inr str" and "wf_f64 (tbs_tokens s)"
  shows "unmarshal tb_decode str z = (s, None)" and "str \<noteq> []"
proof -
  obtain l where l: "json_float (tbs_tokens s) = Some l"
    and str: "str = json_print (JObj [(''tokens'', JNum l),
        (''last_fill_time'', JNum (format_int (tbs_last_fill_time s)))])" (is "_ = json_print ?v")
    using assms(1) by (auto simp: tb_marshal_def split: option.splits)
  show "unmarshal tb_decode str z = (s, None)"
    unfolding str
  proof (rule unmarshal_print)
    show "json_ok 0 ?v" using num_ok_json_float [OF assms(2) l] by (simp add: max_depth_def plain_def)
    show "tb_decode ?v z = (s, True)"
      using parse_json_float [OF assms(2) l] by (simp add: tb_decode_def find_field_def on_field_def)
  qed
  show "str \<noteq> []" unfolding str by (rule json_print_Obj_not_Nil)
qed

section \<open>The specification\<close>

text \<open>A request at \<open>t\<close>, on a bucket that held \<open>x\<close> tokens at \<open>u\<close>.\<close>

definition token_refill :: "rat \<Rightarrow> rat \<Rightarrow> int \<Rightarrow> int \<Rightarrow> rat \<times> int \<Rightarrow> rat" where
  "token_refill m r d t s = min (rnd (fst s + rnd (r * rnd (secs (t - snd s) / secs d)))) m"

definition token_step :: "rat \<Rightarrow> rat \<Rightarrow> int \<Rightarrow> int \<Rightarrow> rat \<times> int \<Rightarrow> bool \<times> rat \<times> int" where
  "token_step m r d t s =
     (let x = token_refill m r d t s in (1 \<le> x, (if 1 \<le> x then rnd (x - 1) else x), t))"

text \<open>What keeps the arithmetic finite: a capacity and a rate that are doubles up to \<open>2 ^ 64\<close>.\<close>

definition token_param :: "rat \<Rightarrow> bool" where
  "token_param x \<longleftrightarrow> 0 \<le> x \<and> x \<le> 2 ^ 64 \<and> rnd x = x"

definition token_inv :: "rat \<Rightarrow> rat \<times> int \<Rightarrow> bool" where
  "token_inv m s \<longleftrightarrow> 0 \<le> fst s \<and> fst s \<le> m \<and> rnd (fst s) = fst s"

lemma token_refill_inv:
  assumes "token_param m" and "token_inv m s"
  shows "0 \<le> token_refill m r d t s" and "token_refill m r d t s \<le> m"
    and "rnd (token_refill m r d t s) = token_refill m r d t s"
  using assms by (auto simp: token_refill_def token_param_def min_def)

lemma token_step_inv:
  assumes "token_param m" and "token_inv m s"
  shows "token_inv m (snd (token_step m r d t s))"
proof -
  note x = token_refill_inv [OF assms, of r d t]
  have "rnd (token_refill m r d t s - 1) \<le> rnd (token_refill m r d t s)" by (rule rnd_mono) simp
  with x show ?thesis by (auto simp: token_step_def Let_def token_inv_def)
qed

section \<open>The code implements the specification\<close>

abbreviation tb_of :: "'s store_ops \<Rightarrow> rat \<Rightarrow> int64 \<Rightarrow> rat \<Rightarrow> 's token_bucket" where
  "tb_of st r d m \<equiv> new_token_bucket st (fl r) d (fl m)"

definition tb_state :: "rat \<times> int \<Rightarrow> token_bucket_state" where
  "tb_state s = \<lparr>tbs_tokens = fl (fst s), tbs_last_fill_time = word_of_int (snd s)\<rparr>"

lemma pow2_le_200: "k \<le> 200 \<Longrightarrow> (2 :: rat) ^ k \<le> 2 ^ 200"
  by (rule power_increasing) simp_all

lemma token_quotient:
  assumes "e < 9223372036854775808" and "1 \<le> d"
  shows "0 < secs d" and "secs e / secs d \<le> 2 ^ 64"
proof -
  have d: "1 / 2 ^ 30 \<le> secs d" using assms(2) by (rule secs_pos)
  then show p: "0 < secs d" by (rule order_less_le_trans [rotated]) simp
  have "secs e / secs d \<le> 2 ^ 34 / (1 / 2 ^ 30)"
    using secs_le [OF assms(1)] d p by (intro frac_le) simp_all
  then show "secs e / secs d \<le> 2 ^ 64" by simp
qed

lemma token_added:
  assumes "e < 9223372036854775808" and "1 \<le> d" and "token_param r"
  shows "r * rnd (secs e / secs d) \<le> 2 ^ 128"
proof -
  have "rnd (secs e / secs d) \<le> 2 ^ 64" by (rule rnd_le_pow2 [OF token_quotient(2) [OF assms(1,2)]])
  then have "r * rnd (secs e / secs d) \<le> 2 ^ 64 * 2 ^ 64"
    using assms(3) by (intro mult_mono) (simp_all add: token_param_def)
  then show ?thesis by simp
qed

lemma tb_refill_state:
  assumes "token_param m" and "token_param r" and "1 \<le> sint d" and "token_inv m s"
    and "0 \<le> snd s" and "snd s \<le> t_wall t" and "t_wall t < 9223372036854775808"
  shows "tb_refill (tb_of st r d m) t (tb_state s) =
    tb_state (token_refill m r (sint d) (t_wall t) s, t_wall t)"
proof -
  let ?e = "t_wall t - snd s"
  have e: "0 \<le> ?e" "?e < 9223372036854775808" using assms by simp_all
  have u: "sint (word_of_int (snd s) :: int64) = snd s"
    using assms by (simp add: sint_of_int_i64 in_i64_def)
  have "time_sub t (time_unix 0 (word_of_int (snd s))) = saturate ?e"
    by (simp add: time_sub_def time_unix_def u split: option.splits)
  moreover have el: "sint (saturate ?e) = ?e" using e by (simp add: sint_saturate)
  ultimately have "dur_seconds (time_sub t (time_unix 0 (word_of_int (snd s)))) = fl (secs ?e)"
    using dur_seconds_fl [of "saturate ?e"] e(1) by simp
  moreover have "dur_seconds d = fl (secs (sint d))" using assms(3) by (intro dur_seconds_fl) simp
  moreover note q = token_quotient [OF e(2) assms(3)]
  have "f64_div (fl (secs ?e)) (fl (secs (sint d))) = fl (rnd (secs ?e / secs (sint d)))"
    using q pow2_le_200 [of 64] by (intro f64_div_fl) simp_all
  moreover note a = token_added [OF e(2) assms(3,2)]
  have "f64_mul (fl r) (fl (rnd (secs ?e / secs (sint d)))) = fl (rnd (r * rnd (secs ?e / secs (sint d))))"
    using a assms(2) by (intro f64_mul_fl) (simp_all add: token_param_def)
  moreover have "f64_add (fl (fst s)) (fl (rnd (r * rnd (secs ?e / secs (sint d))))) =
      fl (rnd (fst s + rnd (r * rnd (secs ?e / secs (sint d)))))"
  proof (rule f64_add_fl)
    have "fst s \<le> 2 ^ 64" using assms(1,4) by (simp add: token_param_def token_inv_def)
    then show "fst s + rnd (r * rnd (secs ?e / secs (sint d))) \<le> 2 ^ 200"
      using rnd_le_pow2 [OF a] by simp
  qed (use assms(4) in \<open>simp_all add: token_inv_def\<close>)
  ultimately show ?thesis
    by (simp add: tb_refill_def Let_def tb_state_def tb_min_def f64_less_fl token_refill_def min_def
        unix_nano_def linorder_not_le)
qed

lemma tb_fresh_refill:
  assumes "token_param m" and "0 \<le> r"
  shows "token_refill m r d t (m, u) = m"
proof -
  have "rnd m \<le> rnd (m + rnd (r * rnd (secs (t - u) / secs d)))" by (rule rnd_mono) simp
  then show ?thesis using assms by (simp add: token_refill_def token_param_def)
qed

definition tb_text :: "rat \<times> int \<Rightarrow> string" where
  "tb_text s = (case tb_marshal (tb_state s) of Inl e \<Rightarrow> [] | Inr str \<Rightarrow> str)"

lemma tb_marshal_state: "tb_marshal (tb_state s) = Inr (tb_text s)"
  by (simp add: tb_text_def tb_marshal_def tb_state_def fl_def)

lemma token_inv_wf: "token_param m \<Longrightarrow> token_inv m s \<Longrightarrow> wf_f64 (tbs_tokens (tb_state s))"
  using pow2_le_200 [of 64] by (auto simp: token_param_def token_inv_def tb_state_def intro: wf_fl)

lemma tb_text_read:
  assumes "token_param m" and "token_inv m s"
  shows "unmarshal tb_decode (tb_text s) z = (tb_state s, None)" and "tb_text s \<noteq> []"
  using tb_unmarshal [OF tb_marshal_state token_inv_wf [OF assms]] by blast+

text \<open>
  A clock before 2262, and a capacity and a rate that are doubles up to \<open>2 ^ 64\<close>. In \<open>tb_range\<close> all
  readings of the clock lie within a day less a second, so that no state expires: the code
  stores it for 24 hours.
\<close>

definition tb_params :: "(nat \<Rightarrow> gotime) \<Rightarrow> rat \<Rightarrow> rat \<Rightarrow> int64 \<Rightarrow> bool" where
  "tb_params c m r d \<longleftrightarrow> steady c \<and> token_param m \<and> token_param r \<and> 1 \<le> sint d \<and> (\<forall>i. t_wall (c i) < 2 ^ 63)"

lemma tb_paramsD:
  assumes "tb_params c m r d"
  shows "steady c" and "token_param m" and "token_param r" and "1 \<le> sint d"
    and "\<And>i. 0 \<le> t_wall (c i)" and "\<And>i. t_wall (c i) < 9223372036854775808"
  using assms steady_nonneg [of c] by (auto simp: tb_params_def)

definition tb_range :: "(nat \<Rightarrow> gotime) \<Rightarrow> rat \<Rightarrow> rat \<Rightarrow> int64 \<Rightarrow> bool" where
  "tb_range c m r d \<longleftrightarrow> steady c \<and> token_param m \<and> token_param r \<and> 1 \<le> sint d \<and>
     (\<forall>i. t_wall (c i) < 2 ^ 63 \<and> t_wall (c i) \<le> t_wall (c 0) + 86399000000000)"

lemma tb_range_params: "tb_range c m r d \<Longrightarrow> tb_params c m r d"
  by (simp add: tb_range_def tb_params_def)

lemma tb_rangeD:
  assumes "tb_range c m r d"
  shows "steady c" and "token_param m" and "token_param r" and "1 \<le> sint d"
    and "\<And>i. 0 \<le> t_wall (c i)" and "\<And>i. t_wall (c i) < 9223372036854775808"
    and "\<And>i. t_wall (c i) \<le> t_wall (c 0) + 86399000000000"
    and "\<And>i. t_wall (c 0) \<le> t_wall (c i)"
  using assms steady_nonneg [of c] steady_mono [of c 0] by (auto simp: tb_range_def)

definition tb_rel ::
    "('s \<Rightarrow> gotime \<Rightarrow> string \<Rightarrow> string) \<Rightarrow> rat \<Rightarrow> rat \<Rightarrow> int64 \<Rightarrow> string \<Rightarrow> 's world \<Rightarrow> rat \<times> int \<Rightarrow> bool" where
  "tb_rel lookup m r d key w s \<longleftrightarrow> tb_range (w_clock w) m r d \<and> token_inv m s \<and>
     0 \<le> snd s \<and> snd s \<le> t_wall (now w) \<and>
     (holds lookup w (tb_state_key key) (tb_text s) \<or>
      fst s = m \<and> holds lookup w (tb_state_key key) [])"

lemma tb_rel_quiet:
  assumes "quiet lookup (tb_state_key key) g" and "tb_rel lookup m r d key w s"
  shows "tb_rel lookup m r d key (g w) s"
proof -
  have c: "steady (w_clock w)" using assms(2) tb_rangeD(1) by (auto simp: tb_rel_def)
  have g: "w_clock (g w) = w_clock w" "w_reads w \<le> w_reads (g w)" using quiet_world [OF assms(1) c] by auto
  then have "t_wall (now w) \<le> t_wall (now (g w))" using c by (simp add: now_def steady_mono)
  with assms(2) show ?thesis
    by (auto simp: tb_rel_def g intro: quiet_holds [OF assms(1) c])
qed

text \<open>A call between its halves: the new state, computed from a reading of the clock that has passed.\<close>

definition tb_due :: "rat \<Rightarrow> rat \<Rightarrow> int64 \<Rightarrow> 's world \<Rightarrow> rat \<times> int \<Rightarrow> bool" where
  "tb_due m r d w s \<longleftrightarrow> tb_range (w_clock w) m r d \<and> token_inv m s \<and> 0 \<le> snd s \<and> snd s \<le> t_wall (now w)"

lemma tb_due_later:
  assumes "tb_due m r d w s" and "w_clock w' = w_clock w" and "w_reads w \<le> w_reads w'"
  shows "tb_due m r d w' s"
proof -
  have "t_wall (now w) \<le> t_wall (now w')"
    using assms tb_rangeD(1) by (auto simp: tb_due_def now_def intro!: steady_mono)
  with assms show ?thesis by (simp add: tb_due_def)
qed

lemma tb_read_returns:
  assumes "tb_get_bucket_state (tb_of st r d m) (tb_state_key key) w = (Inr s0, w2)"
    and "tb_refill (tb_of st r d m) (now w2) s0 = tb_state (x, t)" and "x \<le> 2 ^ 64"
  shows "tb_read (tb_of st r d m) key w = (Inr (1 \<le> x, tb_state (if 1 \<le> x then rnd (x - 1) else x, t)), tick w2)"
proof -
  have one: "Num 1 = fl 1" by (simp add: fl_def)
  have le: "f64_le (Num 1) (fl x) \<longleftrightarrow> 1 \<le> x" by (simp only: one f64_le_fl)
  have "f64_sub (fl x) (Num 1) = fl (rnd (x - 1))" if "1 \<le> x"
    using that assms(3) pow2_le_200 [of 64] unfolding one by (intro f64_sub_fl) simp_all
  then have upd: "(tb_state (x, t))\<lparr>tbs_tokens := f64_sub (fl x) (Num 1)\<rparr> = tb_state (rnd (x - 1), t)" if "1 \<le> x"
    using that by (simp add: tb_state_def)
  have tok: "tbs_tokens (tb_state (x, t)) = fl x" by (simp add: tb_state_def)
  show ?thesis using upd by (simp add: tb_read_def Let_def assms(1,2) tok le)
qed

text \<open>What a call needs of the store: it reads the state, or nothing where the bucket is full.\<close>

definition tb_seen ::
    "('s \<Rightarrow> gotime \<Rightarrow> string \<Rightarrow> string) \<Rightarrow> rat \<Rightarrow> rat \<Rightarrow> int64 \<Rightarrow> string \<Rightarrow> 's world \<Rightarrow> rat \<times> int \<Rightarrow> bool" where
  "tb_seen lookup m r d key w s \<longleftrightarrow> tb_params (w_clock w) m r d \<and> token_inv m s \<and> 0 \<le> snd s \<and> snd s \<le> t_wall (now w) \<and>
     (lookup (w_store w) (now w) (tb_state_key key) = tb_text s \<or>
      fst s = m \<and> lookup (w_store w) (now w) (tb_state_key key) = [])"

lemma tb_rel_seen: "tb_rel lookup m r d key w s \<Longrightarrow> tb_seen lookup m r d key w s"
  using holds_now [of lookup w] by (auto simp: tb_rel_def tb_seen_def tb_range_params)

text \<open>After a call the state is there, as text, for the rest of the run.\<close>

definition tb_kept ::
    "('s \<Rightarrow> gotime \<Rightarrow> string \<Rightarrow> string) \<Rightarrow> rat \<Rightarrow> rat \<Rightarrow> int64 \<Rightarrow> string \<Rightarrow> 's world \<Rightarrow> rat \<times> int \<Rightarrow> bool" where
  "tb_kept lookup m r d key w s \<longleftrightarrow> tb_due m r d w s \<and> holds lookup w (tb_state_key key) (tb_text s)"

text \<open>
  On a clock of any length: the state a call left behind is there or has expired, and if it has
  expired the next call takes the bucket as full.
\<close>

definition tb_left ::
    "('s \<Rightarrow> gotime \<Rightarrow> string \<Rightarrow> string) \<Rightarrow> rat \<Rightarrow> rat \<Rightarrow> int64 \<Rightarrow> string \<Rightarrow> 's world \<Rightarrow> rat \<times> int \<Rightarrow> bool" where
  "tb_left lookup m r d key w s \<longleftrightarrow> tb_params (w_clock w) m r d \<and> token_inv m s \<and> 0 \<le> snd s \<and> snd s \<le> t_wall (now w) \<and>
     (\<forall>i \<ge> w_reads w. lookup (w_store w) (w_clock w i) (tb_state_key key) \<in> {tb_text s, []})"

context string_store
begin

lemma tb_get_refill:
  assumes seen: "tb_seen lookup m r d key w s"
  obtains s0 w2 where "tb_get_bucket_state (tb_of st r d m) (tb_state_key key) w = (Inr s0, w2)"
    and "w_clock w2 = w_clock w" and "w_reads w \<le> w_reads w2"
    and "tb_refill (tb_of st r d m) (now w2) s0 =
      tb_state (token_refill m r (sint d) (t_wall (now w2)) s, t_wall (now w2))"
proof -
  let ?k = "tb_state_key key"
  have rng: "tb_params (w_clock w) m r d" and inv: "token_inv m s" and s: "0 \<le> snd s" "snd s \<le> t_wall (now w)"
    using seen by (simp_all add: tb_seen_def)
  note r = tb_paramsD [OF rng]
  obtain w1 where get: "st_get st ?k w = (Inr (lookup (w_store w) (now w) ?k), w1)"
    using get_cases [of ?k w] by metis
  have w1: "w_clock w1 = w_clock w" "w_reads w \<le> w_reads w1" using get_world [OF get] by simp_all
  have le: "t_wall (now w) \<le> t_wall (now w1)" using w1 r(1) by (simp add: now_def steady_mono)
  consider "lookup (w_store w) (now w) ?k = tb_text s" | "fst s = m" "lookup (w_store w) (now w) ?k = []"
    using seen by (auto simp: tb_seen_def)
  then show thesis
  proof cases
    case 1
    have "tb_get_bucket_state (tb_of st r d m) ?k w = (Inr (tb_state s), w1)"
      using tb_text_read [OF r(2) inv] by (simp add: tb_get_bucket_state_def get 1)
    moreover have "tb_refill (tb_of st r d m) (now w1) (tb_state s) =
        tb_state (token_refill m r (sint d) (t_wall (now w1)) s, t_wall (now w1))"
      using s le r(6) [of "w_reads w1"] w1(1)
      by (intro tb_refill_state [OF r(2-4) inv]) (simp_all add: now_def)
    ultimately show thesis using w1 that by blast
  next
    case 2
    let ?s0 = "(m, t_wall (now w1))"
    have m: "token_inv m ?s0" using r(2) by (simp add: token_inv_def token_param_def)
    have "tb_get_bucket_state (tb_of st r d m) ?k w = (Inr (tb_state ?s0), tick w1)"
      by (simp add: tb_get_bucket_state_def get 2 tb_state_def unix_nano_def)
    moreover have "t_wall (now w1) \<le> t_wall (now (tick w1))"
      using r(1) w1(1) by (simp add: now_def steady_mono)
    then have "tb_refill (tb_of st r d m) (now (tick w1)) (tb_state ?s0) =
        tb_state (token_refill m r (sint d) (t_wall (now (tick w1))) ?s0, t_wall (now (tick w1)))"
      using s le r(6) [of "Suc (w_reads w1)"] w1(1)
      by (intro tb_refill_state [OF r(2-4) m]) (simp_all add: now_def tick_def)
    moreover have "token_refill m r (sint d) t ?s0 = token_refill m r (sint d) t s" for t
      using tb_fresh_refill [OF r(2)] r(3) 2(1) by (metis prod.collapse token_param_def)
    ultimately show thesis using w1 that [of "tb_state ?s0" "tick w1"] by simp
  qed
qed

lemma tb_read_seen:
  assumes seen: "tb_seen lookup m r d key w s"
  obtains t w1 where "t_wall (now w) \<le> t" and "t \<le> t_wall (now w1)"
    and "tb_read (tb_of st r d m) key w =
      (Inr (fst (token_step m r (sint d) t s), tb_state (snd (token_step m r (sint d) t s))), w1)"
    and "token_inv m (snd (token_step m r (sint d) t s))" and "snd (snd (token_step m r (sint d) t s)) = t"
    and "w_clock w1 = w_clock w" and "w_reads w \<le> w_reads w1"
proof -
  have rng: "tb_params (w_clock w) m r d" and inv: "token_inv m s" and s: "0 \<le> snd s" "snd s \<le> t_wall (now w)"
    using seen by (simp_all add: tb_seen_def)
  note r = tb_paramsD [OF rng]
  obtain s0 w2 where get: "tb_get_bucket_state (tb_of st r d m) (tb_state_key key) w = (Inr s0, w2)"
    and w2: "w_clock w2 = w_clock w" "w_reads w \<le> w_reads w2"
    and refill: "tb_refill (tb_of st r d m) (now w2) s0 =
      tb_state (token_refill m r (sint d) (t_wall (now w2)) s, t_wall (now w2))"
    using tb_get_refill [OF seen] by metis
  let ?t = "t_wall (now w2)"
  have x: "token_refill m r (sint d) ?t s \<le> 2 ^ 64"
    using token_refill_inv(2) [OF r(2) inv] r(2) by (meson order_trans token_param_def)
  have t: "t_wall (now w) \<le> ?t" "?t \<le> t_wall (now (tick w2))"
    using w2 r(1) by (simp_all add: now_def steady_mono)
  have "token_inv m (snd (token_step m r (sint d) ?t s))" using token_step_inv [OF r(2) inv] by simp
  moreover have "tb_read (tb_of st r d m) key w =
      (Inr (fst (token_step m r (sint d) ?t s), tb_state (snd (token_step m r (sint d) ?t s))), tick w2)"
    using tb_read_returns [OF get refill x] by (simp add: token_step_def Let_def)
  ultimately show thesis using w2 t by (intro that [of ?t "tick w2"]) (simp_all add: token_step_def Let_def)
qed

lemma tb_read_step:
  assumes rel: "tb_rel lookup m r d key w s"
  obtains t w1 where "t_wall (now w) \<le> t" and "t \<le> t_wall (now w1)"
    and "tb_read (tb_of st r d m) key w =
      (Inr (fst (token_step m r (sint d) t s), tb_state (snd (token_step m r (sint d) t s))), w1)"
    and "tb_due m r d w1 (snd (token_step m r (sint d) t s))"
    and "w_clock w1 = w_clock w" and "w_reads w \<le> w_reads w1"
proof (rule tb_read_seen [OF tb_rel_seen [OF rel]])
  fix t w1
  let ?r = "token_step m r (sint d) t s"
  assume read: "t_wall (now w) \<le> t" "t \<le> t_wall (now w1)"
      "tb_read (tb_of st r d m) key w = (Inr (fst ?r, tb_state (snd ?r)), w1)"
    and new: "token_inv m (snd ?r)" "snd (snd ?r) = t" and w1: "w_clock w1 = w_clock w" "w_reads w \<le> w_reads w1"
  have "tb_due m r d w1 (snd ?r)"
    using rel new read(1,2) w1(1) by (simp add: tb_due_def tb_rel_def)
  then show thesis using that [OF read _ w1] by simp
qed

lemma tb_write_stored:
  assumes "steady (w_clock w)"
  obtains w' where "tb_write (tb_of st r d m) key (ok, tb_state s) w = ((ok, None), w')"
    and "stored lookup w' (tb_state_key key) (tb_text s) (t_wall (now w) + sint hours24 - 1000000)"
    and "w_clock w' = w_clock w" and "w_reads w \<le> w_reads w'"
proof -
  obtain w' where set: "st_set st (tb_state_key key) (tb_text s) hours24 w = (None, w')" using set_ok by blast
  have "stored lookup w' (tb_state_key key) (tb_text s) (t_wall (now w) + sint hours24 - 1000000)"
    using set_stored [OF set assms] by simp
  moreover have "tb_write (tb_of st r d m) key (ok, tb_state s) w = ((ok, None), w')"
    using set by (simp add: tb_write_def tb_set_bucket_state_def tb_marshal_state)
  ultimately show thesis using that set_world(2,3) [OF set] by simp
qed

lemma tb_kept_rel: "tb_kept lookup m r d key w s \<Longrightarrow> tb_rel lookup m r d key w s"
  by (simp add: tb_kept_def tb_rel_def tb_due_def)

lemma tb_write_kept:
  assumes due: "tb_due m r d w s"
  obtains w' where "tb_write (tb_of st r d m) key (ok, tb_state s) w = ((ok, None), w')"
    and "tb_kept lookup m r d key w' s" and "w_clock w' = w_clock w" and "w_reads w \<le> w_reads w'"
proof -
  have rng: "tb_range (w_clock w) m r d" using due by (simp add: tb_due_def)
  note r = tb_rangeD [OF rng]
  obtain w' where wr: "tb_write (tb_of st r d m) key (ok, tb_state s) w = ((ok, None), w')"
    and st: "stored lookup w' (tb_state_key key) (tb_text s) (t_wall (now w) + sint hours24 - 1000000)"
    and w': "w_clock w' = w_clock w" "w_reads w \<le> w_reads w'"
    by (rule tb_write_stored [OF r(1)])
  from st have "holds lookup w' (tb_state_key key) (tb_text s)"
  proof (rule stored_holds)
    show "t_wall (w_clock w' i) \<le> t_wall (now w) + sint hours24 - 1000000" for i
      using r(7) [of i] r(8) [of "w_reads w"] w' by (simp add: now_def)
  qed
  moreover have "tb_due m r d w' s" by (rule tb_due_later [OF due w'])
  ultimately show thesis using that wr w' by (simp add: tb_kept_def)
qed

lemma tb_write_step:
  assumes due: "tb_due m r d w s"
  obtains w' where "tb_write (tb_of st r d m) key (ok, tb_state s) w = ((ok, None), w')"
    and "tb_rel lookup m r d key w' s" and "w_clock w' = w_clock w" and "w_reads w \<le> w_reads w'"
  using tb_write_kept [OF due] tb_kept_rel by metis

lemma tb_allow_step:
  assumes rel: "tb_rel lookup m r d key w s"
  obtains t where "t_wall (now w) \<le> t"
    and "t \<le> t_wall (now (snd (tb_allow (tb_of st r d m) key w)))"
    and "fst (tb_allow (tb_of st r d m) key w) = (fst (token_step m r (sint d) t s), None)"
    and "tb_kept lookup m r d key (snd (tb_allow (tb_of st r d m) key w)) (snd (token_step m r (sint d) t s))"
proof (rule tb_read_step [OF rel])
  fix t w1
  let ?r = "token_step m r (sint d) t s"
  assume read: "tb_read (tb_of st r d m) key w = (Inr (fst ?r, tb_state (snd ?r)), w1)"
    and due: "tb_due m r d w1 (snd ?r)" and t: "t_wall (now w) \<le> t" "t \<le> t_wall (now w1)"
  show thesis
  proof (rule tb_write_kept [OF due, of key "fst ?r"])
    fix w'
    assume wr: "tb_write (tb_of st r d m) key (fst ?r, tb_state (snd ?r)) w1 = ((fst ?r, None), w')"
      and kept: "tb_kept lookup m r d key w' (snd ?r)" and w': "w_clock w' = w_clock w1" "w_reads w1 \<le> w_reads w'"
    have "t_wall (now w1) \<le> t_wall (now w')"
      using due w' tb_rangeD(1) by (auto simp: tb_due_def now_def intro!: steady_mono)
    with t kept show thesis by (intro that [of t]) (simp_all add: tb_allow_steps read wr)
  qed
qed

lemma tb_left_quiet:
  assumes "quiet lookup (tb_state_key key) g" and "tb_left lookup m r d key w s"
  shows "tb_left lookup m r d key (g w) s" and "t_wall (now w) \<le> t_wall (now (g w))"
proof -
  have c: "steady (w_clock w)" using assms(2) tb_paramsD(1) by (auto simp: tb_left_def)
  have g: "w_clock (g w) = w_clock w" "w_reads w \<le> w_reads (g w)"
      "\<forall>i \<ge> w_reads (g w). lookup (w_store (g w)) (w_clock w i) (tb_state_key key) = lookup (w_store w) (w_clock w i) (tb_state_key key)"
    using assms(1) c by (simp_all add: quiet_def)
  show le: "t_wall (now w) \<le> t_wall (now (g w))" using c g(1,2) by (simp add: now_def steady_mono)
  show "tb_left lookup m r d key (g w) s" using assms(2) g le by (simp add: tb_left_def)
qed

lemma tb_left_seen:
  assumes "tb_left lookup m r d key w s"
  obtains x where "tb_seen lookup m r d key w (x, snd s)" and "token_inv m (x, snd s)"
proof -
  have m: "token_inv m (m, snd s)" using assms tb_paramsD(2) by (auto simp: tb_left_def token_inv_def token_param_def)
  have "lookup (w_store w) (now w) (tb_state_key key) \<in> {tb_text s, []}" using assms by (auto simp: tb_left_def now_def)
  then have "tb_seen lookup m r d key w s \<or> tb_seen lookup m r d key w (m, snd s)"
    using assms m by (auto simp: tb_left_def tb_seen_def)
  then show thesis using that [of "fst s"] that [of m] m assms by (auto simp: tb_left_def)
qed

lemma tb_allow_left:
  assumes "tb_left lookup m r d key w s"
  obtains t x where "t_wall (now w) \<le> t" and "token_inv m (x, snd s)"
    and "fst (tb_allow (tb_of st r d m) key w) = (fst (token_step m r (sint d) t (x, snd s)), None)"
    and "tb_left lookup m r d key (snd (tb_allow (tb_of st r d m) key w)) (snd (token_step m r (sint d) t (x, snd s)))"
proof -
  have rng: "tb_params (w_clock w) m r d" and s: "0 \<le> snd s" "snd s \<le> t_wall (now w)"
    using assms by (simp_all add: tb_left_def)
  obtain x where x: "tb_seen lookup m r d key w (x, snd s)" "token_inv m (x, snd s)" by (rule tb_left_seen [OF assms])
  obtain t w1 where t: "t_wall (now w) \<le> t" "t \<le> t_wall (now w1)"
    and rd: "tb_read (tb_of st r d m) key w = (Inr (fst (token_step m r (sint d) t (x, snd s)),
      tb_state (snd (token_step m r (sint d) t (x, snd s)))), w1)"
    and new: "token_inv m (snd (token_step m r (sint d) t (x, snd s)))" "snd (snd (token_step m r (sint d) t (x, snd s))) = t"
    and w1: "w_clock w1 = w_clock w" "w_reads w \<le> w_reads w1"
    by (rule tb_read_seen [OF x(1)])
  let ?r = "token_step m r (sint d) t (x, snd s)"
  have c: "steady (w_clock w1)" using tb_paramsD(1) [OF rng] w1 by simp
  obtain w' where wr: "tb_write (tb_of st r d m) key (fst ?r, tb_state (snd ?r)) w1 = ((fst ?r, None), w')"
    and st: "stored lookup w' (tb_state_key key) (tb_text (snd ?r)) (t_wall (now w1) + sint hours24 - 1000000)"
    and w': "w_clock w' = w_clock w1" "w_reads w1 \<le> w_reads w'"
    by (rule tb_write_stored [OF c])
  have "t_wall (now w1) \<le> t_wall (now w')" using c w' by (simp add: now_def steady_mono)
  then have "tb_left lookup m r d key w' (snd ?r)"
    using st rng new t s w1 w' by (auto simp: tb_left_def stored_def)
  with t(1) x(2) show thesis by (intro that [of t x]) (simp_all add: tb_allow_steps rd wr)
qed

end

section \<open>What the specification allows\<close>

text \<open>
  The exact number of tokens an interval of \<open>k\<close> seconds brings in \<open>n\<close> nanoseconds, and how far
  the rounding of one refill can exceed it.
\<close>

definition tokens_due :: "rat \<Rightarrow> int \<Rightarrow> int \<Rightarrow> rat" where
  "tokens_due r k n = r * (of_int n / 1000000000 / of_int k)"

lemma tokens_due_add: "tokens_due r k a + tokens_due r k b = tokens_due r k (a + b)"
  by (simp add: tokens_due_def add_divide_distrib distrib_left)

lemma tokens_due_nonneg: "0 \<le> r \<Longrightarrow> 0 \<le> n \<Longrightarrow> 1 \<le> k \<Longrightarrow> 0 \<le> tokens_due r k n"
  by (simp add: tokens_due_def)

lemma secs_whole: "1 \<le> k \<Longrightarrow> k \<le> 2 ^ 53 \<Longrightarrow> secs (k * 1000000000) = of_int k"
  by (simp add: secs_def)

lemma token_added_upper:
  assumes "0 \<le> r" and "r \<le> 2 ^ 64" and "0 \<le> n" and "1 \<le> k" and "k \<le> 2 ^ 53"
  shows "rnd (r * rnd (secs n / secs (k * 1000000000))) \<le> tokens_due r k n * (1 + 7 / 2 ^ 53) + 1 / 2 ^ 130"
proof -
  define q where "q = (of_int n / 1000000000 / of_int k :: rat)"
  have k: "(1 :: rat) \<le> of_int k" using assms(4) by simp
  have q0: "0 \<le> q" using assms by (simp add: q_def)
  have "secs n / of_int k \<le> (of_int n / 1000000000 * (1 + 3 / 2 ^ 53) + 3 / 2 ^ 200) / of_int k"
    using secs_upper [OF assms(3)] k by (intro divide_right_mono) simp_all
  also have "\<dots> = q * (1 + 3 / 2 ^ 53) + 3 / 2 ^ 200 / of_int k"
    by (simp add: q_def add_divide_distrib)
  also have "3 / 2 ^ 200 / of_int k \<le> (3 / 2 ^ 200 :: rat)" using k by (simp add: divide_le_eq)
  finally have "secs n / of_int k \<le> q * (1 + 3 / 2 ^ 53) + 3 / 2 ^ 200" by simp
  moreover have "rnd (secs n / of_int k) \<le> secs n / of_int k + secs n / of_int k / 2 ^ 53 + 1 / 2 ^ 200"
    using k by (intro rnd_upper) simp
  ultimately have q': "rnd (secs n / of_int k) \<le> q * (1 + 5 / 2 ^ 53) + 5 / 2 ^ 200"
    using q0 by (simp add: field_simps)
  have "r * rnd (secs n / of_int k) \<le> r * (q * (1 + 5 / 2 ^ 53) + 5 / 2 ^ 200)"
    using q' assms(1) by (rule mult_left_mono)
  also have "\<dots> = r * q * (1 + 5 / 2 ^ 53) + r * (5 / 2 ^ 200)" by (simp add: algebra_simps)
  also have "r * (5 / 2 ^ 200) \<le> 2 ^ 64 * (5 / 2 ^ 200)" using assms(2) by (intro mult_right_mono) simp_all
  finally have p: "r * rnd (secs n / of_int k) \<le> r * q * (1 + 5 / 2 ^ 53) + 2 ^ 64 * (5 / 2 ^ 200)" by simp
  have rq: "0 \<le> r * q" using assms(1) q0 by simp
  have "rnd (r * rnd (secs n / of_int k)) \<le>
      r * rnd (secs n / of_int k) + r * rnd (secs n / of_int k) / 2 ^ 53 + 1 / 2 ^ 200"
    using assms(1) by (intro rnd_upper) simp
  with p rq have "rnd (r * rnd (secs n / of_int k)) \<le> r * q * (1 + 7 / 2 ^ 53) + 1 / 2 ^ 130"
    by (simp add: field_simps)
  then show ?thesis by (simp add: secs_whole [OF assms(4,5)] tokens_due_def q_def)
qed

lemma token_step_bound:
  assumes "token_param m" and "token_param r" and "token_inv m s" and "snd s \<le> t"
    and "1 \<le> k" and "k \<le> 2 ^ 53"
  shows "(if fst (token_step m r (k * 1000000000) t s) then 1 else 0) + fst (snd (token_step m r (k * 1000000000) t s)) \<le>
    fst s + tokens_due r k (t - snd s) + (m + tokens_due r k (t - snd s) + 1) / 2 ^ 49"
proof -
  let ?a = "tokens_due r k (t - snd s)"
  define p where "p = rnd (r * rnd (secs (t - snd s) / secs (k * 1000000000)))"
  have r: "0 \<le> r" "r \<le> 2 ^ 64" using assms(2) by (simp_all add: token_param_def)
  have s: "0 \<le> fst s" "fst s \<le> m" using assms(3) by (simp_all add: token_inv_def)
  have a: "0 \<le> ?a" using r assms(4,5) by (intro tokens_due_nonneg) simp_all
  have p: "0 \<le> p" "p \<le> ?a * (1 + 7 / 2 ^ 53) + 1 / 2 ^ 130"
    unfolding p_def using token_added_upper [OF r, of "t - snd s" k] assms(4-6) by simp_all
  define x where "x = token_refill m r (k * 1000000000) t s"
  have x: "0 \<le> x" "x \<le> m" "x \<le> rnd (fst s + p)"
    using token_refill_inv [OF assms(1,3)] by (simp_all add: x_def) (simp add: token_refill_def p_def)
  have "rnd (fst s + p) \<le> (fst s + p) + (fst s + p) / 2 ^ 53 + 1 / 2 ^ 200"
    using s p by (intro rnd_upper) simp
  then have up: "x \<le> fst s + ?a + (m + ?a + 1) * 9 / 2 ^ 53" using x(3) p s a by (simp add: field_simps)
  have step: "fst (token_step m r (k * 1000000000) t s) = (1 \<le> x)"
    "fst (snd (token_step m r (k * 1000000000) t s)) = (if 1 \<le> x then rnd (x - 1) else x)"
    by (simp_all add: token_step_def Let_def x_def)
  show ?thesis
  proof (cases "1 \<le> x")
    case True
    then have "rnd (x - 1) \<le> (x - 1) + (x - 1) / 2 ^ 53 + 1 / 2 ^ 200" by (intro rnd_upper) simp
    with True up x a show ?thesis unfolding step by (simp add: field_simps)
  next
    case False
    with up x a show ?thesis unfolding step by (simp add: field_simps)
  qed
qed

lemma token_step_time [simp]: "snd (snd (token_step m r d t s)) = t"
  by (simp add: token_step_def Let_def)

lemma token_run_bound:
  assumes "token_param m" and "token_param r" and "1 \<le> k" and "k \<le> 2 ^ 53"
    and "token_inv m s" and "sorted (snd s # us)" and "\<forall>u \<in> set us. u \<le> v" and "snd s \<le> v"
  shows "of_nat (length (filter snd (spec_seq (token_step m r (k * 1000000000)) s us))) \<le>
    fst s + tokens_due r k (v - snd s) +
    of_nat (length us) * ((m + tokens_due r k (v - snd s) + 1) / 2 ^ 49)"
  using assms(5-8)
proof (induction us arbitrary: s)
  case Nil
  then show ?case using assms(2,3) tokens_due_nonneg [of r "v - snd s" k] by (simp add: token_inv_def token_param_def)
next
  case (Cons u us)
  let ?st = "token_step m r (k * 1000000000) u s"
  let ?s' = "snd ?st"
  have u: "snd s \<le> u" "u \<le> v" using Cons.prems by simp_all
  have r: "0 \<le> r" using assms(2) by (simp add: token_param_def)
  have due: "0 \<le> tokens_due r k (u - snd s)" "0 \<le> tokens_due r k (v - u)"
    using u r assms(3) by (simp_all add: tokens_due_nonneg)
  have sum: "tokens_due r k (v - snd s) = tokens_due r k (u - snd s) + tokens_due r k (v - u)"
    using tokens_due_add [of r k "u - snd s" "v - u"] by simp
  have inv: "token_inv m ?s'" using token_step_inv [OF assms(1) Cons.prems(1)] .
  have "of_nat (length (filter snd (spec_seq (token_step m r (k * 1000000000)) ?s' us))) \<le>
      fst ?s' + tokens_due r k (v - u) + of_nat (length us) * ((m + tokens_due r k (v - u) + 1) / 2 ^ 49)"
    using Cons.IH [OF inv] Cons.prems u by simp
  also have "\<dots> \<le> fst ?s' + tokens_due r k (v - u) +
      of_nat (length us) * ((m + tokens_due r k (v - snd s) + 1) / 2 ^ 49)"
    using due sum by (intro add_left_mono mult_left_mono divide_right_mono) simp_all
  finally have rest: "of_nat (length (filter snd (spec_seq (token_step m r (k * 1000000000)) ?s' us))) \<le>
      fst ?s' + tokens_due r k (v - u) + of_nat (length us) * ((m + tokens_due r k (v - snd s) + 1) / 2 ^ 49)" .
  have one: "(if fst ?st then 1 else 0) + fst ?s' \<le>
      fst s + tokens_due r k (u - snd s) + (m + tokens_due r k (v - snd s) + 1) / 2 ^ 49"
  proof -
    have "fst s + tokens_due r k (u - snd s) + (m + tokens_due r k (u - snd s) + 1) / 2 ^ 49 \<le>
        fst s + tokens_due r k (u - snd s) + (m + tokens_due r k (v - snd s) + 1) / 2 ^ 49"
      using due sum by (intro add_left_mono divide_right_mono) simp_all
    with token_step_bound [OF assms(1,2) Cons.prems(1) u(1) assms(3,4)] show ?thesis by (rule order_trans)
  qed
  have len: "of_nat (length (u # us)) * x = x + of_nat (length us) * x" for x :: rat
    by (simp add: distrib_right)
  have eq: "of_nat (length (filter snd (spec_seq (token_step m r (k * 1000000000)) s (u # us)))) =
      (if fst ?st then 1 else 0 :: rat) + of_nat (length (filter snd (spec_seq (token_step m r (k * 1000000000)) ?s' us)))"
    by simp
  show ?case unfolding eq len using rest one sum by linarith
qed

text \<open>Without time passing, the tokens there are.\<close>

lemma token_refill_still:
  "token_inv m s \<Longrightarrow> token_refill m r d (snd s) s = fst s"
  by (simp add: token_refill_def token_inv_def)

lemma token_run_burst:
  assumes "token_inv m s" and "fst s = of_int n" and "0 \<le> n" and "n \<le> 2 ^ 53" and "\<forall>u \<in> set us. u = snd s"
  shows "map snd (spec_seq (token_step m r d) s us) = map (\<lambda>i. int i < n) [0..<length us]"
  using assms
proof (induction us arbitrary: s n)
  case (Cons u us)
  have x: "token_refill m r d u s = of_int n" using token_refill_still [OF Cons.prems(1)] Cons.prems by simp
  have shift: "map (\<lambda>i. int i < n) [0..<Suc j] = (0 < n) # map (\<lambda>i. int i < n - 1) [0..<j]" for j
    by (simp add: upt_conv_Cons map_Suc_upt [symmetric] o_def algebra_simps del: upt_Suc)
  show ?case
  proof (cases "1 \<le> n")
    case True
    have r: "rnd (of_int n - 1) = of_int (n - 1)" using rnd_int [of "n - 1"] True Cons.prems(4) by simp
    have st: "token_step m r d u s = (True, of_int (n - 1), u)"
      using True r by (simp add: token_step_def Let_def x)
    have "token_inv m (of_int (n - 1), u)"
      using Cons.prems True rnd_int [of "n - 1"] by (simp add: token_inv_def)
    with True Cons.prems Cons.IH [of "(of_int (n - 1), u)" "n - 1"] st show ?thesis
      by (simp add: shift del: upt_Suc of_int_diff)
  next
    case False
    then have n: "n = 0" using Cons.prems(3) by simp
    have st: "token_step m r d u s = (False, 0, u)" by (simp add: token_step_def Let_def x n)
    with n Cons.prems Cons.IH [of "(0, u)" 0] show ?thesis
      by (simp add: token_inv_def map_replicate_const del: upt_Suc)
  qed
qed simp

text \<open>After an interval there is a token, where the rate and the capacity are at least 1.\<close>

lemma token_step_waited:
  assumes "token_inv m s" and "1 \<le> m" and "1 \<le> r" and "1 \<le> d" and "d \<le> t - snd s"
  shows "fst (token_step m r d t s)"
proof -
  have "0 < secs d" using order_less_le_trans [OF _ secs_pos [OF assms(4)]] by simp
  then have "1 \<le> secs (t - snd s) / secs d" using secs_mono [OF assms(5)] by simp
  then have "1 \<le> rnd (secs (t - snd s) / secs d)" by (rule rnd_ge_1)
  then have "1 * 1 \<le> r * rnd (secs (t - snd s) / secs d)" using assms(3) by (intro mult_mono) simp_all
  then have "1 \<le> rnd (r * rnd (secs (t - snd s) / secs d))" by (simp add: rnd_ge_1)
  then have "1 \<le> fst s + rnd (r * rnd (secs (t - snd s) / secs d))" using assms(1) by (simp add: token_inv_def)
  then have "1 \<le> token_refill m r d t s" using assms(2) by (simp add: token_refill_def rnd_ge_1)
  then show ?thesis by (simp add: token_step_def Let_def)
qed

section \<open>Properties\<close>

lemma tb_rel_mem_step:
  assumes "tb_rel ms_lookup m r d key w s"
  shows "\<exists>t. t_wall (now w) \<le> t \<and> t \<le> t_wall (now (snd (tb_allow (tb_of memory_ops r d m) key w))) \<and>
    fst (tb_allow (tb_of memory_ops r d m) key w) = (\<lambda>ok. (ok, None)) (fst (token_step m r (sint d) t s)) \<and>
    tb_kept ms_lookup m r d key (snd (tb_allow (tb_of memory_ops r d m) key w)) (snd (token_step m r (sint d) t s))"
  using mem.tb_allow_step [OF assms] by metis

lemma tb_rel_start:
  assumes "tb_range c m r d"
  shows "tb_rel ms_lookup m r d key (start_world c) (m, t_wall (c 0))"
  using assms tb_rangeD [OF assms]
  by (simp add: tb_rel_def token_inv_def token_param_def holds_def now_def ms_lookup_def new_memory_store_def)

lemma tb_rel_quiet_time:
  assumes "quiet ms_lookup (tb_state_key key) g" and "tb_rel ms_lookup m r d key w s"
  shows "tb_rel ms_lookup m r d key (g w) s \<and> t_wall (now w) \<le> t_wall (now (g w))"
proof -
  have c: "steady (w_clock w)" using assms(2) tb_rangeD(1) by (auto simp: tb_rel_def)
  show ?thesis
    using tb_rel_quiet [OF assms] quiet_world [OF assms(1) c] c by (simp add: now_def steady_mono)
qed

lemma token_bucket_start:
  assumes "tb_range c m r d" and "\<forall>g \<in> set gs. quiet ms_lookup (tb_state_key key) g"
    and "rs = call_spans (tb_allow (tb_of memory_ops r d m) key) gs (start_world c)"
    and "w' = call_end (tb_allow (tb_of memory_ops r d m) key) gs (start_world c)"
  obtains us where "sorted us" and "\<forall>u \<in> set us. t_wall (c 0) \<le> u \<and> u \<le> t_wall (now w')" and "inside rs us"
    and "map snd rs = map ((\<lambda>ok. (ok, None)) \<circ> snd) (spec_seq (token_step m r (sint d)) (m, t_wall (c 0)) us)"
    and "t_wall (c 0) \<le> t_wall (now w')"
    and "gs \<noteq> [] \<Longrightarrow> tb_kept ms_lookup m r d key w' (spec_end (token_step m r (sint d)) (m, t_wall (c 0)) us)"
proof -
  have c: "t_wall (now (start_world c)) = t_wall (c 0)" by (simp add: now_def)
  show thesis
    using call_seq_within [where R = "tb_rel ms_lookup m r d key" and R' = "tb_kept ms_lookup m r d key" and gs = gs
        and h = "\<lambda>ok. (ok, None)" and f = "tb_allow (tb_of memory_ops r d m) key" and step = "token_step m r (sint d)",
        OF _ tb_rel_mem_step mem.tb_kept_rel tb_rel_start [OF assms(1)]]
      tb_rel_quiet_time assms(2) that
    unfolding c assms(3,4) by metis
qed

lemma tb_get_clock:
  "w_clock (snd (tb_get_bucket_state (new_token_bucket memory_ops r d m) k w)) = w_clock w \<and>
   w_reads w \<le> w_reads (snd (tb_get_bucket_state (new_token_bucket memory_ops r d m) k w))"
proof -
  obtain n where "ms_get k w = (Inr (ms_lookup (w_store w) (now w) k), skip n w)"
    using ms_get_lookup [of k w] by blast
  then show ?thesis by (simp add: tb_get_bucket_state_def split_beta split: option.splits)
qed

lemma tb_set_clock:
  "w_clock (snd (tb_set_bucket_state (new_token_bucket memory_ops r d m) k s w)) = w_clock w \<and>
   w_reads w \<le> w_reads (snd (tb_set_bucket_state (new_token_bucket memory_ops r d m) k s w))"
  by (simp add: tb_set_bucket_state_def ms_set_def Let_def split: sum.splits)

lemma tb_allow_world:
  "snd (tb_allow tb key w) = (case tb_get_bucket_state tb (tb_state_key key) w of
      (Inl err, w1) \<Rightarrow> w1
    | (Inr s, w1) \<Rightarrow> (let s = tb_refill tb (now w1) s in
        snd (tb_set_bucket_state tb (tb_state_key key)
          (if f64_le (Num 1) (tbs_tokens s) then s\<lparr>tbs_tokens := f64_sub (tbs_tokens s) (Num 1)\<rparr> else s) (tick w1))))"
  by (simp add: tb_allow_def Let_def split_beta split: sum.splits option.splits)

lemma tb_keeps_clock:
  "keeps_clock (\<lambda>w. snd (tb_allow (new_token_bucket memory_ops r d m) key w))"
  unfolding keeps_clock_def
proof (intro allI impI)
  fix w :: ms_world
  let ?tb = "new_token_bucket memory_ops r d m"
  obtain x w1 where get: "tb_get_bucket_state ?tb (tb_state_key key) w = (x, w1)" by fastforce
  then have w1: "w_clock w1 = w_clock w" "w_reads w \<le> w_reads w1"
    using tb_get_clock [of r d m "tb_state_key key" w] by simp_all
  show "w_clock (snd (tb_allow ?tb key w)) = w_clock w \<and> w_reads w \<le> w_reads (snd (tb_allow ?tb key w))"
  proof (cases x)
    case (Inl e)
    then show ?thesis using w1 by (simp add: tb_allow_world get)
  next
    case (Inr s)
    obtain s' where "snd (tb_allow ?tb key w) = snd (tb_set_bucket_state ?tb (tb_state_key key) s' (tick w1))"
      by (simp add: tb_allow_world get Inr Let_def)
    with tb_set_clock [of r d m "tb_state_key key" s' "tick w1"] w1 show ?thesis by simp
  qed
qed

text \<open>
  C19: On a new in-memory store with one steady clock, over a run in which all readings of the clock
  lie within a day less a second (the code stores the state for 24 hours), with any activity on the
  other keys and waiting between the calls, \<open>Allow\<close> decides as the token-bucket specification does at
  instants \<open>us\<close>, one between the beginning and the end of each call, and returns no error.
\<close>

theorem token_bucket_refines:
  assumes "tb_range c m r d" and "\<forall>g \<in> set gs. quiet ms_lookup (tb_state_key key) g"
    and "rs = call_spans (tb_allow (new_token_bucket memory_ops (fl r) d (fl m)) key) gs (start_world c)"
  shows "\<exists>us. sorted us \<and> inside rs us \<and>
    map snd rs = map (\<lambda>(u, ok). (ok, None)) (spec_seq (token_step m r (sint d)) (m, t_wall (c 0)) us)"
proof -
  obtain us where us: "sorted us" "inside rs us"
    "map snd rs = map ((\<lambda>ok. (ok, None)) \<circ> snd) (spec_seq (token_step m r (sint d)) (m, t_wall (c 0)) us)"
    by (rule token_bucket_start [OF assms refl])
  moreover have "(\<lambda>(u :: int, ok). (ok, None :: go_error option)) = (\<lambda>ok. (ok, None)) \<circ> snd" by auto
  ultimately show ?thesis by metis
qed

text \<open>
  Over a run of at most a day on a bucket refilled every \<open>k\<close> seconds, the calls allowed are at
  most the capacity and the tokens due in the time up to the end of the run, and the rounding
  of \<open>n\<close> refills adds at most \<open>n * (m + due + 1) / 2 ^ 49\<close>.
\<close>

theorem token_bucket_bound:
  assumes "tb_range c m r d" and "\<forall>g \<in> set gs. quiet ms_lookup (tb_state_key key) g"
    and "rs = call_seq (tb_allow (new_token_bucket memory_ops (fl r) d (fl m)) key) gs (start_world c)"
    and "w' = call_end (tb_allow (new_token_bucket memory_ops (fl r) d (fl m)) key) gs (start_world c)"
    and "sint d = k * 1000000000" and "due = r * (of_int (t_wall (now w') - t_wall (c 0)) / 1000000000 / of_int k)"
  shows "of_nat (length (filter (\<lambda>(t, ok, e). ok) rs)) \<le> m + due + of_nat (length rs) * ((m + due + 1) / 2 ^ 49)"
proof -
  note r = tb_rangeD [OF assms(1)]
  obtain us where us: "sorted us" "\<forall>u \<in> set us. t_wall (c 0) \<le> u \<and> u \<le> t_wall (now w')"
    "inside (call_spans (tb_allow (tb_of memory_ops r d m) key) gs (start_world c)) us"
    "map snd (call_spans (tb_allow (tb_of memory_ops r d m) key) gs (start_world c)) =
      map ((\<lambda>ok. (ok, None)) \<circ> snd) (spec_seq (token_step m r (sint d)) (m, t_wall (c 0)) us)"
    and end_: "t_wall (c 0) \<le> t_wall (now w')"
    by (rule token_bucket_start [OF assms(1,2) refl assms(4)])
  have res: "map snd rs = map ((\<lambda>ok. (ok, None)) \<circ> snd) (spec_seq (token_step m r (sint d)) (m, t_wall (c 0)) us)"
    using us(4) by (simp add: assms(3) call_spans_results)
  have "filter (\<lambda>(t, ok, e). ok) rs = filter (fst \<circ> snd) rs" by (rule filter_cong) auto
  then have "length (filter (\<lambda>(t, ok, e). ok) rs) = length (filter fst (map snd rs))" by (simp add: filter_map)
  then have len: "length (filter (\<lambda>(t, ok, e). ok) rs) = length (filter snd (spec_seq (token_step m r (sint d)) (m, t_wall (c 0)) us))"
    by (simp add: res filter_map o_def)
  have k: "1 \<le> k" "k \<le> 2 ^ 53" using r(4) sint_upper [of d] assms(5) by simp_all
  have m: "token_inv m (m, t_wall (c 0))" using r(2) by (simp add: token_inv_def token_param_def)
  have n: "length us = length rs" using res by (metis length_map spec_seq_length)
  show ?thesis
    using token_run_bound [OF r(2,3) k m, of us "t_wall (now w')"] us(1,2) end_
    unfolding len n assms(5,6) by (simp add: tokens_due_def)
qed

text \<open>
  A new key starts with a full bucket: while no time passes, the first \<open>maxTokens\<close> calls are
  allowed and every later one is refused.
\<close>

theorem token_bucket_burst:
  assumes "tb_range c (of_int n) r d" and "\<forall>g \<in> set gs. quiet ms_lookup (tb_state_key key) g"
    and "rs = call_seq (tb_allow (new_token_bucket memory_ops (fl r) d (fl (of_int n))) key) gs (start_world c)"
    and "n \<le> 2 ^ 53" and "\<forall>i. t_wall (c i) = t_wall (c 0)"
  shows "map snd rs = map (\<lambda>i. (int i < n, None)) [0..<length gs]"
proof -
  note r = tb_rangeD [OF assms(1)]
  let ?f = "tb_allow (tb_of memory_ops r d (of_int n)) key"
  obtain us where us: "\<forall>u \<in> set us. t_wall (c 0) \<le> u \<and> u \<le> t_wall (now (call_end ?f gs (start_world c)))"
    "map snd (call_spans ?f gs (start_world c)) =
      map ((\<lambda>ok. (ok, None)) \<circ> snd) (spec_seq (token_step (of_int n) r (sint d)) (of_int n, t_wall (c 0)) us)"
    by (rule token_bucket_start [OF assms(1,2) refl refl])
  have res: "map snd rs = map ((\<lambda>ok. (ok, None)) \<circ> snd) (spec_seq (token_step (of_int n) r (sint d)) (of_int n, t_wall (c 0)) us)"
    using us(2) by (simp add: assms(3) call_spans_results)
  then have len: "length us = length gs" by (metis assms(3) call_seq_length length_map spec_seq_length)
  have "\<forall>g \<in> set gs. keeps_clock g" using assms(2) quiet_keeps_clock by blast
  then have "w_clock (call_end ?f gs (start_world c)) = c"
    using call_end_clock [OF tb_keeps_clock] r(1) by (metis start_world_simps(2))
  then have "t_wall (now (call_end ?f gs (start_world c))) = t_wall (c 0)"
    unfolding now_def using assms(5) by metis
  then have "\<forall>u \<in> set us. u = t_wall (c 0)" using us(1) by fastforce
  moreover have "0 \<le> n" "token_inv (of_int n) (of_int n, t_wall (c 0))"
    using r(2) by (simp_all add: token_inv_def token_param_def)
  ultimately have "map snd (spec_seq (token_step (of_int n) r (sint d)) (of_int n, t_wall (c 0)) us) =
      map (\<lambda>i. int i < n) [0..<length us]"
    using assms(4) by (intro token_run_burst) simp_all
  from arg_cong [OF this, of "map (\<lambda>ok. (ok, None :: go_error option))"] show ?thesis by (simp add: len res o_def)
qed

lemma tb_left_run:
  assumes "tb_params c m r d" and "\<forall>g \<in> set gs. quiet ms_lookup (tb_state_key key) g"
  shows "\<exists>s. tb_left ms_lookup m r d key (call_end (tb_allow (tb_of memory_ops r d m) key) gs (start_world c)) s"
proof -
  have run: "\<exists>s'. tb_left ms_lookup m r d key (call_end (tb_allow (tb_of memory_ops r d m) key) gs w) s'"
    if "tb_left ms_lookup m r d key w s" for w s
    using assms(2) that
  proof (induction gs arbitrary: w s)
    case (Cons g gs)
    have "tb_left ms_lookup m r d key (g w) s" using mem.tb_left_quiet(1) Cons.prems by simp
    then obtain s' where "tb_left ms_lookup m r d key (snd (tb_allow (tb_of memory_ops r d m) key (g w))) s'"
      by (rule mem.tb_allow_left)
    then show ?case using Cons.IH Cons.prems(1) by simp
  qed auto
  have "tb_left ms_lookup m r d key (start_world c) (m, t_wall (c 0))"
    using assms(1) tb_paramsD(2,5) [OF assms(1)]
    by (simp add: tb_left_def token_inv_def token_param_def now_def ms_lookup_def new_memory_store_def)
  then show ?thesis by (rule run)
qed

text \<open>
  C20: Whatever calls were made before on a new in-memory store, over however long a time, a client
  that then waits for the refill interval is allowed its next call, where the rate and the capacity
  are at least 1 (and doubles up to \<open>2 ^ 64\<close>), with one steady clock before 2262: a state that has
  expired in the meantime makes the bucket full.
\<close>

theorem token_bucket_serves:
  assumes "tb_params c m r d" and "\<forall>g \<in> set (g # gs). quiet ms_lookup (tb_state_key key) g"
    and "w' = call_end (tb_allow (new_token_bucket memory_ops (fl r) d (fl m)) key) gs (start_world c)"
    and "t_wall (now w') + sint d \<le> t_wall (now (g w'))" and "1 \<le> r" and "1 \<le> m"
  shows "fst (tb_allow (new_token_bucket memory_ops (fl r) d (fl m)) key (g w')) = (True, None)"
proof -
  obtain s where s: "tb_left ms_lookup m r d key w' s"
    using tb_left_run [OF assms(1), of gs key] assms(2,3) by auto
  have "tb_left ms_lookup m r d key (g w') s" using mem.tb_left_quiet(1) [OF _ s] assms(2) by simp
  then obtain t x where t: "t_wall (now (g w')) \<le> t" "token_inv m (x, snd s)"
    "fst (tb_allow (tb_of memory_ops r d m) key (g w')) = (fst (token_step m r (sint d) t (x, snd s)), None)"
    by (rule mem.tb_allow_left)
  have "sint d \<le> t - snd s" using s t(1) assms(4) by (simp add: tb_left_def)
  then have "fst (token_step m r (sint d) t (x, snd s))"
    using tb_paramsD(4) [OF assms(1)] t(2) assms(5,6) by (intro token_step_waited) simp_all
  with t(3) show ?thesis by simp
qed

text \<open>
  C21: After one call or more on a new in-memory store, and any activity that leaves the key alone,
  the store holds the JSON of exactly the state the specification has reached at instants within the
  calls, with no fewer than 0 and no more than \<open>maxTokens\<close> tokens, while the readings of the one steady
  clock lie within a day less a second (the state expires after 24 hours).
\<close>

theorem token_bucket_invariant:
  assumes "tb_range c m r d" and "\<forall>g \<in> set (h # gs). quiet ms_lookup (tb_state_key key) g" and "gs \<noteq> []"
    and "rs = call_spans (tb_allow (new_token_bucket memory_ops (fl r) d (fl m)) key) gs (start_world c)"
    and "w' = h (call_end (tb_allow (new_token_bucket memory_ops (fl r) d (fl m)) key) gs (start_world c))"
  shows "\<exists>us s str. sorted us \<and> inside rs us \<and> s = spec_end (token_step m r (sint d)) (m, t_wall (c 0)) us \<and>
    fst (ms_get (tb_state_key key) w') = Inr str \<and>
    unmarshal tb_decode str z = (\<lparr>tbs_tokens = fl (fst s), tbs_last_fill_time = word_of_int (snd s)\<rparr>, None) \<and>
    0 \<le> fst s \<and> fst s \<le> m"
proof -
  let ?w = "call_end (tb_allow (tb_of memory_ops r d m) key) gs (start_world c)"
  have quiet: "\<forall>g \<in> set gs. quiet ms_lookup (tb_state_key key) g" and h: "quiet ms_lookup (tb_state_key key) h"
    using assms(2) by simp_all
  obtain us where us: "sorted us" "inside rs us"
    and kept: "tb_kept ms_lookup m r d key ?w (spec_end (token_step m r (sint d)) (m, t_wall (c 0)) us)"
    using assms(3) by (rule_tac token_bucket_start [OF assms(1) quiet assms(4) refl]) simp
  let ?s = "spec_end (token_step m r (sint d)) (m, t_wall (c 0)) us"
  have inv: "token_inv m ?s" and m: "token_param m" and c: "steady (w_clock ?w)"
    using kept tb_rangeD(1) tb_rangeD(2) [OF assms(1)] by (auto simp: tb_kept_def tb_due_def)
  have "holds ms_lookup w' (tb_state_key key) (tb_text ?s)"
    using quiet_holds [OF h c] kept by (simp add: tb_kept_def assms(5))
  then have "fst (ms_get (tb_state_key key) w') = Inr (tb_text ?s)" by (simp add: ms_get_fst holds_now)
  then show ?thesis
    using us inv tb_text_read(1) [OF m inv, of z]
    by (intro exI [of _ us] exI [of _ ?s] exI [of _ "tb_text ?s"]) (simp add: tb_state_def token_inv_def)
qed

text \<open>
  With a refill interval of 0 the bucket is full at every call, however many calls there were
  (the quotient is an infinity or no number, and the minimum with the capacity is the
  capacity), so it limits nothing.
\<close>

theorem token_bucket_zero_interval:
  assumes "tb_refill_interval tb = 0" and "0 \<le> sint (time_sub t (time_unix 0 (tbs_last_fill_time s)))"
    and "tbs_tokens s = fl x" and "tb_refill_rate tb = fl r" and "0 \<le> r" and "tb_max_tokens tb = fl m"
  shows "tbs_tokens (tb_refill tb t s) = fl m"
proof -
  have "dur_seconds 0 = Zero False" using dur_seconds_fl [of 0] by simp
  moreover obtain e where "dur_seconds (time_sub t (time_unix 0 (tbs_last_fill_time s))) = fl e" "0 \<le> e"
    using dur_seconds_fl [OF assms(2)] secs_nonneg by blast
  ultimately show ?thesis
    using assms(1,3-6) by (auto simp: tb_refill_def Let_def tb_min_def fl_def)
qed

text \<open>
  A stored bucket is read back with exactly the tokens it was written with, for every finite
  double; infinities and NaNs are refused.
\<close>

theorem token_bucket_roundtrip:
  assumes "wf_f64 (tbs_tokens s)"
  shows "if is_finite (tbs_tokens s)
    then \<exists>str. tb_marshal s = Inr str \<and> str \<noteq> [] \<and> unmarshal tb_decode str z = (s, None)
    else tb_marshal s = Inl JsonUnsupported"
proof (cases "tb_marshal s")
  case (Inl e)
  then show ?thesis by (cases "tbs_tokens s") (auto simp: tb_marshal_def)
next
  case (Inr str)
  then show ?thesis
    using tb_unmarshal [OF Inr assms] by (cases "tbs_tokens s") (auto simp: tb_marshal_def)
qed

text \<open>The witnesses: a clock that jumps from 0 to two seconds at its hundredth reading.\<close>

definition jump_clock :: "nat \<Rightarrow> gotime" where
  "jump_clock i = \<lparr>t_wall = (if i < 100 then 0 else 2000000000), t_mono = Some (if i < 100 then 0 else 2000000000)\<rparr>"

lemma token_param_2: "token_param 2" and token_param_1: "token_param 1"
  using rnd_int [of 2] by (simp_all add: token_param_def)

lemma tb_range_jump: "tb_range jump_clock 2 1 1000000000"
  by (auto simp: tb_range_def steady_def jump_clock_def token_param_1 token_param_2)

lemma tb_range_still: "tb_range (ramp_clock 0 0) (of_int 2) 1 1000000000"
  by (auto simp: tb_range_def token_param_1 token_param_2 ramp_clock_def)

definition still_burst :: "(int \<times> bool \<times> go_error option) list" where
  "still_burst = call_seq (tb_allow (new_token_bucket memory_ops (fl 1) 1000000000 (fl (of_int 2))) ''u'')
     [skip 0, skip 0, skip 0] (start_world (ramp_clock 0 0))"

definition jump_run :: "(int \<times> bool \<times> go_error option) list" where
  "jump_run = call_seq (tb_allow (new_token_bucket memory_ops (fl 1) 1000000000 (fl 2)) ''u'')
     [skip 0, skip 0, skip 0] (start_world jump_clock)"

definition jump_spans :: "((int \<times> int) \<times> bool \<times> go_error option) list" where
  "jump_spans = call_spans (tb_allow (new_token_bucket memory_ops (fl 1) 1000000000 (fl 2)) ''u'')
     [skip 0, skip 0, skip 0] (start_world jump_clock)"

definition jump_end :: ms_world where
  "jump_end = call_end (tb_allow (new_token_bucket memory_ops (fl 1) 1000000000 (fl 2)) ''u'')
     [skip 0, skip 0, skip 0] (start_world jump_clock)"

text \<open>A call reads the clock at most four times.\<close>

lemma tb_reads:
  "w_reads (snd (tb_allow (new_token_bucket memory_ops r d m) key w)) \<le> w_reads w + 4"
proof -
  let ?tb = "new_token_bucket memory_ops r d m"
  obtain x w1 where get: "tb_get_bucket_state ?tb (tb_state_key key) w = (x, w1)" by fastforce
  obtain n where "n \<le> 1" "ms_get (tb_state_key key) w = (Inr (ms_lookup (w_store w) (now w) (tb_state_key key)), skip n w)"
    using ms_get_lookup [of "tb_state_key key" w] by blast
  with get have w1: "w_reads w1 \<le> w_reads w + 2"
    by (auto simp: tb_get_bucket_state_def split_beta split: if_splits option.splits)
  have set: "w_reads (snd (tb_set_bucket_state ?tb k s w)) \<le> Suc (w_reads w)" for k s w
    by (simp add: tb_set_bucket_state_def ms_set_def Let_def split: sum.splits)
  show ?thesis
  proof (cases x)
    case (Inl e)
    then show ?thesis using w1 by (simp add: tb_allow_world get)
  next
    case (Inr s)
    obtain s' where "snd (tb_allow ?tb key w) = snd (tb_set_bucket_state ?tb (tb_state_key key) s' (tick w1))"
      by (simp add: tb_allow_world get Inr Let_def)
    with set [of "tb_state_key key" s' "tick w1"] w1 show ?thesis by simp
  qed
qed

lemma jump_end_reads: "w_reads jump_end < 100" and jump_end_clock: "w_clock jump_end = jump_clock"
proof -
  let ?f = "tb_allow (new_token_bucket memory_ops (fl 1) 1000000000 (fl 2)) ''u''"
  have r: "w_reads (snd (?f w)) \<le> w_reads w + 4" for w by (rule tb_reads)
  show "w_reads jump_end < 100"
    using r [of "start_world jump_clock"] r [of "snd (?f (start_world jump_clock))"]
      r [of "snd (?f (snd (?f (start_world jump_clock))))"] by (simp add: jump_end_def)
  have "\<forall>g \<in> set [skip 0, skip 0, skip 0 :: ms_world \<Rightarrow> ms_world]. keeps_clock g" by (simp add: keeps_clock_def)
  then show "w_clock jump_end = jump_clock"
    unfolding jump_end_def
    using call_end_clock [OF tb_keeps_clock] tb_rangeD(1) [OF tb_range_jump] by (metis start_world_simps(2))
qed

lemma jump_end_time: "t_wall (now jump_end) = 0" "t_wall (now (skip 100 jump_end)) = 2000000000"
  using jump_end_reads by (simp_all add: now_def jump_end_clock) (simp_all add: jump_clock_def)

theorem token_bucket_refines_witness:
  "\<exists>us. length us = 3 \<and> sorted us \<and> inside jump_spans us \<and>
    map snd jump_spans = map (\<lambda>(u, ok). (ok, None)) (spec_seq (token_step 2 1 1000000000) (2, 0) us)"
proof -
  obtain us where us: "sorted us" "inside jump_spans us"
    "map snd jump_spans = map (\<lambda>(u, ok). (ok, None)) (spec_seq (token_step 2 1 1000000000) (2, 0) us)"
    using token_bucket_refines [OF tb_range_jump _ jump_spans_def] by (auto simp: jump_clock_def)
  have "length us = 3" using inside_length [OF us(2)] by (simp add: jump_spans_def)
  with us show ?thesis by blast
qed

theorem token_bucket_bound_witness:
  "of_nat (length (filter (\<lambda>(t, ok, e). ok) jump_run)) \<le> (2 + 3 * (3 / 2 ^ 49) :: rat)"
  using token_bucket_bound [OF tb_range_jump _ jump_run_def jump_end_def, of 1]
  by (simp add: jump_end_time, simp add: jump_clock_def jump_run_def)

theorem token_bucket_burst_witness:
  "map snd still_burst = [(True, None), (True, None), (False, None)]"
  using token_bucket_burst [OF tb_range_still _ still_burst_def] by (simp add: ramp_clock_def)

theorem token_bucket_serves_witness:
  "fst (tb_allow (new_token_bucket memory_ops (fl 1) 1000000000 (fl 2)) ''u'' (skip 100 jump_end)) = (True, None)"
  using token_bucket_serves [OF tb_range_params [OF tb_range_jump] _ jump_end_def, of "skip 100"]
  by (simp add: jump_end_time del: now_skip)

theorem token_bucket_invariant_witness:
  "\<exists>us s str. length us = 3 \<and> sorted us \<and> inside jump_spans us \<and> s = spec_end (token_step 2 1 1000000000) (2, 0) us \<and>
    fst (ms_get (tb_state_key ''u'') (skip 5 jump_end)) = Inr str \<and>
    unmarshal tb_decode str \<lparr>tbs_tokens = NaN, tbs_last_fill_time = 0\<rparr> =
      (\<lparr>tbs_tokens = fl (fst s), tbs_last_fill_time = word_of_int (snd s)\<rparr>, None) \<and> 0 \<le> fst s \<and> fst s \<le> 2"
proof -
  have "\<exists>us s str. sorted us \<and> inside jump_spans us \<and> s = spec_end (token_step 2 1 (sint (1000000000 :: int64))) (2, t_wall (jump_clock 0)) us \<and>
      fst (ms_get (tb_state_key ''u'') (skip 5 jump_end)) = Inr str \<and>
      unmarshal tb_decode str \<lparr>tbs_tokens = NaN, tbs_last_fill_time = 0\<rparr> =
        (\<lparr>tbs_tokens = fl (fst s), tbs_last_fill_time = word_of_int (snd s)\<rparr>, None) \<and> 0 \<le> fst s \<and> fst s \<le> 2"
    by (rule token_bucket_invariant [OF tb_range_jump _ _ jump_spans_def, of "skip 5"]) (simp_all add: jump_end_def)
  moreover have "length us = 3" if "inside jump_spans us" for us
    using inside_length [OF that] by (simp add: jump_spans_def)
  ultimately show ?thesis by (auto simp: jump_clock_def)
qed

theorem token_bucket_zero_interval_witness:
  "tbs_tokens (tb_refill (new_token_bucket memory_ops (fl 1) 0 (fl 2)) \<lparr>t_wall = 7, t_mono = None\<rparr>
     \<lparr>tbs_tokens = fl 0, tbs_last_fill_time = 5\<rparr>) = fl 2"
  by (rule token_bucket_zero_interval [where x = 0 and r = 1])
    (simp_all add: time_sub_def time_unix_def saturate_def)

theorem token_bucket_roundtrip_witness:
  "\<exists>str. tb_marshal \<lparr>tbs_tokens = Num 2, tbs_last_fill_time = 5\<rparr> = Inr str \<and> str \<noteq> [] \<and>
     unmarshal tb_decode str \<lparr>tbs_tokens = NaN, tbs_last_fill_time = 0\<rparr> =
       (\<lparr>tbs_tokens = Num 2, tbs_last_fill_time = 5\<rparr>, None)"
proof -
  have "wf_f64 (fl 2)" using token_param_2 by (intro wf_fl) (simp_all add: token_param_def)
  then have "wf_f64 (tbs_tokens \<lparr>tbs_tokens = Num 2, tbs_last_fill_time = 5\<rparr>)" by (simp add: fl_def)
  from token_bucket_roundtrip [OF this] show ?thesis by simp
qed

end
