(* ===== verification/SlidingWindow.thy ===== *)
theory SlidingWindow
  imports FixedWindow
begin

text \<open>
  The sliding-window limiter, \<open>internal/limiter/sliding_window.go\<close>: the log of time stamps it
  keeps under one key of the store, \<open>Allow\<close>, \<open>Reset\<close> and \<open>Close\<close>.

  Its specification, \<open>log_step\<close>, keeps every allowed request for ever and decides on the number
  of those in the window that ends now; the code keeps the stamps of the window only, relies on
  their order to find the first live one, and lets the store drop them after a second more than
  the window. The lemmas show that this makes no difference.
\<close>

record 's sliding_window =
  sw_store :: "'s store_ops"
  sw_max_requests :: int64
  sw_window_duration :: int64

record sliding_window_state =
  sws_timestamps :: "int64 list"

definition new_sliding_window :: "'s store_ops \<Rightarrow> int64 \<Rightarrow> int64 \<Rightarrow> 's sliding_window" where
  "new_sliding_window store maxRequests windowDuration =
     \<lparr>sw_store = store, sw_max_requests = maxRequests, sw_window_duration = windowDuration\<rparr>"

definition sw_state_key :: "string \<Rightarrow> string" where
  "sw_state_key key = ''limiter:sliding_window:'' @ key"

definition sw_decode :: "sliding_window_state decoder" where
  "sw_decode = decode_struct
     [(''timestamps'', on_field sws_timestamps (\<lambda>x s. s\<lparr>sws_timestamps := x\<rparr>) decode_i64s)]"

definition sw_json :: "sliding_window_state \<Rightarrow> json" where
  "sw_json s = JObj [(''timestamps'', JArr (map (\<lambda>t. JNum (format_int t)) (sws_timestamps s)))]"

definition sw_marshal :: "sliding_window_state \<Rightarrow> json_error + string" where
  "sw_marshal s = Inr (json_print (sw_json s))"

text \<open>The state a call works on: no stamps where there is no text or it does not parse.\<close>

definition sw_current :: "string \<Rightarrow> sliding_window_state" where
  "sw_current stateStr =
     (if stateStr \<noteq> [] then
        (case unmarshal sw_decode stateStr \<lparr>sws_timestamps = []\<rparr> of
           (s, None) \<Rightarrow> s
         | (s, Some err) \<Rightarrow> \<lparr>sws_timestamps = []\<rparr>)
      else \<lparr>sws_timestamps = []\<rparr>)"

text \<open>The loop over the stamps: everything from the first one after the start of the window.\<close>

fun sw_valid_from :: "int64 \<Rightarrow> int64 list \<Rightarrow> int64 list" where
  "sw_valid_from windowStart [] = []"
| "sw_valid_from windowStart (ts # rest) =
     (if windowStart <s ts then ts # rest else sw_valid_from windowStart rest)"

definition sw_allow ::
    "'s sliding_window \<Rightarrow> string \<Rightarrow> 's world \<Rightarrow> (bool \<times> go_error option) \<times> 's world" where
  "sw_allow sw key w =
     (let stateKey = sw_state_key key;
          t = unix_nano (now w)
      in case st_get (sw_store sw) stateKey (tick w) of
        (Inl err, w) \<Rightarrow> ((True, Some err), w)
      | (Inr stateStr, w) \<Rightarrow>
          (let state = sw_current stateStr;
               windowStart = t - sw_window_duration sw;
               filteredTimestamps = sw_valid_from windowStart (sws_timestamps state);
               allowed = word_of_nat (length filteredTimestamps) <s sw_max_requests sw;
               filteredTimestamps = (if allowed then filteredTimestamps @ [t] else filteredTimestamps);
               state = state\<lparr>sws_timestamps := filteredTimestamps\<rparr>
           in case sw_marshal state of
             Inl err \<Rightarrow> ((True, Some (ErrJson err)), w)
           | Inr stateJSON \<Rightarrow>
               (case st_set (sw_store sw) stateKey stateJSON (sw_window_duration sw + second) w of
                 (Some err, w) \<Rightarrow> ((True, Some err), w)
               | (None, w) \<Rightarrow> ((allowed, None), w))))"

text \<open>The two halves of \<open>Allow\<close>, up to the answer of \<open>Get\<close> and from the call of \<open>Set\<close>.\<close>

definition sw_read ::
    "'s sliding_window \<Rightarrow> string \<Rightarrow> 's world \<Rightarrow> (go_error + bool \<times> sliding_window_state) \<times> 's world" where
  "sw_read sw key w =
     (let stateKey = sw_state_key key;
          t = unix_nano (now w)
      in case st_get (sw_store sw) stateKey (tick w) of
        (Inl err, w) \<Rightarrow> (Inl err, w)
      | (Inr stateStr, w) \<Rightarrow>
          (let state = sw_current stateStr;
               windowStart = t - sw_window_duration sw;
               filteredTimestamps = sw_valid_from windowStart (sws_timestamps state);
               allowed = word_of_nat (length filteredTimestamps) <s sw_max_requests sw;
               filteredTimestamps = (if allowed then filteredTimestamps @ [t] else filteredTimestamps);
               state = state\<lparr>sws_timestamps := filteredTimestamps\<rparr>
           in (Inr (allowed, state), w)))"

definition sw_write ::
    "'s sliding_window \<Rightarrow> string \<Rightarrow> bool \<times> sliding_window_state \<Rightarrow> 's world \<Rightarrow> (bool \<times> go_error option) \<times> 's world" where
  "sw_write sw key p w = (case p of (allowed, state) \<Rightarrow>
     (case sw_marshal state of
        Inl err \<Rightarrow> ((True, Some (ErrJson err)), w)
      | Inr stateJSON \<Rightarrow>
          (case st_set (sw_store sw) (sw_state_key key) stateJSON (sw_window_duration sw + second) w of
            (Some err, w) \<Rightarrow> ((True, Some err), w)
          | (None, w) \<Rightarrow> ((allowed, None), w))))"

lemma sw_allow_steps:
  "sw_allow sw key w = (case sw_read sw key w of
      (Inl err, w) \<Rightarrow> ((True, Some err), w)
    | (Inr p, w) \<Rightarrow> sw_write sw key p w)"
proof -
  obtain x w1 where "st_get (sw_store sw) (sw_state_key key) (tick w) = (x, w1)" by fastforce
  then show ?thesis
    by (cases x) (simp_all add: sw_allow_def sw_read_def sw_write_def Let_def)
qed

definition sw_reset :: "'s sliding_window \<Rightarrow> string \<Rightarrow> 's world \<Rightarrow> go_error option \<times> 's world" where
  "sw_reset sw key w = (case st_delete (sw_store sw) (sw_state_key key) w of
      (Some err, w) \<Rightarrow> (Some (ErrWrap ''reset sliding window state'' err), w)
    | (None, w) \<Rightarrow> (None, w))"

definition sw_close :: "'s sliding_window \<Rightarrow> 's world \<Rightarrow> go_error option \<times> 's world" where
  "sw_close sw w = (None, w)"

lemma new_sliding_window_simps [simp]:
  "sw_store (new_sliding_window st m d) = st" "sw_max_requests (new_sliding_window st m d) = m"
  "sw_window_duration (new_sliding_window st m d) = d"
  by (simp_all add: new_sliding_window_def)

lemma sws_update: "s\<lparr>sws_timestamps := ts\<rparr> = \<lparr>sws_timestamps = ts\<rparr>"
  by (cases s) simp

section \<open>The state's text\<close>

lemma sw_json_ok: "json_ok 0 (sw_json s)"
  by (simp add: sw_json_def max_depth_def plain_def list_all_iff)

lemma decode_elems_ints: "decode_elems (map (\<lambda>t. JNum (format_int t)) ts) old = (ts, True)"
  by (induction ts arbitrary: old) simp_all

lemma sw_unmarshal [simp]: "unmarshal sw_decode (json_print (sw_json s)) z = (s, None)"
  by (rule unmarshal_print [OF sw_json_ok])
    (simp add: sw_decode_def sw_json_def find_field_def on_field_def decode_elems_ints)

lemma sw_text_not_Nil [simp]: "json_print (sw_json s) \<noteq> []"
  by (simp only: sw_json_def json_print_Obj_not_Nil not_False_eq_True)

section \<open>The specification\<close>

definition log_step :: "int \<Rightarrow> int \<Rightarrow> int \<Rightarrow> int list \<Rightarrow> bool \<times> int list" where
  "log_step m d t h =
     (let ok = int (length (filter (\<lambda>x. t - d < x) h)) < m in (ok, if ok then h @ [t] else h))"

lemma log_step_fst: "fst (log_step m d t h) \<longleftrightarrow> int (length (filter (\<lambda>x. t - d < x) h)) < m"
  and log_step_snd: "snd (log_step m d t h) = (if fst (log_step m d t h) then h @ [t] else h)"
  by (simp_all add: log_step_def Let_def)

text \<open>Among the stamps logged up to \<open>t\<close>, no window of length \<open>d\<close> has more than \<open>m\<close>.\<close>

definition log_ok :: "int \<Rightarrow> int \<Rightarrow> int list \<Rightarrow> bool" where
  "log_ok m d h \<longleftrightarrow> sorted h \<and> (\<forall>a. int (length (filter (\<lambda>x. a < x \<and> x \<le> a + d) h)) \<le> m)"

lemma log_ok_step:
  assumes "log_ok m d h" and "\<forall>x \<in> set h. x \<le> t" and "0 \<le> d"
  shows "log_ok m d (snd (log_step m d t h))"
proof (cases "int (length (filter (\<lambda>x. t - d < x) h)) < m")
  case True
  have "int (length (filter (\<lambda>x. a < x \<and> x \<le> a + d) (h @ [t]))) \<le> m" for a
  proof (cases "a < t \<and> t \<le> a + d")
    case in_a: True
    have "length (filter (\<lambda>x. a < x \<and> x \<le> a + d) h) \<le> length (filter (\<lambda>x. t - d < x) h)"
      using in_a assms(2) by (intro length_filter_mono) auto
    with True in_a show ?thesis by simp
  next
    case False
    with assms(1) show ?thesis by (auto simp: log_ok_def)
  qed
  with True assms show ?thesis by (auto simp: log_step_def log_ok_def sorted_append)
next
  case False
  with assms show ?thesis by (simp add: log_step_def)
qed

section \<open>The code implements the specification\<close>

abbreviation stamps :: "int list \<Rightarrow> int64 list" where
  "stamps \<equiv> map word_of_int"

abbreviation sw_text :: "int list \<Rightarrow> string" where
  "sw_text ts \<equiv> json_print (sw_json \<lparr>sws_timestamps = stamps ts\<rparr>)"

lemma sw_valid_from_stamps:
  assumes "\<forall>x \<in> set ts. in_i64 x" and "sorted ts"
  shows "sw_valid_from ws (stamps ts) = stamps (filter (\<lambda>x. sint ws < x) ts)"
  using assms
proof (induction ts)
  case (Cons x xs)
  show ?case
  proof (cases "sint ws < x")
    case True
    with Cons.prems have "filter ((<) (sint ws)) xs = xs" by (intro filter_True) auto
    with True Cons.prems show ?thesis by (simp add: sless_i64 sint_of_int_i64)
  next
    case False
    with Cons show ?thesis by (simp add: sless_i64 sint_of_int_i64)
  qed
qed simp

text \<open>
  The log \<open>h\<close> and the stored stamps: those of the window that ended at some instant \<open>u\<close> since the
  last call. They are in the store until \<open>u + d\<close> and 999 ms, when none of them is live.
\<close>

definition sw_rel ::
    "('s \<Rightarrow> gotime \<Rightarrow> string \<Rightarrow> string) \<Rightarrow> int64 \<Rightarrow> int64 \<Rightarrow> string \<Rightarrow> 's world \<Rightarrow> int list \<Rightarrow> bool" where
  "sw_rel lookup m d key w h \<longleftrightarrow> in_range (w_clock w) m d \<and> log_ok (sint m) (sint d) h \<and>
     (\<forall>x \<in> set h. 0 \<le> x \<and> x \<le> t_wall (now w)) \<and>
     (h = [] \<and> tracks lookup w (sw_state_key key) [] 0 \<or>
      (\<exists>u \<le> t_wall (now w). (\<forall>x \<in> set h. x \<le> u) \<and>
        tracks lookup w (sw_state_key key) (sw_text (filter (\<lambda>x. u - sint d < x) h))
          (u + sint d + 999000000)))"

lemma sw_rel_quiet:
  assumes "quiet lookup (sw_state_key key) g" and "sw_rel lookup m d key w h"
  shows "sw_rel lookup m d key (g w) h"
proof -
  have c: "steady (w_clock w)" using assms(2) in_rangeD(1) by (auto simp: sw_rel_def)
  have g: "w_clock (g w) = w_clock w" "w_reads w \<le> w_reads (g w)" using quiet_world [OF assms(1) c] by auto
  then have "t_wall (now w) \<le> t_wall (now (g w))" using c by (simp add: now_def steady_mono)
  with assms(2) show ?thesis
    unfolding sw_rel_def g by (meson order_trans quiet_tracks [OF assms(1) c])
qed

lemma sw_rel_live:
  assumes rel: "sw_rel lookup m d key w h"
    and str: "str = lookup (w_store w) (now (tick w)) (sw_state_key key)"
  shows "sw_valid_from (unix_nano (now w) - d) (sws_timestamps (sw_current str)) =
    stamps (filter (\<lambda>x. t_wall (now w) - sint d < x) h)"
proof -
  let ?t = "t_wall (now w)"
  have rng: "in_range (w_clock w) m d" using rel by (simp add: sw_rel_def)
  note r = in_rangeD [OF rng]
  have t: "0 \<le> ?t" "?t + sint d < 9223372036854775808" "t_wall (now (tick w)) \<le> ?t + 999000000"
    using r(4) [of "w_reads w"] r(5) [of "w_reads w"] r(6) [of "w_reads w"] by (simp_all add: now_def tick_def)
  have ws: "sint (unix_nano (now w) - d) = ?t - sint d"
    using t r(3) in_range_nano [OF rng, of "w_reads w"]
    by (simp add: sint_sub_i64 in_i64_def now_def)
  have h: "sorted h" "\<forall>x \<in> set h. 0 \<le> x \<and> x \<le> ?t" using rel by (auto simp: sw_rel_def log_ok_def)
  consider (fresh) "h = []" "str = []"
    | (gone) "str = []" "\<forall>x \<in> set h. x \<le> ?t - sint d"
    | (kept) u where "u \<le> ?t" "str = sw_text (filter (\<lambda>x. u - sint d < x) h)"
  proof (cases "h = [] \<and> tracks lookup w (sw_state_key key) [] 0")
    case True
    then show ?thesis
      using that(1) str tracks_now [OF tracks_skip [of lookup w _ _ _ 1]] by (fastforce simp: tick_skip)
  next
    case False
    then obtain u where u: "u \<le> ?t" "\<forall>x \<in> set h. x \<le> u"
      "tracks lookup w (sw_state_key key) (sw_text (filter (\<lambda>x. u - sint d < x) h)) (u + sint d + 999000000)"
      using rel by (auto simp: sw_rel_def)
    from tracks_now [OF tracks_skip [OF u(3), of 1]] show ?thesis
    proof
      assume "lookup (w_store (skip 1 w)) (now (skip 1 w)) (sw_state_key key) = sw_text (filter (\<lambda>x. u - sint d < x) h)"
      then show ?thesis using that(3) [of u] u str by (simp add: tick_skip)
    next
      assume "lookup (w_store (skip 1 w)) (now (skip 1 w)) (sw_state_key key) = [] \<and>
        u + sint d + 999000000 \<le> t_wall (now (skip 1 w))"
      then show ?thesis using that(2) u str t(3) by (force simp: tick_skip)
    qed
  qed
  then show ?thesis
  proof cases
    case fresh
    then show ?thesis by (simp add: sw_current_def)
  next
    case gone
    then show ?thesis by (auto simp: sw_current_def intro!: filter_False)
  next
    case kept
    have "filter (\<lambda>x. ?t - sint d < x) (filter (\<lambda>x. u - sint d < x) h) = filter (\<lambda>x. ?t - sint d < x) h"
      using kept(1) by (auto intro: filter_cong)
    moreover have "\<forall>x \<in> set h. in_i64 x" using h(2) t r(3) by (fastforce simp: in_i64_def)
    ultimately show ?thesis
      using h(1) by (simp add: kept(2) sw_current_def sw_valid_from_stamps sorted_filter [of id, simplified] ws)
  qed
qed

lemma log_ok_live: "log_ok m d h \<Longrightarrow> \<forall>x \<in> set h. x \<le> t \<Longrightarrow> int (length (filter (\<lambda>x. t - d < x) h)) \<le> m"
proof -
  assume "log_ok m d h" and "\<forall>x \<in> set h. x \<le> t"
  then have "int (length (filter (\<lambda>x. t - d < x \<and> x \<le> t - d + d) h)) \<le> m" unfolding log_ok_def by blast
  moreover have "filter (\<lambda>x. t - d < x \<and> x \<le> t - d + d) h = filter (\<lambda>x. t - d < x) h"
    using \<open>\<forall>x \<in> set h. x \<le> t\<close> by (intro filter_cong) auto
  ultimately show ?thesis by simp
qed

lemma log_step_stamps:
  assumes "0 \<le> m" and "0 < d \<or> m = 0" and "\<forall>x \<in> set h. x \<le> t"
  shows "filter (\<lambda>x. t - d < x) (snd (log_step m d t h)) =
    (if fst (log_step m d t h) then filter (\<lambda>x. t - d < x) h @ [t] else filter (\<lambda>x. t - d < x) h)"
  using assms by (auto simp: log_step_def Let_def)

text \<open>A call between its halves: the new state, computed from a reading of the clock that has passed.\<close>

definition sw_due :: "int64 \<Rightarrow> int64 \<Rightarrow> 's world \<Rightarrow> int list \<Rightarrow> sliding_window_state \<Rightarrow> bool" where
  "sw_due m d w h state \<longleftrightarrow> in_range (w_clock w) m d \<and> log_ok (sint m) (sint d) h \<and>
     (\<exists>u \<le> t_wall (now w). (\<forall>x \<in> set h. 0 \<le> x \<and> x \<le> u) \<and>
       state = \<lparr>sws_timestamps = stamps (filter (\<lambda>x. u - sint d < x) h)\<rparr>)"

lemma sw_due_later:
  assumes "sw_due m d w h state" and "w_clock w' = w_clock w" and "w_reads w \<le> w_reads w'"
  shows "sw_due m d w' h state"
proof -
  have "t_wall (now w) \<le> t_wall (now w')"
    using assms in_rangeD(1) by (auto simp: sw_due_def now_def intro!: steady_mono)
  with assms show ?thesis unfolding sw_due_def by (metis order_trans)
qed

context string_store
begin

lemma sw_read_step:
  assumes rel: "sw_rel lookup m d key w h" and "0 < sint d"
  obtains w1 state where "sw_read (new_sliding_window st m d) key w =
      (Inr (fst (log_step (sint m) (sint d) (t_wall (now w)) h), state), w1)"
    and "sw_due m d w1 (snd (log_step (sint m) (sint d) (t_wall (now w)) h)) state"
    and "w_clock w1 = w_clock w" and "w_reads w \<le> w_reads w1"
proof -
  let ?sw = "new_sliding_window st m d" and ?k = "sw_state_key key" and ?t = "t_wall (now w)"
  have rng: "in_range (w_clock w) m d" and log: "log_ok (sint m) (sint d) h"
    and h: "\<forall>x \<in> set h. 0 \<le> x \<and> x \<le> ?t"
    using rel by (simp_all add: sw_rel_def)
  note r = in_rangeD [OF rng]
  obtain str w1 where get: "st_get st ?k (tick w) = (Inr str, w1)"
    and str: "str = lookup (w_store w) (now (tick w)) ?k"
    using get_cases [of ?k "tick w"] by (metis world_simps(4))
  have w1: "w_clock w1 = w_clock w" "w_reads w \<le> w_reads w1" using get_world [OF get] by simp_all
  obtain ok h' where step: "log_step (sint m) (sint d) ?t h = (ok, h')" by (meson surj_pair)
  let ?live = "filter (\<lambda>x. ?t - sint d < x) h"
  note live = sw_rel_live [OF rel str]
  have "int (length ?live) \<le> sint m" using log_ok_live [OF log] h by blast
  then have ok: "word_of_nat (length ?live) <s m \<longleftrightarrow> ok"
    using step sint_upper [of m] sint_of_int_i64 [of "int (length ?live)"]
    by (auto simp: sless_i64 log_step_def Let_def in_i64_def)
  have new: "filter (\<lambda>x. ?t - sint d < x) h' = (if ok then ?live @ [?t] else ?live)"
    using log_step_stamps [OF r(2), of "sint d" h ?t] assms(2) h by (simp add: step)
  let ?state = "\<lparr>sws_timestamps = stamps (filter (\<lambda>x. ?t - sint d < x) h')\<rparr>"
  have read: "sw_read ?sw key w = (Inr (ok, ?state), w1)"
    by (simp add: sw_read_def Let_def get live ok new sws_update unix_nano_def [symmetric] split: if_splits)
  have "set h' \<subseteq> insert ?t (set h)" using step by (auto simp: log_step_def Let_def split: if_splits)
  then have "\<forall>x \<in> set h'. 0 \<le> x \<and> x \<le> ?t" using h r(4) by (auto simp: now_def)
  moreover have "log_ok (sint m) (sint d) h'"
    using log_ok_step [OF log, of ?t] h r(3) step by (metis snd_conv)
  moreover have "?t \<le> t_wall (now w1)" using w1 r(1) by (simp add: now_def steady_mono)
  ultimately have "sw_due m d w1 h' ?state" using rng w1 unfolding sw_due_def by auto
  with read w1 show thesis using that by (simp add: step)
qed

lemma sw_write_step:
  assumes due: "sw_due m d w h state"
  obtains w' where "sw_write (new_sliding_window st m d) key (ok, state) w = ((ok, None), w')"
    and "sw_rel lookup m d key w' h" and "w_clock w' = w_clock w" and "w_reads w \<le> w_reads w'"
proof -
  let ?sw = "new_sliding_window st m d" and ?k = "sw_state_key key"
  obtain u where rng: "in_range (w_clock w) m d" and log: "log_ok (sint m) (sint d) h"
    and u: "u \<le> t_wall (now w)" "\<forall>x \<in> set h. 0 \<le> x \<and> x \<le> u"
    and state: "state = \<lparr>sws_timestamps = stamps (filter (\<lambda>x. u - sint d < x) h)\<rparr>"
    using due unfolding sw_due_def by blast
  note r = in_rangeD [OF rng]
  let ?txt = "sw_text (filter (\<lambda>x. u - sint d < x) h)"
  obtain w' where set: "st_set st ?k ?txt (d + second) w = (None, w')" using set_ok by blast
  have w': "w_clock w' = w_clock w" "w_reads w \<le> w_reads w'" using set_world(2,3) [OF set] by simp_all
  have t: "u \<le> t_wall (now w')" using u(1) w' steady_mono [OF r(1) w'(2)] by (simp add: now_def)
  have "sint (d + second) = sint d + 1000000000"
    using r(3) r(4,5) [of 0] by (simp add: sint_add_i64 in_i64_def)
  then have "stored lookup w' ?k ?txt (t_wall (now w) + (sint d + 1000000000) - 1000000)"
    using set_stored [OF set] r(1,3) by simp
  then have tracks: "tracks lookup w' ?k ?txt (u + sint d + 999000000)"
    using u(1) by (elim stored_tracks) simp
  have "\<forall>x \<in> set h. 0 \<le> x \<and> x \<le> t_wall (now w')" using u(2) t by force
  then have "sw_rel lookup m d key w' h"
    unfolding sw_rel_def w' using rng log u(2) tracks t by blast
  moreover have "sw_write ?sw key (ok, state) w = ((ok, None), w')"
    using set by (simp add: sw_write_def sw_marshal_def state)
  ultimately show thesis using that w' by simp
qed

lemma sw_allow_step:
  assumes rel: "sw_rel lookup m d key w h" and "0 < sint d"
  shows "fst (sw_allow (new_sliding_window st m d) key w) =
      (fst (log_step (sint m) (sint d) (t_wall (now w)) h), None) \<and>
    sw_rel lookup m d key (snd (sw_allow (new_sliding_window st m d) key w))
      (snd (log_step (sint m) (sint d) (t_wall (now w)) h))"
proof (rule sw_read_step [OF assms])
  fix w1 state
  let ?r = "log_step (sint m) (sint d) (t_wall (now w)) h"
  assume read: "sw_read (new_sliding_window st m d) key w = (Inr (fst ?r, state), w1)"
    and due: "sw_due m d w1 (snd ?r) state"
  show ?thesis
    by (rule sw_write_step [OF due, of key "fst ?r"]) (simp add: sw_allow_steps read)
qed

lemma sw_refines:
  assumes "in_range (w_clock w) m d" and "0 < sint d"
    and "\<forall>g \<in> set gs. quiet lookup (sw_state_key key) g"
    and "\<forall>i \<ge> w_reads w. lookup (w_store w) (w_clock w i) (sw_state_key key) = []"
  shows "call_seq (sw_allow (new_sliding_window st m d) key) gs w =
    map (\<lambda>(t, ok). (t, ok, None)) (spec_seq (log_step (sint m) (sint d)) []
      (map fst (call_seq (sw_allow (new_sliding_window st m d) key) gs w)))"
proof (rule call_seq_refines [where R = "sw_rel lookup m d key"])
  show "sw_rel lookup m d key w []"
    using assms in_rangeD [OF assms(1)] by (simp add: sw_rel_def log_ok_def tracks_def)
next
  show "sw_rel lookup m d key (g w) h" if "g \<in> set gs" "sw_rel lookup m d key w h" for g w h
    using assms(3) that sw_rel_quiet by blast
qed (rule sw_allow_step [OF _ assms(2)])

end

section \<open>Properties\<close>

lemma log_run_bound:
  assumes "log_ok m d h" and "sorted ts" and "\<forall>t \<in> set ts. \<forall>x \<in> set h. x \<le> t" and "0 \<le> d"
  shows "int (length (filter (\<lambda>x. a < x \<and> x \<le> a + d) h)) +
    int (allowed_between (a + 1) (a + d + 1) (spec_seq (log_step m d) h ts)) \<le> m"
  using assms
proof (induction ts arbitrary: h)
  case Nil
  then show ?case by (simp add: log_ok_def)
next
  case (Cons t ts)
  have "log_ok m d (snd (log_step m d t h))" using Cons.prems by (intro log_ok_step) auto
  moreover have "\<forall>u \<in> set ts. \<forall>x \<in> set (snd (log_step m d t h)). x \<le> u"
    using Cons.prems by (auto simp: log_step_def Let_def)
  ultimately have "int (length (filter (\<lambda>x. a < x \<and> x \<le> a + d) (snd (log_step m d t h)))) +
      int (allowed_between (a + 1) (a + d + 1) (spec_seq (log_step m d) (snd (log_step m d t h)) ts)) \<le> m"
    using Cons.prems Cons.IH by simp
  then show ?case by (auto simp: log_step_snd split: if_splits)
qed

lemma log_run_nth:
  assumes "sorted ts" and "i < length ts"
  shows "snd (spec_seq (log_step m d) h ts ! i) \<longleftrightarrow>
    int (length (filter (\<lambda>x. ts ! i - d < x) h)) +
    int (allowed_between (ts ! i - d + 1) (ts ! i + 1) (take i (spec_seq (log_step m d) h ts))) < m"
  using assms
proof (induction ts arbitrary: h i)
  case (Cons t ts)
  show ?case
  proof (cases i)
    case 0
    then show ?thesis by (simp add: log_step_fst)
  next
    case (Suc j)
    with Cons.prems have "t \<le> ts ! j" by simp
    with Suc Cons.prems Cons.IH [of j "snd (log_step m d t h)"] show ?thesis
      by (auto simp: log_step_snd)
  qed
qed simp

lemma sw_keeps_clock:
  "keeps_clock (\<lambda>w. snd (sw_allow (new_sliding_window memory_ops m d) key w))"
  by (auto simp: keeps_clock_def sw_allow_def Let_def sw_marshal_def split_beta ms_set_def ms_get_def
      split: option.splits sum.splits)

lemma sliding_window_start:
  assumes "in_range c m d" and "0 < sint d" and "\<forall>g \<in> set gs. quiet ms_lookup (sw_state_key key) g"
    and "rs = call_seq (sw_allow (new_sliding_window memory_ops m d) key) gs (start_world c)"
  shows "rs = map (\<lambda>(t, ok). (t, ok, None)) (spec_seq (log_step (sint m) (sint d)) [] (map fst rs))"
    and "sorted (map fst rs)"
proof -
  show "rs = map (\<lambda>(t, ok). (t, ok, None)) (spec_seq (log_step (sint m) (sint d)) [] (map fst rs))"
    unfolding assms(4) using assms(1-3)
    by (intro mem.sw_refines) (simp_all add: ms_lookup_def new_memory_store_def)
  have "\<forall>g \<in> set gs. keeps_clock g" using assms(3) quiet_keeps_clock by blast
  from call_seq_sorted [OF sw_keeps_clock this] show "sorted (map fst rs)"
    unfolding assms(4) using in_rangeD(1) [OF assms(1)] by simp
qed

text \<open>
  C3: On a new in-memory store, with any activity on the other keys, cleanups and waiting between
  the calls, an \<open>Allow\<close> is allowed if and only if fewer than \<open>maxRequests\<close> of all the calls
  allowed before it are in the window that ends with it, and returns no error: neither dropping
  old stamps nor the expiration of the state is visible.
\<close>

theorem sliding_window_exact:
  assumes "in_range c m d" and "0 < sint d" and "\<forall>g \<in> set gs. quiet ms_lookup (sw_state_key key) g"
    and "rs = call_seq (sw_allow (new_sliding_window memory_ops m d) key) gs (start_world c)"
    and "i < length rs" and "rs ! i = (t, ok, e)"
  shows "e = None \<and> ok = (int (admitted (t - sint d + 1) (t + 1) (take i rs)) < sint m)"
proof -
  let ?sp = "spec_seq (log_step (sint m) (sint d)) [] (map fst rs)"
  note eq = sliding_window_start [OF assms(1-4)]
  have len: "i < length ?sp" using assms(5) by simp
  have "rs ! i = (case ?sp ! i of (t, ok) \<Rightarrow> (t, ok, None))"
    using arg_cong [OF eq(1), of "\<lambda>l. l ! i"] len by (simp only: nth_map)
  moreover have "take i rs = map (\<lambda>(t, ok). (t, ok, None)) (take i ?sp)"
    using arg_cong [OF eq(1), of "take i"] by (simp only: take_map)
  moreover have "map fst rs ! i = t" using assms(5,6) by simp
  ultimately show ?thesis
    using log_run_nth [OF eq(2), of i "sint m" "sint d" "[]"] assms(5,6) by (simp add: split_beta)
qed

text \<open>
  In any interval of the length of the window at most \<open>maxRequests\<close> calls on a key are
  allowed: the sliding window has no burst at a boundary.
\<close>

theorem sliding_window_bound:
  assumes "in_range c m d" and "0 < sint d" and "\<forall>g \<in> set gs. quiet ms_lookup (sw_state_key key) g"
    and "rs = call_seq (sw_allow (new_sliding_window memory_ops m d) key) gs (start_world c)"
  shows "int (admitted a (a + sint d) rs) \<le> sint m"
proof -
  note eq = sliding_window_start [OF assms]
  have "log_ok (sint m) (sint d) []" using in_rangeD(2) [OF assms(1)] by (simp add: log_ok_def)
  from log_run_bound [OF this eq(2), of "a - 1"] assms(2) show ?thesis
    by (subst eq(1)) simp
qed

definition smooth :: "(int \<times> bool \<times> go_error option) list" where
  "smooth = call_seq (sw_allow (new_sliding_window memory_ops 2 1000000000) ''u'')
     [skip 3, skip 6, skip 0, skip 0] (start_world (\<lambda>i. ramp_clock 0 100000000 (min i 100)))"

lemma smooth_eval:
  "smooth = [(300000000, True, None), (1100000000, True, None), (1400000000, True, None),
     (1700000000, False, None)]"
  by (simp add: smooth_def sw_allow_def sw_current_def sw_marshal_def sws_update run_defs)

theorem sliding_window_exact_witness: "admitted 700000001 1700000001 (take 3 smooth) = 2"
  using sliding_window_exact [OF in_range_plateau _ _ smooth_def, of 3] by (simp add: smooth_eval admitted_def)

theorem sliding_window_bound_witness:
  "int (admitted 1100000000 (1100000000 + 1000000000) smooth) \<le> 2"
  using sliding_window_bound [OF in_range_plateau _ _ smooth_def, of 1100000000] by simp

text \<open>
  A stored log of time stamps is read back as it was written, whatever its length, and a
  text that is no log counts as an empty one.
\<close>

theorem sliding_window_roundtrip:
  "(\<exists>text. sw_marshal s = Inr text \<and> sw_current text = s) \<and>
   (snd (unmarshal sw_decode bad \<lparr>sws_timestamps = []\<rparr>) = None \<or> sw_current bad = \<lparr>sws_timestamps = []\<rparr>)"
  by (auto simp: sw_marshal_def sw_current_def split_beta split: option.splits)

end
