(* ===== verification/LeakyBucket.thy ===== *)
theory LeakyBucket
  imports FixedWindow
begin

text \<open>
  The leaky-bucket limiter, \<open>internal/limiter/leaky_bucket.go\<close>: a count of requests that leaks
  \<open>leakRate\<close> every \<open>leakInterval\<close>. \<open>Allow\<close> divides by the interval and panics where it is 0.

  The specification \<open>leak_step\<close> is the same step on unbounded integers. The lemmas show the
  bound on what is allowed, that a client which leaves an interval between its requests is
  never refused, and that one which does not is never allowed again: \<open>Allow\<close> moves the time of
  the last leak to the present even where no interval has passed.
\<close>

record 's leaky_bucket =
  lb_store :: "'s store_ops"
  lb_bucket_capacity :: int64
  lb_leak_rate :: int64
  lb_leak_interval :: int64

record leaky_bucket_state =
  lbs_count :: int64
  lbs_last_leak_time :: int64

definition new_leaky_bucket :: "'s store_ops \<Rightarrow> int64 \<Rightarrow> int64 \<Rightarrow> int64 \<Rightarrow> 's leaky_bucket" where
  "new_leaky_bucket store bucketCapacity leakRate leakInterval =
     \<lparr>lb_store = store, lb_bucket_capacity = bucketCapacity, lb_leak_rate = leakRate,
      lb_leak_interval = leakInterval\<rparr>"

definition lb_state_key :: "string \<Rightarrow> string" where
  "lb_state_key key = ''limiter:leaky_bucket:'' @ key"

definition lb_decode :: "leaky_bucket_state decoder" where
  "lb_decode = decode_struct
     [(''count'', on_field lbs_count (\<lambda>x s. s\<lparr>lbs_count := x\<rparr>) decode_i64),
      (''last_leak_time'', on_field lbs_last_leak_time (\<lambda>x s. s\<lparr>lbs_last_leak_time := x\<rparr>) decode_i64)]"

definition lb_json :: "leaky_bucket_state \<Rightarrow> json" where
  "lb_json s = JObj [(''count'', JNum (format_int (lbs_count s))),
     (''last_leak_time'', JNum (format_int (lbs_last_leak_time s)))]"

definition lb_marshal :: "leaky_bucket_state \<Rightarrow> json_error + string" where
  "lb_marshal s = Inr (json_print (lb_json s))"

definition lb_current :: "int64 \<Rightarrow> string \<Rightarrow> leaky_bucket_state" where
  "lb_current t stateStr =
     (if stateStr \<noteq> [] then
        (case unmarshal lb_decode stateStr \<lparr>lbs_count = 0, lbs_last_leak_time = 0\<rparr> of
           (s, None) \<Rightarrow> s
         | (s, Some err) \<Rightarrow> \<lparr>lbs_count = 0, lbs_last_leak_time = t\<rparr>)
      else \<lparr>lbs_count = 0, lbs_last_leak_time = t\<rparr>)"

text \<open>The leak, for an interval that is not 0.\<close>

definition lb_leak :: "'s leaky_bucket \<Rightarrow> int64 \<Rightarrow> leaky_bucket_state \<Rightarrow> leaky_bucket_state" where
  "lb_leak lb t state =
     (let elapsed = t - lbs_last_leak_time state;
          intervalsElapsed = go_div elapsed (lb_leak_interval lb);
          tokensToLeak = intervalsElapsed * lb_leak_rate lb;
          count = lbs_count state - tokensToLeak;
          count = (if count <s 0 then 0 else count)
      in state\<lparr>lbs_count := count, lbs_last_leak_time := t\<rparr>)"

definition lb_allow ::
    "'s leaky_bucket \<Rightarrow> string \<Rightarrow> 's world \<Rightarrow> (bool \<times> go_error option) outcome \<times> 's world" where
  "lb_allow lb key w =
     (let stateKey = lb_state_key key;
          t = unix_nano (now w)
      in case st_get (lb_store lb) stateKey (tick w) of
        (Inl err, w) \<Rightarrow> (Returns (True, Some err), w)
      | (Inr stateStr, w) \<Rightarrow>
          if lb_leak_interval lb = 0 then (Panics DivideByZero, w)
          else
            (let state = lb_leak lb t (lb_current t stateStr);
                 allowed = lbs_count state <s lb_bucket_capacity lb;
                 state = (if allowed then state\<lparr>lbs_count := lbs_count state + 1\<rparr> else state)
             in case lb_marshal state of
               Inl err \<Rightarrow> (Returns (True, Some (ErrJson err)), w)
             | Inr stateJSON \<Rightarrow>
                 (case st_set (lb_store lb) stateKey stateJSON hours24 w of
                   (Some err, w) \<Rightarrow> (Returns (True, Some err), w)
                 | (None, w) \<Rightarrow> (Returns (allowed, None), w))))"

text \<open>The two halves of \<open>Allow\<close>, up to the answer of \<open>Get\<close> and from the call of \<open>Set\<close>.\<close>

definition lb_read ::
    "'s leaky_bucket \<Rightarrow> string \<Rightarrow> 's world \<Rightarrow> (go_error + bool \<times> leaky_bucket_state) outcome \<times> 's world" where
  "lb_read lb key w =
     (let stateKey = lb_state_key key;
          t = unix_nano (now w)
      in case st_get (lb_store lb) stateKey (tick w) of
        (Inl err, w) \<Rightarrow> (Returns (Inl err), w)
      | (Inr stateStr, w) \<Rightarrow>
          if lb_leak_interval lb = 0 then (Panics DivideByZero, w)
          else
            (let state = lb_leak lb t (lb_current t stateStr);
                 allowed = lbs_count state <s lb_bucket_capacity lb;
                 state = (if allowed then state\<lparr>lbs_count := lbs_count state + 1\<rparr> else state)
             in (Returns (Inr (allowed, state)), w)))"

definition lb_write ::
    "'s leaky_bucket \<Rightarrow> string \<Rightarrow> bool \<times> leaky_bucket_state \<Rightarrow> 's world \<Rightarrow> (bool \<times> go_error option) \<times> 's world" where
  "lb_write lb key p w = (case p of (allowed, state) \<Rightarrow>
     (case lb_marshal state of
        Inl err \<Rightarrow> ((True, Some (ErrJson err)), w)
      | Inr stateJSON \<Rightarrow>
          (case st_set (lb_store lb) (lb_state_key key) stateJSON hours24 w of
            (Some err, w) \<Rightarrow> ((True, Some err), w)
          | (None, w) \<Rightarrow> ((allowed, None), w))))"

lemma lb_allow_steps:
  "lb_allow lb key w = (case lb_read lb key w of
      (Panics p, w) \<Rightarrow> (Panics p, w)
    | (Returns (Inl err), w) \<Rightarrow> (Returns (True, Some err), w)
    | (Returns (Inr p), w) \<Rightarrow> (case lb_write lb key p w of (r, w) \<Rightarrow> (Returns r, w)))"
proof -
  obtain x w1 where "st_get (lb_store lb) (lb_state_key key) (tick w) = (x, w1)" by fastforce
  then show ?thesis
    by (cases x) (simp_all add: lb_allow_def lb_read_def lb_write_def Let_def split: sum.split prod.split option.split)
qed

definition lb_reset :: "'s leaky_bucket \<Rightarrow> string \<Rightarrow> 's world \<Rightarrow> go_error option \<times> 's world" where
  "lb_reset lb key w = (case st_delete (lb_store lb) (lb_state_key key) w of
      (Some err, w) \<Rightarrow> (Some (ErrWrap ''reset leaky bucket state'' err), w)
    | (None, w) \<Rightarrow> (None, w))"

definition lb_close :: "'s leaky_bucket \<Rightarrow> 's world \<Rightarrow> go_error option \<times> 's world" where
  "lb_close lb w = (None, w)"

lemma new_leaky_bucket_simps [simp]:
  "lb_store (new_leaky_bucket st m r d) = st" "lb_bucket_capacity (new_leaky_bucket st m r d) = m"
  "lb_leak_rate (new_leaky_bucket st m r d) = r" "lb_leak_interval (new_leaky_bucket st m r d) = d"
  by (simp_all add: new_leaky_bucket_def)

section \<open>The state's text\<close>

lemma lb_json_ok: "json_ok 0 (lb_json s)"
  by (simp add: lb_json_def max_depth_def plain_def)

lemma lb_unmarshal [simp]: "unmarshal lb_decode (json_print (lb_json s)) z = (s, None)"
  by (rule unmarshal_print [OF lb_json_ok])
    (simp add: lb_decode_def lb_json_def find_field_def on_field_def)

lemma lb_text_not_Nil [simp]: "json_print (lb_json s) \<noteq> []"
  by (simp only: lb_json_def json_print_Obj_not_Nil not_False_eq_True)

section \<open>The specification\<close>

lemma div_add_le: "0 < k \<Longrightarrow> a div k + b div k \<le> (a + b) div k" for k :: int
  using div_add1_eq [of a b k] pos_imp_zdiv_nonneg_iff [of k "a mod k + b mod k"] by simp

text \<open>A request at \<open>t\<close>, on a bucket that held \<open>c\<close> requests at \<open>u\<close>.\<close>

definition leak_step :: "int \<Rightarrow> int \<Rightarrow> int \<Rightarrow> int \<Rightarrow> int \<times> int \<Rightarrow> bool \<times> int \<times> int" where
  "leak_step cap rate ival t s =
     (let c = max 0 (fst s - (t - snd s) div ival * rate)
      in (c < cap, (if c < cap then c + 1 else c), t))"

lemma leak_step_time [simp]: "snd (snd (leak_step cap rate ival t s)) = t"
  by (simp add: leak_step_def Let_def)

lemma leak_step_count:
  assumes "0 \<le> fst s" and "fst s \<le> cap" and "0 \<le> rate" and "0 < ival" and "snd s \<le> t"
  shows "0 \<le> fst (snd (leak_step cap rate ival t s))"
    and "fst (snd (leak_step cap rate ival t s)) \<le> cap"
    and "(if fst (leak_step cap rate ival t s) then 1 else 0) \<le>
      fst (snd (leak_step cap rate ival t s)) - fst s + (t - snd s) div ival * rate"
proof -
  have "0 \<le> (t - snd s) div ival * rate" using assms by (simp add: pos_imp_zdiv_nonneg_iff)
  with assms show "0 \<le> fst (snd (leak_step cap rate ival t s))"
    "fst (snd (leak_step cap rate ival t s)) \<le> cap"
    "(if fst (leak_step cap rate ival t s) then 1 else 0) \<le>
      fst (snd (leak_step cap rate ival t s)) - fst s + (t - snd s) div ival * rate"
    by (auto simp: leak_step_def Let_def)
qed

text \<open>The requests allowed are the room in the bucket and what has leaked.\<close>

lemma leak_run_bound:
  assumes "sorted (snd s # ts)" and "0 \<le> fst s" and "fst s \<le> cap" and "0 \<le> rate" and "0 < ival"
    and "\<forall>t \<in> set ts. t \<le> u" and "snd s \<le> u"
  shows "int (length (filter snd (spec_seq (leak_step cap rate ival) s ts))) \<le>
    cap - fst s + (u - snd s) div ival * rate"
  using assms
proof (induction ts arbitrary: s)
  case Nil
  then show ?case by (simp add: pos_imp_zdiv_nonneg_iff)
next
  case (Cons t ts)
  let ?s' = "snd (leak_step cap rate ival t s)"
  have t: "snd s \<le> t" "t \<le> u" using Cons.prems by simp_all
  note st = leak_step_count [OF Cons.prems(2-5) t(1)]
  have "int (length (filter snd (spec_seq (leak_step cap rate ival) ?s' ts))) \<le>
      cap - fst ?s' + (u - t) div ival * rate"
    using Cons.IH [of ?s'] Cons.prems st by simp
  moreover have "(t - snd s) div ival + (u - t) div ival \<le> (u - snd s) div ival"
    using div_add_le [of ival "t - snd s" "u - t"] Cons.prems(5) by simp
  then have "(t - snd s) div ival * rate + (u - t) div ival * rate \<le> (u - snd s) div ival * rate"
    using Cons.prems(4) by (metis distrib_right mult_right_mono)
  ultimately show ?case using st(3) by auto
qed

section \<open>The code implements the specification\<close>

definition lb_state :: "int \<times> int \<Rightarrow> leaky_bucket_state" where
  "lb_state s = \<lparr>lbs_count = word_of_int (fst s), lbs_last_leak_time = word_of_int (snd s)\<rparr>"

text \<open>
  The range without wrap-around, over a run of less than a day, in which no state expires (the code
  stores it for 24 hours): the interval is not 0, and what leaks in a day fits an \<open>int64\<close>.
\<close>

definition lb_range :: "(nat \<Rightarrow> gotime) \<Rightarrow> int64 \<Rightarrow> int64 \<Rightarrow> int64 \<Rightarrow> bool" where
  "lb_range c cap rate ival \<longleftrightarrow> steady c \<and> 0 \<le> sint cap \<and> 0 \<le> sint rate \<and> 0 < sint ival \<and>
     (\<forall>i. t_wall (c i) < 2 ^ 63 \<and> t_wall (c i) \<le> t_wall (c 0) + 86399000000000) \<and>
     86400000000000 div sint ival * sint rate < 2 ^ 63"

lemma lb_rangeD:
  assumes "lb_range c cap rate ival"
  shows "steady c" and "0 \<le> sint cap" and "0 \<le> sint rate" and "0 < sint ival"
    and "\<And>i. 0 \<le> t_wall (c i)" and "\<And>i. t_wall (c i) < 9223372036854775808"
    and "\<And>i. t_wall (c i) \<le> t_wall (c 0) + 86399000000000"
    and "\<And>i. t_wall (c 0) \<le> t_wall (c i)"
  using assms steady_nonneg [of c] steady_mono [of c 0] by (auto simp: lb_range_def)

text \<open>
  The same for a clock of any length: what leaks is at most one request per nanosecond, and two
  readings in a row are less than a second apart.
\<close>

definition lb_params :: "(nat \<Rightarrow> gotime) \<Rightarrow> int64 \<Rightarrow> int64 \<Rightarrow> int64 \<Rightarrow> bool" where
  "lb_params c cap rate ival \<longleftrightarrow> steady c \<and> 0 \<le> sint cap \<and> 0 \<le> sint rate \<and> 0 < sint ival \<and> sint rate \<le> sint ival \<and>
     (\<forall>i. t_wall (c i) < 2 ^ 63 \<and> t_wall (c (Suc i)) \<le> t_wall (c i) + 999000000)"

lemma lb_paramsD:
  assumes "lb_params c cap rate ival"
  shows "steady c" and "0 \<le> sint cap" and "0 \<le> sint rate" and "0 < sint ival" and "sint rate \<le> sint ival"
    and "\<And>i. 0 \<le> t_wall (c i)" and "\<And>i. t_wall (c i) < 9223372036854775808"
    and "\<And>i. t_wall (c (Suc i)) \<le> t_wall (c i) + 999000000"
  using assms steady_nonneg [of c] by (auto simp: lb_params_def)

definition lb_inv :: "int \<Rightarrow> (nat \<Rightarrow> gotime) \<Rightarrow> int \<Rightarrow> int \<times> int \<Rightarrow> bool" where
  "lb_inv cap c t s \<longleftrightarrow> 0 \<le> fst s \<and> fst s \<le> cap \<and> t_wall (c 0) \<le> snd s \<and> snd s \<le> t"

lemma lb_elapsed:
  assumes "lb_range c cap rate ival" and "t_wall (c 0) \<le> u" and "u \<le> t_wall (c i)"
  shows "0 \<le> (t_wall (c i) - u) div sint ival * sint rate"
    and "(t_wall (c i) - u) div sint ival * sint rate < 9223372036854775808"
proof -
  note r = lb_rangeD [OF assms(1)]
  show "0 \<le> (t_wall (c i) - u) div sint ival * sint rate"
    using r(3,4) assms(3) by (simp add: pos_imp_zdiv_nonneg_iff)
  have "(t_wall (c i) - u) div sint ival \<le> 86400000000000 div sint ival"
    using r(4) r(7) [of i] assms(2) by (intro zdiv_mono1) simp_all
  then have "(t_wall (c i) - u) div sint ival * sint rate \<le> 86400000000000 div sint ival * sint rate"
    using r(3) by (rule mult_right_mono)
  with assms(1) show "(t_wall (c i) - u) div sint ival * sint rate < 9223372036854775808"
    by (simp add: lb_range_def)
qed

lemma lb_leak_state:
  assumes "0 \<le> sint rate" and "0 < sint ival" and "0 \<le> fst s" and "fst s \<le> sint cap"
    and "0 \<le> snd s" and "snd s \<le> t_wall t" and "t_wall t < 9223372036854775808"
    and "(t_wall t - snd s) div sint ival * sint rate < 9223372036854775808"
  shows "lb_leak (new_leaky_bucket st cap rate ival) (unix_nano t) (lb_state s) =
    lb_state (max 0 (fst s - (t_wall t - snd s) div sint ival * sint rate), t_wall t)"
proof -
  let ?t = "t_wall t" and ?u = "snd s"
  let ?n = "(?t - ?u) div sint ival"
  have n: "0 \<le> ?n * sint rate" using assms by (simp add: pos_imp_zdiv_nonneg_iff)
  have u: "sint (word_of_int ?u :: int64) = ?u" "sint (unix_nano t) = ?t"
    using assms by (simp_all add: sint_of_int_i64 sint_unix_nano in_i64_def)
  have el: "sint (unix_nano t - word_of_int ?u) = ?t - ?u"
    using assms by (simp add: sint_sub_i64 u in_i64_def)
  have iv: "sint (go_div (unix_nano t - word_of_int ?u) ival) = ?n"
    using assms by (simp add: sint_go_div el)
  have leak: "sint (go_div (unix_nano t - word_of_int ?u) ival * rate) = ?n * sint rate"
    using n assms(8) by (simp add: sint_mult_i64 iv in_i64_def)
  have cnt: "sint (word_of_int (fst s) :: int64) = fst s"
    using assms sint_upper [of cap] by (simp add: sint_of_int_i64 in_i64_def)
  have rest: "sint (word_of_int (fst s) - go_div (unix_nano t - word_of_int ?u) ival * rate) =
      fst s - ?n * sint rate"
    using assms sint_upper [of cap] n by (simp add: sint_sub_i64 leak cnt in_i64_def)
  then have "word_of_int (fst s) - go_div (unix_nano t - word_of_int ?u) ival * rate =
      word_of_int (fst s - ?n * sint rate)"
    by (rule sint_eqD)
  with rest show ?thesis
    by (auto simp: lb_leak_def lb_state_def Let_def sless_i64 unix_nano_def max_def)
qed

text \<open>The relation between the world and the specification.\<close>

definition lb_rel ::
    "('s \<Rightarrow> gotime \<Rightarrow> string \<Rightarrow> string) \<Rightarrow> int64 \<Rightarrow> int64 \<Rightarrow> int64 \<Rightarrow> string \<Rightarrow> 's world \<Rightarrow> int \<times> int \<Rightarrow> bool" where
  "lb_rel lookup cap rate ival key w s \<longleftrightarrow> lb_range (w_clock w) cap rate ival \<and>
     lb_inv (sint cap) (w_clock w) (t_wall (now w)) s \<and>
     (holds lookup w (lb_state_key key) (json_print (lb_json (lb_state s))) \<or>
      s = (0, t_wall (w_clock w 0)) \<and> holds lookup w (lb_state_key key) [])"

lemma lb_rel_quiet:
  assumes "quiet lookup (lb_state_key key) g" and "lb_rel lookup cap rate ival key w s"
  shows "lb_rel lookup cap rate ival key (g w) s"
proof -
  have c: "steady (w_clock w)" using assms(2) lb_rangeD(1) by (auto simp: lb_rel_def)
  have g: "w_clock (g w) = w_clock w" "w_reads w \<le> w_reads (g w)" using quiet_world [OF assms(1) c] by auto
  then have "t_wall (now w) \<le> t_wall (now (g w))" using c by (simp add: now_def steady_mono)
  with assms(2) show ?thesis
    by (auto simp: lb_rel_def g lb_inv_def intro: quiet_holds [OF assms(1) c])
qed

text \<open>
  What a call needs: the text of the state, or nothing where the bucket is empty, at the reading of
  the store, and that what leaks before it fits an \<open>int64\<close>.
\<close>

definition lb_seen ::
    "('s \<Rightarrow> gotime \<Rightarrow> string \<Rightarrow> string) \<Rightarrow> int64 \<Rightarrow> int64 \<Rightarrow> int64 \<Rightarrow> string \<Rightarrow> 's world \<Rightarrow> int \<times> int \<Rightarrow> bool" where
  "lb_seen lookup cap rate ival key w s \<longleftrightarrow> 0 \<le> sint rate \<and> 0 < sint ival \<and> 0 \<le> fst s \<and> fst s \<le> sint cap \<and>
     0 \<le> snd s \<and> snd s \<le> t_wall (now w) \<and> t_wall (now w) < 9223372036854775808 \<and>
     (t_wall (now w) - snd s) div sint ival * sint rate < 9223372036854775808 \<and>
     (lookup (w_store w) (now (tick w)) (lb_state_key key) = json_print (lb_json (lb_state s)) \<or>
      fst s = 0 \<and> lookup (w_store w) (now (tick w)) (lb_state_key key) = [])"

lemma lb_rel_seen:
  assumes "lb_rel lookup cap rate ival key w s"
  shows "lb_seen lookup cap rate ival key w s"
proof -
  have rng: "lb_range (w_clock w) cap rate ival" and inv: "lb_inv (sint cap) (w_clock w) (t_wall (now w)) s"
    using assms by (simp_all add: lb_rel_def)
  note r = lb_rangeD [OF rng]
  have "lookup (w_store w) (now (tick w)) (lb_state_key key) = json_print (lb_json (lb_state s)) \<or>
      fst s = 0 \<and> lookup (w_store w) (now (tick w)) (lb_state_key key) = []"
    using assms holds_now [OF holds_skip [of lookup w _ _ 1]] by (fastforce simp: lb_rel_def tick_skip)
  then show ?thesis
    using lb_elapsed [OF rng, of "snd s" "w_reads w"] inv r(3,4) r(5) [of 0] r(6) [of "w_reads w"]
    by (auto simp: lb_seen_def lb_inv_def now_def)
qed

lemma lb_seen_leak:
  assumes seen: "lb_seen lookup cap rate ival key w s"
    and str: "str = lookup (w_store w) (now (tick w)) (lb_state_key key)"
  shows "lb_leak (new_leaky_bucket st cap rate ival) (unix_nano (now w)) (lb_current (unix_nano (now w)) str) =
    lb_state (max 0 (fst s - (t_wall (now w) - snd s) div sint ival * sint rate), t_wall (now w))"
proof -
  from seen str consider "str = json_print (lb_json (lb_state s))" | "fst s = 0" "str = []"
    by (auto simp: lb_seen_def)
  then show ?thesis
  proof cases
    case 1
    then show ?thesis using lb_leak_state [of rate ival s cap "now w" st] seen by (simp add: lb_current_def lb_seen_def)
  next
    case 2
    have "lb_leak (new_leaky_bucket st cap rate ival) (unix_nano (now w)) (lb_state (0, t_wall (now w))) =
        lb_state (0, t_wall (now w))"
      using lb_leak_state [of rate ival "(0, t_wall (now w))" cap "now w" st] seen by (simp add: lb_seen_def)
    moreover have "lb_current (unix_nano (now w)) str = lb_state (0, t_wall (now w))"
      using 2 by (simp add: lb_current_def lb_state_def unix_nano_def)
    moreover have "0 \<le> (t_wall (now w) - snd s) div sint ival * sint rate"
      using seen by (simp add: lb_seen_def pos_imp_zdiv_nonneg_iff)
    ultimately show ?thesis using 2 by (simp add: max_def)
  qed
qed

text \<open>A call between its halves: the new state, computed from a reading of the clock that has passed.\<close>

definition lb_due :: "int64 \<Rightarrow> int64 \<Rightarrow> int64 \<Rightarrow> 's world \<Rightarrow> int \<times> int \<Rightarrow> bool" where
  "lb_due cap rate ival w s \<longleftrightarrow> lb_range (w_clock w) cap rate ival \<and>
     lb_inv (sint cap) (w_clock w) (t_wall (now w)) s"

lemma lb_due_later:
  assumes "lb_due cap rate ival w s" and "w_clock w' = w_clock w" and "w_reads w \<le> w_reads w'"
  shows "lb_due cap rate ival w' s"
proof -
  have "t_wall (now w) \<le> t_wall (now w')"
    using assms lb_rangeD(1) by (auto simp: lb_due_def now_def intro!: steady_mono)
  with assms show ?thesis by (simp add: lb_due_def lb_inv_def)
qed

text \<open>
  On a clock of any length: the state a call left behind is there for 24 hours, less the millisecond
  of the contract, and if it has expired the next call takes the bucket as empty.
\<close>

definition lb_left ::
    "('s \<Rightarrow> gotime \<Rightarrow> string \<Rightarrow> string) \<Rightarrow> int64 \<Rightarrow> int64 \<Rightarrow> int64 \<Rightarrow> string \<Rightarrow> 's world \<Rightarrow> int \<times> int \<Rightarrow> bool" where
  "lb_left lookup cap rate ival key w s \<longleftrightarrow> lb_params (w_clock w) cap rate ival \<and> 0 \<le> fst s \<and> fst s \<le> sint cap \<and>
     0 \<le> snd s \<and> snd s \<le> t_wall (now w) \<and>
     (stored lookup w (lb_state_key key) (json_print (lb_json (lb_state s))) (snd s + 86399999000000) \<or>
      fst s = 0 \<and> holds lookup w (lb_state_key key) [])"

context string_store
begin

lemma lb_read_seen:
  assumes seen: "lb_seen lookup cap rate ival key w s"
  obtains w1 where "lb_read (new_leaky_bucket st cap rate ival) key w =
      (Returns (Inr (fst (leak_step (sint cap) (sint rate) (sint ival) (t_wall (now w)) s),
        lb_state (snd (leak_step (sint cap) (sint rate) (sint ival) (t_wall (now w)) s)))), w1)"
    and "w_clock w1 = w_clock w" and "w_reads w \<le> w_reads w1"
proof -
  let ?lb = "new_leaky_bucket st cap rate ival" and ?k = "lb_state_key key" and ?t = "t_wall (now w)"
  obtain str w1 where get: "st_get st ?k (tick w) = (Inr str, w1)"
    and str: "str = lookup (w_store w) (now (tick w)) ?k"
    using get_cases [of ?k "tick w"] by (metis world_simps(4))
  have w1: "w_clock w1 = w_clock w" "w_reads w \<le> w_reads w1" using get_world [OF get] by simp_all
  obtain ok s' where step: "leak_step (sint cap) (sint rate) (sint ival) ?t s = (ok, s')" by (meson surj_pair)
  let ?c = "max 0 (fst s - (?t - snd s) div sint ival * sint rate)"
  have "0 \<le> (?t - snd s) div sint ival * sint rate" using seen by (simp add: lb_seen_def pos_imp_zdiv_nonneg_iff)
  then have c: "0 \<le> ?c" "?c \<le> sint cap" using seen by (simp_all add: lb_seen_def)
  have ok: "word_of_int ?c <s cap \<longleftrightarrow> ok" and s': "s' = (if ok then ?c + 1 else ?c, ?t)"
    using step c sint_upper [of cap] sint_of_int_i64 [of ?c]
    by (auto simp: sless_i64 leak_step_def Let_def in_i64_def)
  have cnt: "lbs_count (lb_state (?c, ?t)) = word_of_int ?c" by (simp add: lb_state_def)
  have new: "(if ok then (lb_state (?c, ?t))\<lparr>lbs_count := word_of_int ?c + 1\<rparr> else lb_state (?c, ?t)) = lb_state s'"
    by (simp add: s' lb_state_def wi_hom_syms)
  have "ival \<noteq> 0" using seen by (auto simp: lb_seen_def)
  then have "lb_read ?lb key w = (Returns (Inr (ok, lb_state s')), w1)"
    by (simp only: lb_read_def Let_def get new_leaky_bucket_simps prod.case sum.case if_False
        lb_seen_leak [OF seen str] cnt ok new)
  then show thesis using that w1 by (simp add: step)
qed

lemma lb_read_step:
  assumes rel: "lb_rel lookup cap rate ival key w s"
  obtains w1 where "lb_read (new_leaky_bucket st cap rate ival) key w =
      (Returns (Inr (fst (leak_step (sint cap) (sint rate) (sint ival) (t_wall (now w)) s),
        lb_state (snd (leak_step (sint cap) (sint rate) (sint ival) (t_wall (now w)) s)))), w1)"
    and "lb_due cap rate ival w1 (snd (leak_step (sint cap) (sint rate) (sint ival) (t_wall (now w)) s))"
    and "w_clock w1 = w_clock w" and "w_reads w \<le> w_reads w1"
proof (rule lb_read_seen [OF lb_rel_seen [OF rel]])
  fix w1
  let ?r = "leak_step (sint cap) (sint rate) (sint ival) (t_wall (now w)) s"
  assume read: "lb_read (new_leaky_bucket st cap rate ival) key w = (Returns (Inr (fst ?r, lb_state (snd ?r))), w1)"
    and w1: "w_clock w1 = w_clock w" "w_reads w \<le> w_reads w1"
  have rng: "lb_range (w_clock w) cap rate ival" and inv: "lb_inv (sint cap) (w_clock w) (t_wall (now w)) s"
    using rel by (simp_all add: lb_rel_def)
  note r = lb_rangeD [OF rng]
  have "t_wall (now w) \<le> t_wall (now w1)" using w1 r(1) by (simp add: now_def steady_mono)
  moreover have "0 \<le> fst (snd ?r)" "fst (snd ?r) \<le> sint cap"
    using leak_step_count(1,2) [of s "sint cap" "sint rate" "sint ival" "t_wall (now w)"] inv r(3,4) by (simp_all add: lb_inv_def)
  ultimately have "lb_due cap rate ival w1 (snd ?r)"
    using rng w1(1) r(8) [of "w_reads w"] by (simp add: lb_due_def lb_inv_def now_def)
  then show thesis using that [OF read _ w1] by simp
qed

lemma lb_write_stored:
  assumes "steady (w_clock w)"
  obtains w' where "lb_write (new_leaky_bucket st cap rate ival) key (ok, lb_state s) w = ((ok, None), w')"
    and "stored lookup w' (lb_state_key key) (json_print (lb_json (lb_state s))) (t_wall (now w) + sint hours24 - 1000000)"
    and "w_clock w' = w_clock w" and "w_reads w \<le> w_reads w'"
proof -
  let ?txt = "json_print (lb_json (lb_state s))"
  obtain w' where set: "st_set st (lb_state_key key) ?txt hours24 w = (None, w')" using set_ok by blast
  have "stored lookup w' (lb_state_key key) ?txt (t_wall (now w) + sint hours24 - 1000000)"
    using set_stored [OF set assms] by simp
  moreover have "lb_write (new_leaky_bucket st cap rate ival) key (ok, lb_state s) w = ((ok, None), w')"
    using set by (simp add: lb_write_def lb_marshal_def)
  ultimately show thesis using that set_world(2,3) [OF set] by simp
qed

lemma lb_write_step:
  assumes due: "lb_due cap rate ival w s"
  obtains w' where "lb_write (new_leaky_bucket st cap rate ival) key (ok, lb_state s) w = ((ok, None), w')"
    and "lb_rel lookup cap rate ival key w' s" and "w_clock w' = w_clock w" and "w_reads w \<le> w_reads w'"
proof -
  let ?txt = "json_print (lb_json (lb_state s))"
  have rng: "lb_range (w_clock w) cap rate ival" using due by (simp add: lb_due_def)
  note r = lb_rangeD [OF rng]
  obtain w' where wr: "lb_write (new_leaky_bucket st cap rate ival) key (ok, lb_state s) w = ((ok, None), w')"
    and st: "stored lookup w' (lb_state_key key) ?txt (t_wall (now w) + sint hours24 - 1000000)"
    and w': "w_clock w' = w_clock w" "w_reads w \<le> w_reads w'"
    by (rule lb_write_stored [OF r(1)])
  from st have "holds lookup w' (lb_state_key key) ?txt"
  proof (rule stored_holds)
    show "t_wall (w_clock w' i) \<le> t_wall (now w) + sint hours24 - 1000000" for i
      using r(7) [of i] r(8) [of "w_reads w"] w' by (simp add: now_def)
  qed
  moreover have "lb_due cap rate ival w' s" by (rule lb_due_later [OF due w'])
  ultimately have "lb_rel lookup cap rate ival key w' s" by (simp add: lb_rel_def lb_due_def)
  then show thesis using that wr w' by simp
qed

lemma lb_allow_step:
  assumes rel: "lb_rel lookup cap rate ival key w s"
  shows "fst (lb_allow (new_leaky_bucket st cap rate ival) key w) =
      Returns (fst (leak_step (sint cap) (sint rate) (sint ival) (t_wall (now w)) s), None) \<and>
    lb_rel lookup cap rate ival key (snd (lb_allow (new_leaky_bucket st cap rate ival) key w))
      (snd (leak_step (sint cap) (sint rate) (sint ival) (t_wall (now w)) s))"
proof (rule lb_read_step [OF rel])
  fix w1
  let ?r = "leak_step (sint cap) (sint rate) (sint ival) (t_wall (now w)) s"
  assume read: "lb_read (new_leaky_bucket st cap rate ival) key w = (Returns (Inr (fst ?r, lb_state (snd ?r))), w1)"
    and due: "lb_due cap rate ival w1 (snd ?r)"
  show ?thesis
    by (rule lb_write_step [OF due, of key "fst ?r"]) (simp add: lb_allow_steps read)
qed

lemma lb_refines:
  assumes "lb_range (w_clock w) cap rate ival"
    and "\<forall>g \<in> set gs. quiet lookup (lb_state_key key) g"
    and "\<forall>i \<ge> w_reads w. lookup (w_store w) (w_clock w i) (lb_state_key key) = []"
  shows "call_seq (lb_allow (new_leaky_bucket st cap rate ival) key) gs w =
    map (\<lambda>(t, ok). (t, Returns (ok, None)))
      (spec_seq (leak_step (sint cap) (sint rate) (sint ival)) (0, t_wall (w_clock w 0))
        (map fst (call_seq (lb_allow (new_leaky_bucket st cap rate ival) key) gs w)))"
proof (rule call_seq_refines [where R = "lb_rel lookup cap rate ival key"])
  show "lb_rel lookup cap rate ival key w (0, t_wall (w_clock w 0))"
    using assms lb_rangeD [OF assms(1)] by (simp add: lb_rel_def lb_inv_def holds_def now_def)
next
  show "lb_rel lookup cap rate ival key (g w) s" if "g \<in> set gs" "lb_rel lookup cap rate ival key w s" for g w s
    using assms(2) that lb_rel_quiet by blast
qed (rule lb_allow_step)

lemma lb_left_quiet:
  assumes "quiet lookup (lb_state_key key) g" and "lb_left lookup cap rate ival key w s"
  shows "lb_left lookup cap rate ival key (g w) s"
proof -
  have c: "steady (w_clock w)" using assms(2) lb_paramsD(1) by (auto simp: lb_left_def)
  have g: "w_clock (g w) = w_clock w" "w_reads w \<le> w_reads (g w)" using quiet_world [OF assms(1) c] by auto
  then have "t_wall (now w) \<le> t_wall (now (g w))" using c by (simp add: now_def steady_mono)
  with assms(2) show ?thesis
    by (auto simp: lb_left_def g intro: quiet_stored [OF assms(1) c] quiet_holds [OF assms(1) c])
qed

lemma lb_left_seen:
  assumes "lb_left lookup cap rate ival key w s"
  obtains x where "lb_seen lookup cap rate ival key w (x, snd s)"
    and "x = fst s \<or> snd s + 86399000000000 < t_wall (now w)"
proof -
  have rng: "lb_params (w_clock w) cap rate ival" and s: "0 \<le> fst s" "fst s \<le> sint cap" "0 \<le> snd s" "snd s \<le> t_wall (now w)"
    using assms by (simp_all add: lb_left_def)
  note r = lb_paramsD [OF rng]
  let ?look = "lookup (w_store w) (now (tick w)) (lb_state_key key)"
  have t: "t_wall (now w) < 9223372036854775808" "t_wall (now (tick w)) \<le> t_wall (now w) + 999000000"
    using r(7) [of "w_reads w"] r(8) [of "w_reads w"] by (simp_all add: now_def)
  have "(t_wall (now w) - snd s) div sint ival * sint rate \<le> (t_wall (now w) - snd s) div sint ival * sint ival"
    using r(4,5) s(4) by (intro mult_left_mono) (simp_all add: pos_imp_zdiv_nonneg_iff)
  also have "\<dots> \<le> t_wall (now w) - snd s"
    using r(4) by (metis div_mult_mod_eq add_le_same_cancel1 le_add_same_cancel1 pos_mod_sign)
  finally have fits: "(t_wall (now w) - snd s) div sint ival * sint rate < 9223372036854775808" using t(1) s(3) by simp
  have seen: "lb_seen lookup cap rate ival key w (x, snd s)"
    if "?look = json_print (lb_json (lb_state (x, snd s))) \<or> x = 0 \<and> ?look = []" "x = fst s \<or> x = 0" for x
    using that r(2-4) s t(1) fits by (auto simp: lb_seen_def)
  from assms consider "stored lookup w (lb_state_key key) (json_print (lb_json (lb_state s))) (snd s + 86399999000000)"
    | "fst s = 0" "holds lookup w (lb_state_key key) []" by (auto simp: lb_left_def)
  then show thesis
  proof cases
    case 1
    from stored_read [OF stored_skip [of lookup w _ _ _ 1, OF 1]]
    have "?look = json_print (lb_json (lb_state s)) \<or> ?look = [] \<and> snd s + 86399999000000 < t_wall (now (tick w))"
      by (simp add: tick_skip)
    then show thesis using that [OF seen, of "fst s"] that [OF seen, of 0] t(2) by auto
  next
    case 2
    then have "?look = []" using holds_now [OF holds_skip [of lookup w _ _ 1]] by (simp add: tick_skip)
    then show thesis using that [OF seen, of 0] 2(1) by simp
  qed
qed

lemma lb_allow_left:
  assumes "lb_left lookup cap rate ival key w s"
  obtains x s' where "0 \<le> x" and "x \<le> sint cap" and "x = fst s \<or> snd s + 86399000000000 < t_wall (now w)"
    and "s' = leak_step (sint cap) (sint rate) (sint ival) (t_wall (now w)) (x, snd s)"
    and "fst (lb_allow (new_leaky_bucket st cap rate ival) key w) = Returns (fst s', None)"
    and "lb_left lookup cap rate ival key (snd (lb_allow (new_leaky_bucket st cap rate ival) key w)) (snd s')"
proof -
  have rng: "lb_params (w_clock w) cap rate ival" and s: "0 \<le> snd s" "snd s \<le> t_wall (now w)"
    using assms by (simp_all add: lb_left_def)
  note r = lb_paramsD [OF rng]
  obtain x where x: "lb_seen lookup cap rate ival key w (x, snd s)" "x = fst s \<or> snd s + 86399000000000 < t_wall (now w)"
    by (rule lb_left_seen [OF assms]) simp
  let ?r = "leak_step (sint cap) (sint rate) (sint ival) (t_wall (now w)) (x, snd s)"
  obtain w1 where rd: "lb_read (new_leaky_bucket st cap rate ival) key w = (Returns (Inr (fst ?r, lb_state (snd ?r))), w1)"
    and w1: "w_clock w1 = w_clock w" "w_reads w \<le> w_reads w1"
    by (rule lb_read_seen [OF x(1)])
  have c: "steady (w_clock w1)" using r(1) w1 by simp
  obtain w' where wr: "lb_write (new_leaky_bucket st cap rate ival) key (fst ?r, lb_state (snd ?r)) w1 = ((fst ?r, None), w')"
    and st: "stored lookup w' (lb_state_key key) (json_print (lb_json (lb_state (snd ?r)))) (t_wall (now w1) + sint hours24 - 1000000)"
    and w': "w_clock w' = w_clock w1" "w_reads w1 \<le> w_reads w'"
    by (rule lb_write_stored [OF c])
  have le: "t_wall (now w) \<le> t_wall (now w1)" "t_wall (now w1) \<le> t_wall (now w')"
    using c w1 w' by (simp_all add: now_def steady_mono)
  have bounds: "0 \<le> x" "x \<le> sint cap" using x(1) by (simp_all add: lb_seen_def)
  have "0 \<le> fst (snd ?r)" "fst (snd ?r) \<le> sint cap"
    using leak_step_count(1,2) [of "(x, snd s)" "sint cap" "sint rate" "sint ival" "t_wall (now w)"] bounds r(3,4) s
    by simp_all
  moreover have "stored lookup w' (lb_state_key key) (json_print (lb_json (lb_state (snd ?r)))) (snd (snd ?r) + 86399999000000)"
    using st le(1) by (auto simp: stored_def hours24_def)
  ultimately have "lb_left lookup cap rate ival key w' (snd ?r)"
    using rng s le w1 w' by (simp add: lb_left_def)
  then show thesis using that [OF bounds x(2) refl] by (simp add: lb_allow_steps rd wr)
qed

end

section \<open>What the specification allows\<close>

lemma sorted_le_last: "sorted ts \<Longrightarrow> \<forall>x \<in> set ts. x \<le> last ts" for ts :: "int list"
  by (induction ts) auto

lemma leak_run_tail:
  assumes "sorted (snd s # ts)" and "0 \<le> fst s" and "fst s \<le> cap" and "0 \<le> rate" and "0 < ival"
    and "i < length ts"
  shows "int (length (filter snd (drop i (spec_seq (leak_step cap rate ival) s ts)))) \<le>
    cap + (last ts - ts ! i) div ival * rate"
  using assms
proof (induction ts arbitrary: s i)
  case (Cons t ts)
  let ?s' = "snd (leak_step cap rate ival t s)"
  have t: "snd s \<le> t" using Cons.prems(1) by simp
  note st = leak_step_count [OF Cons.prems(2-5) t]
  show ?case
  proof (cases i)
    case (Suc j)
    with Cons.prems Cons.IH [of ?s' j] st show ?thesis by auto
  next
    case 0
    have u: "\<forall>x \<in> set (t # ts). x \<le> last (t # ts)"
      using Cons.prems(1) by (intro sorted_le_last) simp
    have "int (length (filter snd (spec_seq (leak_step cap rate ival) ?s' ts))) \<le>
        cap - fst ?s' + (last (t # ts) - t) div ival * rate"
      using leak_run_bound [of ?s' ts cap rate ival "last (t # ts)"] Cons.prems st u by simp
    moreover have "(if fst (leak_step cap rate ival t s) then 1 else 0) \<le> fst ?s'"
      using Cons.prems by (auto simp: leak_step_def Let_def)
    ultimately show ?thesis by (auto simp: 0)
  qed
qed simp

fun gaps :: "(int \<Rightarrow> bool) \<Rightarrow> int list \<Rightarrow> bool" where
  "gaps P (t # u # ts) \<longleftrightarrow> P (u - t) \<and> gaps P (u # ts)"
| "gaps P _ \<longleftrightarrow> True"

section \<open>Properties\<close>

lemma lb_keeps_clock:
  "keeps_clock (\<lambda>w. snd (lb_allow (new_leaky_bucket memory_ops cap rate ival) key w))"
  by (auto simp: keeps_clock_def lb_allow_def Let_def lb_marshal_def split_beta ms_set_def ms_get_def
      split: option.splits sum.splits)

text \<open>The decisions of a run that neither fails nor panics.\<close>

definition granted :: "(int \<times> (bool \<times> go_error option) outcome) list \<Rightarrow> bool list" where
  "granted rs = map (\<lambda>(t, r). r = Returns (True, None)) rs"

lemma leaky_bucket_start:
  assumes "lb_range c cap rate ival" and "\<forall>g \<in> set gs. quiet ms_lookup (lb_state_key key) g"
    and "rs = call_seq (lb_allow (new_leaky_bucket memory_ops cap rate ival) key) gs (start_world c)"
  shows "rs = map (\<lambda>(t, ok). (t, Returns (ok, None)))
      (spec_seq (leak_step (sint cap) (sint rate) (sint ival)) (0, t_wall (c 0)) (map fst rs))"
    and "sorted (t_wall (c 0) # map fst rs)"
proof -
  show "rs = map (\<lambda>(t, ok). (t, Returns (ok, None)))
      (spec_seq (leak_step (sint cap) (sint rate) (sint ival)) (0, t_wall (c 0)) (map fst rs))"
    unfolding assms(3)
    using mem.lb_refines [of "start_world c" cap rate ival gs key] assms(1,2)
    by (simp add: ms_lookup_def new_memory_store_def)
  have "\<forall>g \<in> set gs. keeps_clock g" using assms(2) quiet_keeps_clock by blast
  from call_seq_sorted [OF lb_keeps_clock this, of "start_world c"]
  show "sorted (t_wall (c 0) # map fst rs)"
    unfolding assms(3) using lb_rangeD(1) [OF assms(1)] by (simp add: now_def)
qed

lemma granted_spec:
  "granted (map (\<lambda>(t, ok). (t, Returns (ok, None))) rs) = map snd rs"
  by (induction rs) (auto simp: granted_def)

text \<open>
  C22: On a new in-memory store with one steady clock, with any activity on the other keys and waiting
  between the calls, \<open>Allow\<close> decides at the beginning of each call as the leaky-bucket specification
  over unbounded integers does, and no call fails or panics. Assumed: the interval is positive, the
  capacity and the rate are not negative, what leaks in 24 hours fits an \<open>int64\<close>, and all readings of
  the clock lie within a day less a second (the code stores the state for 24 hours).
\<close>

theorem leaky_bucket_refines:
  assumes "lb_range c cap rate ival" and "\<forall>g \<in> set gs. quiet ms_lookup (lb_state_key key) g"
    and "rs = call_seq (lb_allow (new_leaky_bucket memory_ops cap rate ival) key) gs (start_world c)"
  shows "rs = map (\<lambda>(t, ok). (t, Returns (ok, None)))
      (spec_seq (leak_step (sint cap) (sint rate) (sint ival)) (0, t_wall (c 0)) (map fst rs))"
  by (rule leaky_bucket_start(1) [OF assms])

text \<open>
  From any call of a run on, at most \<open>bucketCapacity\<close> calls are allowed and \<open>leakRate\<close> more
  for each whole interval that passes up to the last call.
\<close>

theorem leaky_bucket_bound:
  assumes "lb_range c cap rate ival" and "\<forall>g \<in> set gs. quiet ms_lookup (lb_state_key key) g"
    and "rs = call_seq (lb_allow (new_leaky_bucket memory_ops cap rate ival) key) gs (start_world c)"
    and "i < length rs"
  shows "int (length (filter id (granted (drop i rs)))) \<le>
    sint cap + (fst (last rs) - fst (rs ! i)) div sint ival * sint rate"
proof -
  note r = lb_rangeD [OF assms(1)] and st = leaky_bucket_start [OF assms(1-3)]
  let ?sp = "spec_seq (leak_step (sint cap) (sint rate) (sint ival)) (0, t_wall (c 0)) (map fst rs)"
  have "granted (drop i rs) = map snd (drop i ?sp)"
    by (subst st(1)) (simp only: drop_map granted_spec)
  then have "length (filter id (granted (drop i rs))) = length (filter snd (drop i ?sp))"
    by (simp add: filter_map o_def)
  moreover have "last (map fst rs) = fst (last rs)" using assms(4) by (intro last_map) auto
  moreover have "map fst rs ! i = fst (rs ! i)" using assms(4) by simp
  ultimately show ?thesis
    using leak_run_tail [of "(0, t_wall (c 0))" "map fst rs" "sint cap" "sint rate" "sint ival" i] st(2) r(2-4) assms(4)
    by simp
qed

lemma lb_left_start:
  assumes "lb_params c cap rate ival"
  shows "lb_left ms_lookup cap rate ival key (start_world c) (0, t_wall (c 0))"
  using assms lb_paramsD [OF assms] by (simp add: lb_left_def holds_def now_def ms_lookup_def new_memory_store_def)

lemma lb_runs_fast:
  assumes "lb_left ms_lookup cap rate ival key w s" and "\<forall>g \<in> set gs. quiet ms_lookup (lb_state_key key) g"
    and "rs = call_seq (lb_allow (new_leaky_bucket memory_ops cap rate ival) key) gs w"
    and "gaps (\<lambda>g. g < sint ival) (snd s # map fst rs)" and "sint ival \<le> 86399000000000"
  shows "granted rs = map (\<lambda>i. fst s + int i < sint cap) [0..<length gs]"
  using assms(1-4)
proof (induction gs arbitrary: w s rs)
  case (Cons g gs)
  have left: "lb_left ms_lookup cap rate ival key (g w) s" using mem.lb_left_quiet [OF _ Cons.prems(1)] Cons.prems(2) by simp
  have le: "snd s \<le> t_wall (now (g w))" "0 \<le> fst s" using left by (simp_all add: lb_left_def)
  have gap: "t_wall (now (g w)) - snd s < sint ival" using Cons.prems(3,4) by simp
  obtain x s' where "0 \<le> x" "x \<le> sint cap" and x: "x = fst s \<or> snd s + 86399000000000 < t_wall (now (g w))"
    and s': "s' = leak_step (sint cap) (sint rate) (sint ival) (t_wall (now (g w))) (x, snd s)"
    and ans: "fst (lb_allow (new_leaky_bucket memory_ops cap rate ival) key (g w)) = Returns (fst s', None)"
    and next_: "lb_left ms_lookup cap rate ival key (snd (lb_allow (new_leaky_bucket memory_ops cap rate ival) key (g w))) (snd s')"
    by (rule mem.lb_allow_left [OF left])
  have "x = fst s" using x gap assms(5) by simp
  moreover have "(t_wall (now (g w)) - snd s) div sint ival = 0" using gap le by (intro div_pos_pos_trivial) auto
  ultimately have step: "s' = (fst s < sint cap, (if fst s < sint cap then fst s + 1 else fst s), t_wall (now (g w)))"
    using le(2) by (simp add: s' leak_step_def Let_def)
  have rest: "granted (call_seq (lb_allow (new_leaky_bucket memory_ops cap rate ival) key) gs
      (snd (lb_allow (new_leaky_bucket memory_ops cap rate ival) key (g w)))) =
      map (\<lambda>i. fst (snd s') + int i < sint cap) [0..<length gs]"
    by (rule Cons.IH [OF next_ _ refl]) (use Cons.prems step in auto)
  have shift: "map (\<lambda>i. c + int i < m) [0..<Suc n] = (c < m) # map (\<lambda>i. c + 1 + int i < m) [0..<n]" for c m n
    by (simp add: upt_conv_Cons map_Suc_upt [symmetric] o_def algebra_simps del: upt_Suc)
  have "granted rs = (fst s < sint cap) # map (\<lambda>i. fst (snd s') + int i < sint cap) [0..<length gs]"
    using rest by (simp add: Cons.prems(3) granted_def ans step)
  then show ?case
    by (cases "fst s < sint cap") (simp_all add: step shift map_replicate_const del: upt_Suc)
qed (simp add: granted_def)

lemma lb_runs_paced:
  assumes "lb_left ms_lookup cap rate ival key w s" and "\<forall>g \<in> set gs. quiet ms_lookup (lb_state_key key) g"
    and "rs = call_seq (lb_allow (new_leaky_bucket memory_ops cap rate ival) key) gs w"
    and "gaps (\<lambda>g. sint ival \<le> g) (snd s # map fst rs)" and "1 \<le> sint cap" and "1 \<le> sint rate"
  shows "granted rs = replicate (length gs) True"
  using assms(1-4)
proof (induction gs arbitrary: w s rs)
  case (Cons g gs)
  have left: "lb_left ms_lookup cap rate ival key (g w) s" using mem.lb_left_quiet [OF _ Cons.prems(1)] Cons.prems(2) by simp
  have gap: "sint ival \<le> t_wall (now (g w)) - snd s" using Cons.prems(3,4) by simp
  obtain x s' where x: "0 \<le> x" "x \<le> sint cap"
    and "x = fst s \<or> snd s + 86399000000000 < t_wall (now (g w))"
    and s': "s' = leak_step (sint cap) (sint rate) (sint ival) (t_wall (now (g w))) (x, snd s)"
    and ans: "fst (lb_allow (new_leaky_bucket memory_ops cap rate ival) key (g w)) = Returns (fst s', None)"
    and next_: "lb_left ms_lookup cap rate ival key (snd (lb_allow (new_leaky_bucket memory_ops cap rate ival) key (g w))) (snd s')"
    by (rule mem.lb_allow_left [OF left])
  have "0 < sint ival" using left lb_paramsD(4) by (auto simp: lb_left_def)
  then have "1 \<le> (t_wall (now (g w)) - snd s) div sint ival"
    using gap pos_imp_zdiv_pos_iff [of "sint ival" "t_wall (now (g w)) - snd s"] by simp
  then have "1 * 1 \<le> (t_wall (now (g w)) - snd s) div sint ival * sint rate" using assms(6) by (intro mult_mono) auto
  then have ok: "fst s'" using x assms(5) by (auto simp: s' leak_step_def Let_def)
  have "granted (call_seq (lb_allow (new_leaky_bucket memory_ops cap rate ival) key) gs
      (snd (lb_allow (new_leaky_bucket memory_ops cap rate ival) key (g w)))) = replicate (length gs) True"
    by (rule Cons.IH [OF next_ _ refl]) (use Cons.prems s' in auto)
  then show ?case by (simp add: Cons.prems(3) granted_def ans ok)
qed (simp add: granted_def)

text \<open>
  C23: On a new in-memory store, a client whose calls are all less than the leak interval apart gets
  the capacity of the bucket once and is then refused for ever, at whatever rate the bucket leaks and
  for however long it goes on: every call, refused ones included, moves the time of the last leak and
  renews the expiration. Assumed: one steady clock before 2262 whose readings in a row are less than a
  second apart, a leak interval of at most 86399 seconds, and a rate of at most one request per nanosecond.
\<close>

theorem leaky_bucket_starves:
  assumes "lb_params c cap rate ival" and "\<forall>g \<in> set gs. quiet ms_lookup (lb_state_key key) g"
    and "rs = call_seq (lb_allow (new_leaky_bucket memory_ops cap rate ival) key) gs (start_world c)"
    and "gaps (\<lambda>g. g < sint ival) (t_wall (c 0) # map fst rs)" and "sint ival \<le> 86399000000000"
  shows "granted rs = map (\<lambda>i. int i < sint cap) [0..<length gs]"
  using lb_runs_fast [OF lb_left_start [OF assms(1)] assms(2,3) _ assms(5)] assms(4) by simp

text \<open>
  C24: On a new in-memory store, a client that leaves at least a leak interval between its calls is
  never refused, where the capacity and the leak rate are not 0, for however long it goes on, whether
  or not the state has expired in between. Assumed: one steady clock before 2262 whose readings in a
  row are less than a second apart, and a rate of at most one request per nanosecond (with more, what
  leaks may overflow).
\<close>

theorem leaky_bucket_serves:
  assumes "lb_params c cap rate ival" and "\<forall>g \<in> set gs. quiet ms_lookup (lb_state_key key) g"
    and "rs = call_seq (lb_allow (new_leaky_bucket memory_ops cap rate ival) key) gs (start_world c)"
    and "gaps (\<lambda>g. sint ival \<le> g) (t_wall (c 0) # map fst rs)" and "1 \<le> sint cap" and "1 \<le> sint rate"
  shows "granted rs = replicate (length gs) True"
  using lb_runs_paced [OF lb_left_start [OF assms(1)] assms(2,3) _ assms(5,6)] assms(4) by simp

text \<open>The witnesses: a capacity of 2, one request leaks every 500 ms.\<close>

lemma lb_range_plateau:
  "lb_range (\<lambda>i. ramp_clock 0 100000000 (min i 100)) 2 1 500000000"
  by (auto simp: lb_range_def steady_def ramp_clock_def)

lemma lb_params_plateau: "lb_params (\<lambda>i. ramp_clock 0 100000000 (min i 100)) 2 1 500000000"
  by (auto simp: lb_params_def steady_def ramp_clock_def)

definition hasty :: "(int \<times> (bool \<times> go_error option) outcome) list" where
  "hasty = call_seq (lb_allow (new_leaky_bucket memory_ops 2 1 500000000) ''u'')
     [skip 0, skip 0, skip 0, skip 0] (start_world (\<lambda>i. ramp_clock 0 100000000 (min i 100)))"

definition patient :: "(int \<times> (bool \<times> go_error option) outcome) list" where
  "patient = call_seq (lb_allow (new_leaky_bucket memory_ops 2 1 500000000) ''u'')
     [skip 5, skip 5, skip 5, skip 5] (start_world (\<lambda>i. ramp_clock 0 100000000 (min i 100)))"

lemmas lb_run_defs = lb_allow_def lb_current_def lb_leak_def lb_marshal_def hours24_def go_div_def run_defs

lemma hasty_eval:
  "hasty = [(0, Returns (True, None)), (200000000, Returns (True, None)),
     (500000000, Returns (False, None)), (800000000, Returns (False, None))]"
  by (simp add: hasty_def lb_run_defs)

lemma patient_eval:
  "patient = [(500000000, Returns (True, None)), (1200000000, Returns (True, None)),
     (2000000000, Returns (True, None)), (2800000000, Returns (True, None))]"
  by (simp add: patient_def lb_run_defs)

theorem leaky_bucket_refines_witness:
  "hasty = map (\<lambda>(t, ok). (t, Returns (ok, None))) (spec_seq (leak_step 2 1 500000000) (0, 0) (map fst hasty))"
  using leaky_bucket_refines [OF lb_range_plateau _ hasty_def] by (simp add: ramp_clock_def)

theorem leaky_bucket_bound_witness: "int (length (filter id (granted (drop 1 patient)))) \<le> 2 + 3"
  using leaky_bucket_bound [OF lb_range_plateau _ patient_def, of 1] by (simp add: patient_eval)

theorem leaky_bucket_starves_witness: "granted hasty = [True, True, False, False]"
  using leaky_bucket_starves [OF lb_params_plateau _ hasty_def] by (simp add: hasty_eval ramp_clock_def)

theorem leaky_bucket_serves_witness: "granted patient = [True, True, True, True]"
  using leaky_bucket_serves [OF lb_params_plateau _ patient_def] by (simp add: patient_eval ramp_clock_def)

text \<open>
  On the in-memory store \<open>Allow\<close> panics, with a division by zero, if and only if the leak
  interval is 0.
\<close>

theorem leaky_bucket_panics:
  "fst (lb_allow (new_leaky_bucket memory_ops cap rate ival) key w) = Panics DivideByZero \<longleftrightarrow> ival = 0"
proof -
  obtain str w1 where "ms_get (lb_state_key key) (tick w) = (Inr str, w1)"
    using ms_get_lookup [of "lb_state_key key" "tick w"] by auto
  then show ?thesis by (simp add: lb_allow_def Let_def lb_marshal_def ms_set_def)
qed

text \<open>
  A stored bucket is read back as it was written, and a text that is no bucket counts as an
  empty one that leaked just now.
\<close>

theorem leaky_bucket_roundtrip:
  "(\<exists>text. lb_marshal s = Inr text \<and> lb_current t text = s) \<and>
   (snd (unmarshal lb_decode bad \<lparr>lbs_count = 0, lbs_last_leak_time = 0\<rparr>) = None \<or>
    lb_current t bad = \<lparr>lbs_count = 0, lbs_last_leak_time = t\<rparr>)"
  by (auto simp: lb_marshal_def lb_current_def split_beta split: option.splits)

end
