(* ===== verification/Limiter.thy ===== *)
theory Limiter
  imports TokenBucket SlidingWindow LeakyBucket
begin

text \<open>
  The interface \<open>limiter.RateLimiter\<close> (\<open>internal/limiter/interface.go\<close>): a Go value of the
  interface is one of the four limiters, and a call of a method goes to the method of its
  dynamic type.

  The locale \<open>rate_limiter_laws\<close> is the contract the interface documents and the service relies
  on; it is interpreted by each of the four and by the sum of them. On a store that keeps the
  contract \<open>string_store\<close> a limiter touches no key but its own, and \<open>Reset\<close> clears that one.
\<close>

datatype 's rate_limiter =
    TokenBucket "'s token_bucket"
  | SlidingWindow "'s sliding_window"
  | FixedWindow "'s fixed_window"
  | LeakyBucket "'s leaky_bucket"

fun lim_allow ::
    "'s rate_limiter \<Rightarrow> string \<Rightarrow> 's world \<Rightarrow> (bool \<times> go_error option) outcome \<times> 's world" where
  "lim_allow (TokenBucket tb) key w = (case tb_allow tb key w of (r, w) \<Rightarrow> (Returns r, w))"
| "lim_allow (SlidingWindow sw) key w = (case sw_allow sw key w of (r, w) \<Rightarrow> (Returns r, w))"
| "lim_allow (FixedWindow fw) key w = (case fw_allow fw key w of (r, w) \<Rightarrow> (Returns r, w))"
| "lim_allow (LeakyBucket lb) key w = lb_allow lb key w"

fun lim_reset :: "'s rate_limiter \<Rightarrow> string \<Rightarrow> 's world \<Rightarrow> go_error option \<times> 's world" where
  "lim_reset (TokenBucket tb) key w = tb_reset tb key w"
| "lim_reset (SlidingWindow sw) key w = sw_reset sw key w"
| "lim_reset (FixedWindow fw) key w = fw_reset fw key w"
| "lim_reset (LeakyBucket lb) key w = lb_reset lb key w"

fun lim_close :: "'s rate_limiter \<Rightarrow> 's world \<Rightarrow> go_error option \<times> 's world" where
  "lim_close (TokenBucket tb) w = tb_close tb w"
| "lim_close (SlidingWindow sw) w = sw_close sw w"
| "lim_close (FixedWindow fw) w = fw_close fw w"
| "lim_close (LeakyBucket lb) w = lb_close lb w"

fun lim_store :: "'s rate_limiter \<Rightarrow> 's store_ops" where
  "lim_store (TokenBucket tb) = tb_store tb"
| "lim_store (SlidingWindow sw) = sw_store sw"
| "lim_store (FixedWindow fw) = fw_store fw"
| "lim_store (LeakyBucket lb) = lb_store lb"

fun lim_state_key :: "'s rate_limiter \<Rightarrow> string \<Rightarrow> string" where
  "lim_state_key (TokenBucket tb) key = tb_state_key key"
| "lim_state_key (SlidingWindow sw) key = sw_state_key key"
| "lim_state_key (FixedWindow fw) key = fw_state_key key"
| "lim_state_key (LeakyBucket lb) key = lb_state_key key"

section \<open>The contract of the interface\<close>

text \<open>
  \<open>unavailable st k\<close>: every \<open>Get\<close> of the key fails, or every \<open>Set\<close> of it.
\<close>

definition unavailable :: "'s store_ops \<Rightarrow> string \<Rightarrow> bool" where
  "unavailable st k \<longleftrightarrow> (\<forall>w. \<exists>e w'. st_get st k w = (Inl e, w')) \<or>
     (\<forall>v d w. \<exists>e w'. st_set st k v d w = (Some e, w'))"

locale rate_limiter_laws =
  fixes store :: "'l \<Rightarrow> 's store_ops"
    and state_key :: "'l \<Rightarrow> string \<Rightarrow> string"
    and allow :: "'l \<Rightarrow> string \<Rightarrow> 's world \<Rightarrow> (bool \<times> go_error option) outcome \<times> 's world"
    and reset :: "'l \<Rightarrow> string \<Rightarrow> 's world \<Rightarrow> go_error option \<times> 's world"
  assumes error_allows: "allow l k w = (Returns (ok, Some e), w') \<Longrightarrow> ok"
    and unavailable_error: "unavailable (store l) (state_key l k) \<Longrightarrow> allow l k w = (Returns (ok, err), w') \<Longrightarrow> err \<noteq> None"
    and reset_deletes: "reset l k w = (case st_delete (store l) (state_key l k) w of
        (Some e, w') \<Rightarrow> (fst (reset l k w), w') | (None, w') \<Rightarrow> (None, w'))"
begin

text \<open>The documented fail-open behaviour: with the state out of reach every call is allowed.\<close>

lemma fails_open:
  assumes "unavailable (store l) (state_key l k)" and "allow l k w = (Returns (ok, err), w')"
  shows "ok \<and> err \<noteq> None"
  using assms unavailable_error error_allows by (cases err) blast+

lemma reset_world: "snd (reset l k w) = snd (st_delete (store l) (state_key l k) w)"
  by (subst reset_deletes) (simp add: split_beta split: option.splits)

end

lemma unavailable_cases:
  assumes "unavailable st k"
  obtains "\<And>v w. fst (st_get st k w) = Inr v \<Longrightarrow> False" | "\<And>v d w. fst (st_set st k v d w) = None \<Longrightarrow> False"
  using assms unfolding unavailable_def by (metis Inl_Inr_False fst_conv option.distinct(1))

lemma fw_unavailable:
  assumes "unavailable (fw_store l) (fw_state_key k)" and "fw_allow l k w = ((ok, err), w')"
  shows "err \<noteq> None"
proof (rule unavailable_cases [OF assms(1)])
  assume get: "\<And>v w. fst (st_get (fw_store l) (fw_state_key k) w) = Inr v \<Longrightarrow> False"
  show ?thesis
  proof
    assume "err = None"
    with assms(2) show False
      by (auto simp: fw_allow_def Let_def split_beta split: sum.splits option.splits if_splits dest: get)
  qed
next
  assume set: "\<And>v d w. fst (st_set (fw_store l) (fw_state_key k) v d w) = None \<Longrightarrow> False"
  show ?thesis
  proof
    assume "err = None"
    with assms(2) show False
      by (auto simp: fw_allow_def Let_def split_beta split: sum.splits option.splits if_splits dest: set)
  qed
qed

lemma sw_unavailable:
  assumes "unavailable (sw_store l) (sw_state_key k)" and "sw_allow l k w = ((ok, err), w')"
  shows "err \<noteq> None"
proof (rule unavailable_cases [OF assms(1)])
  assume get: "\<And>v w. fst (st_get (sw_store l) (sw_state_key k) w) = Inr v \<Longrightarrow> False"
  show ?thesis
  proof
    assume "err = None"
    with assms(2) show False
      by (auto simp: sw_allow_def Let_def split_beta split: sum.splits option.splits if_splits dest: get)
  qed
next
  assume set: "\<And>v d w. fst (st_set (sw_store l) (sw_state_key k) v d w) = None \<Longrightarrow> False"
  show ?thesis
  proof
    assume "err = None"
    with assms(2) show False
      by (auto simp: sw_allow_def Let_def split_beta split: sum.splits option.splits if_splits dest: set)
  qed
qed

lemma lb_unavailable:
  assumes "unavailable (lb_store l) (lb_state_key k)" and "lb_allow l k w = (Returns (ok, err), w')"
  shows "err \<noteq> None"
proof (rule unavailable_cases [OF assms(1)])
  assume get: "\<And>v w. fst (st_get (lb_store l) (lb_state_key k) w) = Inr v \<Longrightarrow> False"
  show ?thesis
  proof
    assume "err = None"
    with assms(2) show False
      by (auto simp: lb_allow_def Let_def split_beta split: sum.splits option.splits if_splits dest: get)
  qed
next
  assume set: "\<And>v d w. fst (st_set (lb_store l) (lb_state_key k) v d w) = None \<Longrightarrow> False"
  show ?thesis
  proof
    assume "err = None"
    with assms(2) show False
      by (auto simp: lb_allow_def Let_def split_beta split: sum.splits option.splits if_splits dest: set)
  qed
qed

lemma tb_unavailable:
  assumes "unavailable (tb_store l) (tb_state_key k)" and "tb_allow l k w = ((ok, err), w')"
  shows "err \<noteq> None"
proof (rule unavailable_cases [OF assms(1)])
  assume get: "\<And>v w. fst (st_get (tb_store l) (tb_state_key k) w) = Inr v \<Longrightarrow> False"
  show ?thesis
  proof
    assume "err = None"
    with assms(2) show False
      by (auto simp: tb_allow_def Let_def tb_get_bucket_state_def tb_set_bucket_state_def split_beta split: sum.splits option.splits if_splits dest: get)
  qed
next
  assume set: "\<And>v d w. fst (st_set (tb_store l) (tb_state_key k) v d w) = None \<Longrightarrow> False"
  show ?thesis
  proof
    assume "err = None"
    with assms(2) show False
      by (auto simp: tb_allow_def Let_def tb_get_bucket_state_def tb_set_bucket_state_def split_beta split: sum.splits option.splits if_splits dest: set)
  qed
qed

text \<open>An error comes with \<open>true\<close>.\<close>

lemma fw_error_allows: "fw_allow fw k w = ((ok, Some e), w') \<Longrightarrow> ok"
  and sw_error_allows: "sw_allow sw k w = ((ok, Some e), w') \<Longrightarrow> ok"
  and lb_error_allows: "lb_allow lb k w = (Returns (ok, Some e), w') \<Longrightarrow> ok"
  and tb_error_allows: "tb_allow tb k w = ((ok, Some e), w') \<Longrightarrow> ok"
  by (auto simp: fw_allow_def sw_allow_def lb_allow_def tb_allow_def Let_def split_beta
      split: sum.splits option.splits if_splits)

text \<open>An \<open>Allow\<close> that cannot panic, as one that may.\<close>

definition total :: "('l \<Rightarrow> string \<Rightarrow> 's world \<Rightarrow> 'r \<times> 's world) \<Rightarrow>
    'l \<Rightarrow> string \<Rightarrow> 's world \<Rightarrow> 'r outcome \<times> 's world" where
  "total allow l k w = (case allow l k w of (r, w') \<Rightarrow> (Returns r, w'))"

lemma total_eq [simp]: "total allow l k w = (Returns r, w') \<longleftrightarrow> allow l k w = (r, w')"
  by (simp add: total_def split_beta prod_eq_iff)

interpretation fwl: rate_limiter_laws fw_store "\<lambda>l. fw_state_key" "total fw_allow" fw_reset
  by unfold_locales (use fw_error_allows fw_unavailable in
    \<open>fastforce simp: fw_reset_def split_beta split: option.splits\<close>)+

interpretation swl: rate_limiter_laws sw_store "\<lambda>l. sw_state_key" "total sw_allow" sw_reset
  by unfold_locales (use sw_error_allows sw_unavailable in
    \<open>fastforce simp: sw_reset_def split_beta split: option.splits\<close>)+

interpretation tbl: rate_limiter_laws tb_store "\<lambda>l. tb_state_key" "total tb_allow" tb_reset
  by unfold_locales (use tb_error_allows tb_unavailable in
    \<open>fastforce simp: tb_reset_def split_beta split: option.splits\<close>)+

interpretation lbl: rate_limiter_laws lb_store "\<lambda>l. lb_state_key" lb_allow lb_reset
  by unfold_locales (use lb_error_allows lb_unavailable in
    \<open>fastforce simp: lb_reset_def split_beta split: option.splits\<close>)+

lemma lim_allow_total:
  "lim_allow (TokenBucket tb) = total tb_allow tb" "lim_allow (SlidingWindow sw) = total sw_allow sw"
  "lim_allow (FixedWindow fw) = total fw_allow fw"
  by (simp_all add: fun_eq_iff total_def)

lemma lim_error_allows: "lim_allow l k w = (Returns (ok, Some e), w') \<Longrightarrow> ok"
  by (cases l) (auto split: prod.splits dest: tb_error_allows sw_error_allows fw_error_allows lb_error_allows)

lemma lim_unavailable:
  "unavailable (lim_store l) (lim_state_key l k) \<Longrightarrow> lim_allow l k w = (Returns (ok, err), w') \<Longrightarrow> err \<noteq> None"
  by (cases l) (auto split: prod.splits dest: tb_unavailable sw_unavailable fw_unavailable lb_unavailable)

interpretation lim: rate_limiter_laws lim_store lim_state_key lim_allow lim_reset
proof unfold_locales
  show "lim_reset l k w = (case st_delete (lim_store l) (lim_state_key l k) w of
      (Some e, w') \<Rightarrow> (fst (lim_reset l k w), w') | (None, w') \<Rightarrow> (None, w'))" for l k w
    by (cases l) (simp_all only: lim_reset.simps lim_store.simps lim_state_key.simps
        tbl.reset_deletes [symmetric] swl.reset_deletes [symmetric] fwl.reset_deletes [symmetric] lbl.reset_deletes [symmetric])
qed (fact lim_error_allows, fact lim_unavailable)

text \<open>
  C16: Whatever the algorithm: while every \<open>Get\<close> or every \<open>Set\<close> of the limiter's key fails, an
  \<open>Allow\<close> that returns lets the request through and reports the error.
\<close>

theorem limiters_fail_open:
  assumes "unavailable (lim_store l) (lim_state_key l k)" and "lim_allow l k w = (Returns (ok, err), w')"
  shows "ok \<and> err \<noteq> None"
  using assms by (rule lim.fails_open)

text \<open>A store that is down.\<close>

definition down_ops :: "unit store_ops" where
  "down_ops = \<lparr>st_increment = (\<lambda>k d w. (Inl (ErrNew ''down''), w)),
     st_increment_by = (\<lambda>k v d w. (Inl (ErrNew ''down''), w)),
     st_get = (\<lambda>k w. (Inl (ErrNew ''down''), w)), st_set = (\<lambda>k v d w. (Some (ErrNew ''down''), w)),
     st_delete = (\<lambda>k w. (Some (ErrNew ''down''), w)), st_zadd = (\<lambda>k s m d w. (Some (ErrNew ''down''), w)),
     st_zrem_range_by_score = (\<lambda>k lo hi w. (Some (ErrNew ''down''), w)),
     st_zcount = (\<lambda>k lo hi w. (Inl (ErrNew ''down''), w)), st_expire = (\<lambda>k d w. (Some (ErrNew ''down''), w)),
     st_ping = (\<lambda>w. (Some (ErrNew ''down''), w)), st_close = (\<lambda>w. (Returns (Some (ErrNew ''down'')), w))\<rparr>"

theorem limiters_fail_open_witness:
  "fst (lim_allow (LeakyBucket (new_leaky_bucket down_ops 0 0 0)) ''k''
     \<lparr>w_store = (), w_clock = ramp_clock 0 1, w_reads = 0\<rparr>) = Returns (True, Some (ErrNew ''down''))"
proof -
  let ?l = "LeakyBucket (new_leaky_bucket down_ops 0 0 0)"
  let ?w = "\<lparr>w_store = (), w_clock = ramp_clock 0 1, w_reads = 0\<rparr>"
  have "unavailable (lim_store ?l) (lim_state_key ?l ''k'')" by (simp add: unavailable_def down_ops_def)
  moreover have r: "lim_allow ?l ''k'' ?w = (Returns (True, Some (ErrNew ''down'')), tick ?w)"
    by (simp add: lb_allow_def down_ops_def Let_def)
  ultimately have "True \<and> Some (ErrNew ''down'') \<noteq> None" by (rule limiters_fail_open)
  with r show ?thesis by simp
qed

section \<open>The two halves of a call\<close>

text \<open>
  Every \<open>Allow\<close> reads the state of its key with one operation of the store and writes it back with
  another, and no lock or transaction holds the two together. A call between the two holds its
  receiver, its key and the new state.
\<close>

datatype 's open_call =
    TokenCall "'s token_bucket" string token_bucket_state
  | SlidingCall "'s sliding_window" string sliding_window_state
  | FixedCall "'s fixed_window" string fixed_window_state
  | LeakyCall "'s leaky_bucket" string leaky_bucket_state

fun lim_read ::
    "'s rate_limiter \<Rightarrow> string \<Rightarrow> 's world \<Rightarrow> (go_error + bool \<times> 's open_call) outcome \<times> 's world" where
  "lim_read (TokenBucket tb) key w = (case tb_read tb key w of
      (Inl err, w) \<Rightarrow> (Returns (Inl err), w)
    | (Inr (allowed, state), w) \<Rightarrow> (Returns (Inr (allowed, TokenCall tb key state)), w))"
| "lim_read (SlidingWindow sw) key w = (case sw_read sw key w of
      (Inl err, w) \<Rightarrow> (Returns (Inl err), w)
    | (Inr (allowed, state), w) \<Rightarrow> (Returns (Inr (allowed, SlidingCall sw key state)), w))"
| "lim_read (FixedWindow fw) key w = (case fw_read fw key w of
      (Inl err, w) \<Rightarrow> (Returns (Inl err), w)
    | (Inr (allowed, state), w) \<Rightarrow> (Returns (Inr (allowed, FixedCall fw key state)), w))"
| "lim_read (LeakyBucket lb) key w = (case lb_read lb key w of
      (Panics p, w) \<Rightarrow> (Panics p, w)
    | (Returns (Inl err), w) \<Rightarrow> (Returns (Inl err), w)
    | (Returns (Inr (allowed, state)), w) \<Rightarrow> (Returns (Inr (allowed, LeakyCall lb key state)), w))"

fun lim_write :: "bool \<Rightarrow> 's open_call \<Rightarrow> 's world \<Rightarrow> (bool \<times> go_error option) \<times> 's world" where
  "lim_write allowed (TokenCall tb key state) w = tb_write tb key (allowed, state) w"
| "lim_write allowed (SlidingCall sw key state) w = sw_write sw key (allowed, state) w"
| "lim_write allowed (FixedCall fw key state) w = fw_write fw key (allowed, state) w"
| "lim_write allowed (LeakyCall lb key state) w = lb_write lb key (allowed, state) w"

text \<open>A call that nothing divides is one half after the other.\<close>

lemma lim_allow_steps:
  "lim_allow l key w = (case lim_read l key w of
      (Panics p, w) \<Rightarrow> (Panics p, w)
    | (Returns (Inl err), w) \<Rightarrow> (Returns (True, Some err), w)
    | (Returns (Inr (allowed, c)), w) \<Rightarrow> (case lim_write allowed c w of (r, w) \<Rightarrow> (Returns r, w)))"
  by (cases l) (simp_all add: tb_allow_steps sw_allow_steps fw_allow_steps lb_allow_steps
      split: prod.split sum.split outcome.split)

fun call_store :: "'s open_call \<Rightarrow> 's store_ops" where
  "call_store (TokenCall tb key state) = tb_store tb"
| "call_store (SlidingCall sw key state) = sw_store sw"
| "call_store (FixedCall fw key state) = fw_store fw"
| "call_store (LeakyCall lb key state) = lb_store lb"

fun call_key :: "'s open_call \<Rightarrow> string" where
  "call_key (TokenCall tb key state) = tb_state_key key"
| "call_key (SlidingCall sw key state) = sw_state_key key"
| "call_key (FixedCall fw key state) = fw_state_key key"
| "call_key (LeakyCall lb key state) = lb_state_key key"

lemma lim_read_call:
  "lim_read l key w = (Returns (Inr (ok, c)), w') \<Longrightarrow> call_store c = lim_store l \<and> call_key c = lim_state_key l key"
  by (cases l) (auto split: prod.splits sum.splits outcome.splits)

section \<open>A limiter touches no key but its own\<close>

context string_store
begin

lemma undisturbed_read: "undisturbed lookup j w (snd (st_get st k (tick w)))"
  by (rule undisturbed_trans [OF undisturbed_tick undisturbed_get])

lemma fw_read_undisturbed: "fw_store fw = st \<Longrightarrow> undisturbed lookup j w (snd (fw_read fw k w))"
  using undisturbed_read [of j w "fw_state_key k"] by (auto simp: fw_read_def Let_def split_beta split: sum.split)

lemma sw_read_undisturbed: "sw_store sw = st \<Longrightarrow> undisturbed lookup j w (snd (sw_read sw k w))"
  using undisturbed_read [of j w "sw_state_key k"] by (auto simp: sw_read_def Let_def split_beta split: sum.split)

lemma lb_read_undisturbed: "lb_store lb = st \<Longrightarrow> undisturbed lookup j w (snd (lb_read lb k w))"
  using undisturbed_read [of j w "lb_state_key k"] by (auto simp: lb_read_def Let_def split_beta split: sum.split)

lemma tb_read_undisturbed:
  assumes "tb_store tb = st"
  shows "undisturbed lookup j w (snd (tb_read tb k w))"
proof -
  obtain x w1 where get: "tb_get_bucket_state tb (tb_state_key k) w = (x, w1)" by fastforce
  obtain r w0 where get0: "st_get st (tb_state_key k) w = (r, w0)" by fastforce
  have w0: "undisturbed lookup j w w0" using undisturbed_get [of j w "tb_state_key k"] by (simp add: get0)
  then have "undisturbed lookup j w (tick w0)" by (rule undisturbed_trans) simp
  with w0 have w1: "undisturbed lookup j w w1"
    using get by (auto simp: tb_get_bucket_state_def assms get0 split_beta split: sum.splits option.splits if_splits)
  then have "undisturbed lookup j w (tick w1)" by (rule undisturbed_trans) simp
  with w1 show ?thesis by (auto simp: tb_read_def get Let_def split: sum.split)
qed

lemma lim_read_undisturbed: "lim_store l = st \<Longrightarrow> undisturbed lookup j w (snd (lim_read l k w))"
  using fw_read_undisturbed [of _ j w k] sw_read_undisturbed [of _ j w k] lb_read_undisturbed [of _ j w k]
    tb_read_undisturbed [of _ j w k]
  by (cases l) (simp_all add: split_beta split: sum.split outcome.split)

lemma lim_write_undisturbed:
  assumes "call_store c = st" and "j \<noteq> call_key c"
  shows "undisturbed lookup j w (snd (lim_write ok c w))"
proof -
  have set: "undisturbed lookup j w (snd (st_set st (call_key c) v d w))"
    "undisturbed lookup j w (snd (st_set st (call_key c) v d (tick w)))" for v d
    using undisturbed_set [OF assms(2)] by (blast intro: undisturbed_trans undisturbed_tick)+
  show ?thesis
    using assms set by (cases c) (auto simp: fw_write_def sw_write_def lb_write_def tb_write_def tb_set_bucket_state_def
        split_beta split: sum.split option.split)
qed

lemma lim_undisturbed:
  assumes "lim_store l = st" and "j \<noteq> lim_state_key l k"
  shows "undisturbed lookup j w (snd (lim_allow l k w))"
proof -
  obtain x w1 where read: "lim_read l k w = (x, w1)" by fastforce
  have w1: "undisturbed lookup j w w1" using lim_read_undisturbed [OF assms(1), of j w k] by (simp add: read)
  have "undisturbed lookup j w (snd (lim_write ok c w1))" if "x = Returns (Inr (ok, c))" for ok c
    using lim_read_call [of l k w ok c w1] read that assms w1
    by (intro undisturbed_trans [OF w1 lim_write_undisturbed]) simp_all
  with w1 show ?thesis by (auto simp: lim_allow_steps read split_beta split: sum.split outcome.split)
qed

text \<open>\<open>Reset\<close> succeeds and leaves nothing under the limiter's key.\<close>

lemma lim_reset_clears:
  assumes "lim_store l = st"
  obtains w' where "lim_reset l k w = (None, w')" and "holds lookup w' (lim_state_key l k) []"
    and "\<And>j. j \<noteq> lim_state_key l k \<Longrightarrow> undisturbed lookup j w w'"
proof -
  let ?K = "lim_state_key l k"
  obtain n s where del: "st_delete st ?K w = (None, put_store s (skip n w))"
    and rd: "\<forall>t j. lookup s t j = (if j = ?K then [] else lookup (w_store w) t j)"
    using delete_ok by blast
  have "lim_reset l k w = (None, put_store s (skip n w))"
    using lim.reset_deletes [of l k w] by (simp add: assms del)
  then show thesis
    by (rule that) (use rd in \<open>auto simp: holds_def undisturbed_def\<close>)
qed

end

end
