(* ===== verification/RateLimitService.thy ===== *)
theory RateLimitService
  imports Limiter
begin

text \<open>
  The service, \<open>internal/service/ratelimit.go\<close> with the constants of \<open>constants.go\<close>: the
  validated configurations it keeps in the store as JSON, the limiters it caches per key and
  algorithm, and the operations the transports call. Go's \<open>int\<close> has 64 bits.

  An operation on a service returns the result, the service (its cache of limiters) and the
  world; \<open>Panics\<close> is a division by a window of 0 seconds, or the panic of a limiter.
\<close>

section \<open>Constants\<close>

definition config_key_prefix :: string where [simp]: "config_key_prefix = ''ratelimit:config:''"
definition metadata_key_prefix :: string where [simp]: "metadata_key_prefix = ''ratelimit:metadata:''"

text \<open>\<open>fmt.Sprintf\<close> with the format \<open>"%s:%s"\<close>.\<close>

definition limiter_key_format :: "string \<Rightarrow> string \<Rightarrow> string" where
  [simp]: "limiter_key_format a b = a @ '':'' @ b"

definition err_algorithm_required :: string where
  [simp]: "err_algorithm_required = ''algorithm is required''"
definition err_invalid_algorithm :: "string \<Rightarrow> string" where
  [simp]: "err_invalid_algorithm a = ''invalid algorithm: '' @ a"
definition err_limit_must_be_positive :: string where
  [simp]: "err_limit_must_be_positive = ''limit must be greater than 0''"
definition err_window_seconds_missing :: string where
  [simp]: "err_window_seconds_missing = ''window_seconds must be greater than 0''"
definition err_refill_rate_missing :: string where
  [simp]: "err_refill_rate_missing = ''refill_rate must be greater than 0 for token bucket''"
definition err_refill_interval_missing :: string where
  [simp]: "err_refill_interval_missing = ''refill_interval must be greater than 0 for token bucket''"

section \<open>Configurations\<close>

record rate_limit_config =
  cfg_algorithm :: string
  cfg_limit :: int64
  cfg_window_seconds :: int64
  cfg_refill_rate :: int64
  cfg_refill_interval :: int64

definition empty_config :: rate_limit_config where
  "empty_config = \<lparr>cfg_algorithm = [], cfg_limit = 0, cfg_window_seconds = 0,
     cfg_refill_rate = 0, cfg_refill_interval = 0\<rparr>"

definition algorithm_token_bucket :: string where "algorithm_token_bucket = ''token_bucket''"
definition algorithm_sliding_window :: string where "algorithm_sliding_window = ''sliding_window''"
definition algorithm_fixed_window :: string where "algorithm_fixed_window = ''fixed_window''"
definition algorithm_leaky_bucket :: string where "algorithm_leaky_bucket = ''leaky_bucket''"

definition valid_algorithms :: "string list" where
  "valid_algorithms = [algorithm_token_bucket, algorithm_sliding_window, algorithm_fixed_window,
     algorithm_leaky_bucket]"

definition config_decode :: "rate_limit_config decoder" where
  "config_decode = decode_struct
     [(''algorithm'', on_field cfg_algorithm (\<lambda>x s. s\<lparr>cfg_algorithm := x\<rparr>) decode_string),
      (''limit'', on_field cfg_limit (\<lambda>x s. s\<lparr>cfg_limit := x\<rparr>) decode_i64),
      (''window_seconds'', on_field cfg_window_seconds (\<lambda>x s. s\<lparr>cfg_window_seconds := x\<rparr>) decode_i64),
      (''refill_rate'', on_field cfg_refill_rate (\<lambda>x s. s\<lparr>cfg_refill_rate := x\<rparr>) decode_i64),
      (''refill_interval'', on_field cfg_refill_interval (\<lambda>x s. s\<lparr>cfg_refill_interval := x\<rparr>) decode_i64)]"

definition config_json :: "rate_limit_config \<Rightarrow> json" where
  "config_json c = JObj
     [(''algorithm'', JStr (cfg_algorithm c)), (''limit'', JNum (format_int (cfg_limit c))),
      (''window_seconds'', JNum (format_int (cfg_window_seconds c))),
      (''refill_rate'', JNum (format_int (cfg_refill_rate c))),
      (''refill_interval'', JNum (format_int (cfg_refill_interval c)))]"

definition validate_config :: "rate_limit_config \<Rightarrow> go_error option" where
  "validate_config cfg =
     (if cfg_algorithm cfg = [] then Some (ErrNew err_algorithm_required)
      else if cfg_algorithm cfg \<notin> set valid_algorithms
      then Some (ErrNew (err_invalid_algorithm (cfg_algorithm cfg)))
      else if cfg_limit cfg <=s 0 then Some (ErrNew err_limit_must_be_positive)
      else if cfg_window_seconds cfg <=s 0 then Some (ErrNew err_window_seconds_missing)
      else if cfg_algorithm cfg = algorithm_token_bucket then
        (if cfg_refill_rate cfg <=s 0
         then Some (ErrNew err_refill_rate_missing)
         else if cfg_refill_interval cfg <=s 0
         then Some (ErrNew err_refill_interval_missing)
         else None)
      else None)"

record rate_limit_metadata =
  md_created_at :: int64
  md_updated_at :: int64

definition metadata_decode :: "rate_limit_metadata decoder" where
  "metadata_decode = decode_struct
     [(''created_at'', on_field md_created_at (\<lambda>x s. s\<lparr>md_created_at := x\<rparr>) decode_i64),
      (''updated_at'', on_field md_updated_at (\<lambda>x s. s\<lparr>md_updated_at := x\<rparr>) decode_i64)]"

definition metadata_json :: "rate_limit_metadata \<Rightarrow> json" where
  "metadata_json m = JObj [(''created_at'', JNum (format_int (md_created_at m))),
     (''updated_at'', JNum (format_int (md_updated_at m)))]"

section \<open>The service and its keys\<close>

record 's rate_limit_service =
  rls_store :: "'s store_ops"
  rls_limiters :: "string \<Rightarrow> 's rate_limiter option"

definition new_rate_limit_service :: "'s store_ops \<Rightarrow> 's rate_limit_service" where
  "new_rate_limit_service store = \<lparr>rls_store = store, rls_limiters = Map.empty\<rparr>"

definition config_key :: "string \<Rightarrow> string" where
  "config_key key = config_key_prefix @ key"

definition metadata_key :: "string \<Rightarrow> string" where
  "metadata_key key = metadata_key_prefix @ key"

definition limiter_key :: "string \<Rightarrow> string \<Rightarrow> string" where
  "limiter_key key algorithm = limiter_key_format key algorithm"

definition get_config ::
    "'s rate_limit_service \<Rightarrow> string \<Rightarrow> 's world \<Rightarrow> (go_error + rate_limit_config) \<times> 's world" where
  "get_config s key w = (case st_get (rls_store s) (config_key key) w of
      (Inl err, w) \<Rightarrow> (Inl err, w)
    | (Inr configStr, w) \<Rightarrow>
        if configStr = [] then (Inl ErrNotFound, w)
        else (case unmarshal config_decode configStr empty_config of
            (config, None) \<Rightarrow> (Inr config, w)
          | (config, Some err) \<Rightarrow>
              (Inl (ErrWrap ''failed to parse configuration'' (ErrJson err)), w)))"

text \<open>A limiter of the configuration; the window must not be 0.\<close>

definition make_limiter :: "'s store_ops \<Rightarrow> rate_limit_config \<Rightarrow> go_error + 's rate_limiter" where
  "make_limiter store cfg =
     (let windowDuration = cfg_window_seconds cfg * second;
          leakRate = go_div (cfg_limit cfg) (cfg_window_seconds cfg);
          leakRate = (if leakRate = 0 then 1 else leakRate)
      in if cfg_algorithm cfg = algorithm_token_bucket then
           Inr (TokenBucket (new_token_bucket store (f64_of_int (sint (cfg_refill_rate cfg)))
             (cfg_refill_interval cfg * second) (f64_of_int (sint (cfg_limit cfg)))))
         else if cfg_algorithm cfg = algorithm_sliding_window then
           Inr (SlidingWindow (new_sliding_window store (cfg_limit cfg) windowDuration))
         else if cfg_algorithm cfg = algorithm_fixed_window then
           Inr (FixedWindow (new_fixed_window store (cfg_limit cfg) windowDuration))
         else if cfg_algorithm cfg = algorithm_leaky_bucket then
           Inr (LeakyBucket (new_leaky_bucket store (cfg_limit cfg) leakRate windowDuration))
         else Inl (ErrNew (''unsupported algorithm: '' @ cfg_algorithm cfg)))"

definition get_or_create_limiter ::
    "'s rate_limit_service \<Rightarrow> string \<Rightarrow> rate_limit_config \<Rightarrow>
     (go_error + 's rate_limiter) outcome \<times> 's rate_limit_service" where
  "get_or_create_limiter s limiterKey cfg = (case rls_limiters s limiterKey of
      Some rl \<Rightarrow> (Returns (Inr rl), s)
    | None \<Rightarrow>
        if cfg_window_seconds cfg = 0 then (Panics DivideByZero, s)
        else (case make_limiter (rls_store s) cfg of
            Inl err \<Rightarrow> (Returns (Inl err), s)
          | Inr rl \<Rightarrow> (Returns (Inr rl), s\<lparr>rls_limiters := (rls_limiters s)(limiterKey \<mapsto> rl)\<rparr>)))"

section \<open>The numbers of a response\<close>

definition next_window_start :: "rate_limit_config \<Rightarrow> 's world \<Rightarrow> int64 outcome \<times> 's world" where
  "next_window_start cfg w =
     (if cfg_window_seconds cfg = 0 then (Panics DivideByZero, tick w)
      else let windowsSinceEpoch = go_div (unix_sec (now w)) (cfg_window_seconds cfg)
        in (Returns ((windowsSinceEpoch + 1) * cfg_window_seconds cfg), tick w))"

definition calculate_remaining :: "rate_limit_config \<Rightarrow> bool \<Rightarrow> int64" where
  "calculate_remaining cfg allowed = (if allowed then cfg_limit cfg else 0)"

definition calculate_reset_at :: "rate_limit_config \<Rightarrow> 's world \<Rightarrow> int64 outcome \<times> 's world" where
  "calculate_reset_at cfg w = next_window_start cfg w"

definition calculate_retry_after :: "rate_limit_config \<Rightarrow> 's world \<Rightarrow> int64 outcome \<times> 's world" where
  "calculate_retry_after cfg w =
     (let t = now w in
      case next_window_start cfg (tick w) of
        (Panics p, w) \<Rightarrow> (Panics p, w)
      | (Returns nextWindowTS, w) \<Rightarrow>
          (let nextWindowTime = time_unix nextWindowTS 0;
               retryAfter = f64_to_i64 (dur_seconds (time_sub nextWindowTime t))
           in (Returns (if retryAfter <s 1 then 1 else retryAfter), w)))"

section \<open>The operations\<close>

definition set_config ::
    "'s rate_limit_service \<Rightarrow> string \<Rightarrow> rate_limit_config \<Rightarrow> 's world \<Rightarrow> go_error option \<times> 's world" where
  "set_config s key config w = (case validate_config config of
      Some err \<Rightarrow> (Some err, w)
    | None \<Rightarrow>
        (let configJSON = json_print (config_json config);
             metadata = \<lparr>md_created_at = unix_sec (now w), md_updated_at = unix_sec (now w)\<rparr>;
             metadataJSON = json_print (metadata_json metadata)
         in case st_set (rls_store s) (config_key key) configJSON 0 (tick w) of
              (Some err, w) \<Rightarrow> (Some err, w)
            | (None, w) \<Rightarrow> (case st_set (rls_store s) (metadata_key key) metadataJSON 0 w of
                  (Some err, w) \<Rightarrow> (Some err, w)
                | (None, w) \<Rightarrow> (None, w))))"

record check_limit_response =
  clr_allowed :: bool
  clr_remaining :: int64
  clr_reset_at :: int64
  clr_retry_after :: int64

text \<open>The part of \<open>CheckLimit\<close> after the limiter's answer; an error allows.\<close>

definition limit_response ::
    "rate_limit_config \<Rightarrow> bool \<Rightarrow> go_error option \<Rightarrow> 's world \<Rightarrow>
     (go_error + check_limit_response) outcome \<times> 's world" where
  "limit_response config allowed err w =
     (let allowed = (if err \<noteq> None then True else allowed);
          remaining = calculate_remaining config allowed
      in case calculate_reset_at config w of
           (Panics p, w) \<Rightarrow> (Panics p, w)
         | (Returns resetAt, w) \<Rightarrow> (case calculate_retry_after config w of
               (Panics p, w) \<Rightarrow> (Panics p, w)
             | (Returns retryAfter, w) \<Rightarrow> (Returns (Inr
                 \<lparr>clr_allowed = allowed, clr_remaining = remaining, clr_reset_at = resetAt,
                  clr_retry_after = retryAfter\<rparr>), w)))"

definition check_limit ::
    "'s rate_limit_service \<Rightarrow> string \<Rightarrow> 's world \<Rightarrow>
     (go_error + check_limit_response) outcome \<times> 's rate_limit_service \<times> 's world" where
  "check_limit s key w = (case get_config s key w of
      (Inl err, w) \<Rightarrow> (Returns (Inl err), s, w)
    | (Inr config, w) \<Rightarrow>
        (case get_or_create_limiter s (limiter_key key (cfg_algorithm config)) config of
           (Panics p, s) \<Rightarrow> (Panics p, s, w)
         | (Returns (Inl err), s) \<Rightarrow> (Returns (Inl err), s, w)
         | (Returns (Inr rl), s) \<Rightarrow> (case lim_allow rl key w of
               (Panics p, w) \<Rightarrow> (Panics p, s, w)
             | (Returns (allowed, err), w) \<Rightarrow>
                 (case limit_response config allowed err w of (r, w) \<Rightarrow> (r, s, w)))))"

definition reset_limit ::
    "'s rate_limit_service \<Rightarrow> string \<Rightarrow> 's world \<Rightarrow>
     go_error option outcome \<times> 's rate_limit_service \<times> 's world" where
  "reset_limit s key w = (case get_config s key w of
      (Inl err, w) \<Rightarrow> (Returns (Some err), s, w)
    | (Inr config, w) \<Rightarrow>
        (case get_or_create_limiter s (limiter_key key (cfg_algorithm config)) config of
           (Panics p, s) \<Rightarrow> (Panics p, s, w)
         | (Returns (Inl err), s) \<Rightarrow> (Returns (Some err), s, w)
         | (Returns (Inr rl), s) \<Rightarrow> (case lim_reset rl key w of
               (Some err, w) \<Rightarrow> (Returns (Some err), s, w)
             | (None, w) \<Rightarrow>
                 (let (e1, w) = st_delete (rls_store s) (config_key key) w;
                      (e2, w) = st_delete (rls_store s) (metadata_key key) w
                  in (Returns None, s, w)))))"

record get_status_response =
  gsr_config :: rate_limit_config
  gsr_created_at :: int64
  gsr_updated_at :: int64
  gsr_next_reset :: int64

definition parse_metadata ::
    "'s rate_limit_service \<Rightarrow> string \<Rightarrow> 's world \<Rightarrow> (go_error + rate_limit_metadata) \<times> 's world" where
  "parse_metadata s key w = (case st_get (rls_store s) (metadata_key key) w of
      (Inl err, w) \<Rightarrow> (Inl err, w)
    | (Inr metadataStr, w) \<Rightarrow>
        if metadataStr = [] then (Inl ErrNotFound, w)
        else (case unmarshal metadata_decode metadataStr \<lparr>md_created_at = 0, md_updated_at = 0\<rparr> of
            (metadata, None) \<Rightarrow> (Inr metadata, w)
          | (metadata, Some err) \<Rightarrow> (Inl (ErrWrap ''failed to parse metadata'' (ErrJson err)), w)))"

definition get_status ::
    "'s rate_limit_service \<Rightarrow> string \<Rightarrow> 's world \<Rightarrow>
     (go_error + get_status_response) outcome \<times> 's world" where
  "get_status s key w = (case get_config s key w of
      (Inl err, w) \<Rightarrow> (Returns (Inl err), w)
    | (Inr config, w) \<Rightarrow>
        (let (metadata, w) = (case parse_metadata s key w of
               (Inr metadata, w) \<Rightarrow> (metadata, w)
             | (Inl err, w) \<Rightarrow>
                 (\<lparr>md_created_at = unix_sec (now w), md_updated_at = unix_sec (now w)\<rparr>, tick w))
         in case calculate_reset_at config w of
              (Panics p, w) \<Rightarrow> (Panics p, w)
            | (Returns nextReset, w) \<Rightarrow> (Returns (Inr
                \<lparr>gsr_config = config, gsr_created_at = md_created_at metadata,
                 gsr_updated_at = md_updated_at metadata, gsr_next_reset = nextReset\<rparr>), w)))"

end
