(* ===== verification/RedisStore.thy ===== *)
theory RedisStore
  imports MemoryStore
begin

text \<open>
  The Redis store, \<open>internal/storage/redis.go\<close>. The go-redis client and the server behind it
  are not part of the repository: the record \<open>redis_client\<close> holds the calls the store makes, as a
  parameter of the model, and \<open>redis_serves\<close> states what the store relies on: what \<open>GET\<close>
  returns after \<open>SET\<close> and \<open>DEL\<close>, and that a value set with expiration 0 stays. Under it the
  store keeps the contract \<open>string_store\<close>, as the in-memory store does.
\<close>

text \<open>\<open>redis.Nil\<close> is the reply for a key that does not exist.\<close>

datatype redis_error = RedisNil | RedisErr string

text \<open>The commands queued on a pipeline; its \<open>Exec\<close> gives the values of the commands.\<close>

datatype redis_cmd =
    CmdIncr string
  | CmdIncrBy string int64
  | CmdZAdd string f64 string
  | CmdExpire string int64

record 's redis_client =
  rc_get :: "string \<Rightarrow> 's world \<Rightarrow> (redis_error + string) \<times> 's world"
  rc_set :: "string \<Rightarrow> string \<Rightarrow> int64 \<Rightarrow> 's world \<Rightarrow> redis_error option \<times> 's world"
  rc_del :: "string \<Rightarrow> 's world \<Rightarrow> redis_error option \<times> 's world"
  rc_pipeline :: "redis_cmd list \<Rightarrow> 's world \<Rightarrow> (redis_error + int64 list) \<times> 's world"
  rc_zrem_range_by_score :: "string \<Rightarrow> string \<Rightarrow> string \<Rightarrow> 's world \<Rightarrow> redis_error option \<times> 's world"
  rc_zcount :: "string \<Rightarrow> string \<Rightarrow> string \<Rightarrow> 's world \<Rightarrow> (redis_error + int64) \<times> 's world"
  rc_expire :: "string \<Rightarrow> int64 \<Rightarrow> 's world \<Rightarrow> redis_error option \<times> 's world"
  rc_ping :: "'s world \<Rightarrow> redis_error option \<times> 's world"
  rc_close :: "'s world \<Rightarrow> redis_error option \<times> 's world"

definition redis_err :: "redis_error \<Rightarrow> go_error" where
  "redis_err e = (case e of RedisNil \<Rightarrow> ErrExternal ''redis: nil'' | RedisErr m \<Rightarrow> ErrExternal m)"

text \<open>A command without a value: its error is wrapped.\<close>

definition redis_wrap :: "string \<Rightarrow> redis_error option \<times> 's world \<Rightarrow> go_error option \<times> 's world" where
  "redis_wrap m r = (case r of
      (Some e, w) \<Rightarrow> (Some (ErrWrap m (redis_err e)), w)
    | (None, w) \<Rightarrow> (None, w))"

section \<open>Numbers in commands\<close>

text \<open>\<open>fmt.Sprintf("%f", x)\<close>: six decimals, rounded to nearest from the exact value.\<close>

definition pad6 :: "int \<Rightarrow> string" where
  "pad6 n = (let s = show_nat n in replicate (6 - length s) CHR ''0'' @ s)"

definition fixed6 :: "rat \<Rightarrow> string" where
  "fixed6 x = (let n = round_even (x * 1000000)
     in show_nat (n div 1000000) @ ''.'' @ pad6 (n mod 1000000))"

fun sprintf_f :: "f64 \<Rightarrow> string" where
  "sprintf_f NaN = ''NaN''"
| "sprintf_f (Inf s) = (if s then ''-Inf'' else ''+Inf'')"
| "sprintf_f (Zero s) = (if s then ''-0.000000'' else ''0.000000'')"
| "sprintf_f (Num x) = (if x < 0 then ''-'' @ fixed6 (- x) else fixed6 x)"

section \<open>The operations\<close>

text \<open>
  The options of \<open>redis.NewClient\<close> the program sets; a pool size of 0 is the default of the library.
  \<open>dial\<close> is \<open>redis.NewClient\<close>. A \<open>RedisStore\<close> is its client.
\<close>

record redis_options =
  opt_addr :: string
  opt_password :: string
  opt_db :: int64
  opt_pool_size :: int64

definition new_redis_store ::
    "(redis_options \<Rightarrow> 's redis_client) \<Rightarrow> string \<Rightarrow> string \<Rightarrow> int64 \<Rightarrow> 's world \<Rightarrow>
     (go_error + 's redis_client) \<times> 's world" where
  "new_redis_store dial addr password db w =
     (let client = dial \<lparr>opt_addr = addr, opt_password = password, opt_db = db, opt_pool_size = 10\<rparr>
      in case rc_ping client w of
           (Some e, w) \<Rightarrow> (Inl (ErrWrap ''failed to connect to Redis'' (redis_err e)), w)
         | (None, w) \<Rightarrow> (Inr client, w))"

definition new_redis_store_with_client :: "'s redis_client \<Rightarrow> 's redis_client" where
  "new_redis_store_with_client client = client"

definition get_client :: "'s redis_client \<Rightarrow> 's redis_client" where
  "get_client s = s"

definition rs_increment ::
    "'s redis_client \<Rightarrow> string \<Rightarrow> int64 \<Rightarrow> 's world \<Rightarrow> (go_error + int64) \<times> 's world" where
  "rs_increment c key expiration w =
     (case rc_pipeline c [CmdIncr key, CmdExpire key expiration] w of
        (Inl e, w) \<Rightarrow> (Inl (ErrWrap ''failed to increment key'' (redis_err e)), w)
      | (Inr vals, w) \<Rightarrow> (Inr (case vals of v # _ \<Rightarrow> v | [] \<Rightarrow> 0), w))"

definition rs_increment_by ::
    "'s redis_client \<Rightarrow> string \<Rightarrow> int64 \<Rightarrow> int64 \<Rightarrow> 's world \<Rightarrow> (go_error + int64) \<times> 's world" where
  "rs_increment_by c key val expiration w =
     (case rc_pipeline c [CmdIncrBy key val, CmdExpire key expiration] w of
        (Inl e, w) \<Rightarrow> (Inl (ErrWrap ''failed to increment key by value'' (redis_err e)), w)
      | (Inr vals, w) \<Rightarrow> (Inr (case vals of v # _ \<Rightarrow> v | [] \<Rightarrow> 0), w))"

definition rs_get :: "'s redis_client \<Rightarrow> string \<Rightarrow> 's world \<Rightarrow> (go_error + string) \<times> 's world" where
  "rs_get c key w = (case rc_get c key w of
      (Inl RedisNil, w) \<Rightarrow> (Inr [], w)
    | (Inl e, w) \<Rightarrow> (Inl (ErrWrap ''failed to get string key'' (redis_err e)), w)
    | (Inr val, w) \<Rightarrow> (Inr val, w))"

definition rs_set ::
    "'s redis_client \<Rightarrow> string \<Rightarrow> string \<Rightarrow> int64 \<Rightarrow> 's world \<Rightarrow> go_error option \<times> 's world" where
  "rs_set c key val expiration w = redis_wrap ''failed to set string key'' (rc_set c key val expiration w)"

definition rs_delete :: "'s redis_client \<Rightarrow> string \<Rightarrow> 's world \<Rightarrow> go_error option \<times> 's world" where
  "rs_delete c key w = redis_wrap ''failed to delete key'' (rc_del c key w)"

definition rs_zadd ::
    "'s redis_client \<Rightarrow> string \<Rightarrow> f64 \<Rightarrow> string \<Rightarrow> int64 \<Rightarrow> 's world \<Rightarrow> go_error option \<times> 's world" where
  "rs_zadd c key score member expiration w =
     (case rc_pipeline c [CmdZAdd key score member, CmdExpire key expiration] w of
        (Inl e, w) \<Rightarrow> (Some (ErrWrap ''failed to zadd'' (redis_err e)), w)
      | (Inr vals, w) \<Rightarrow> (None, w))"

definition rs_zrem_range_by_score ::
    "'s redis_client \<Rightarrow> string \<Rightarrow> f64 \<Rightarrow> f64 \<Rightarrow> 's world \<Rightarrow> go_error option \<times> 's world" where
  "rs_zrem_range_by_score c key lo hi w = redis_wrap ''failed to zremrangebyscore''
     (rc_zrem_range_by_score c key (sprintf_f lo) (sprintf_f hi) w)"

definition rs_zcount ::
    "'s redis_client \<Rightarrow> string \<Rightarrow> f64 \<Rightarrow> f64 \<Rightarrow> 's world \<Rightarrow> (go_error + int64) \<times> 's world" where
  "rs_zcount c key lo hi w = (case rc_zcount c key (sprintf_f lo) (sprintf_f hi) w of
      (Inl e, w) \<Rightarrow> (Inl (ErrWrap ''failed to zcount'' (redis_err e)), w)
    | (Inr n, w) \<Rightarrow> (Inr n, w))"

definition rs_expire :: "'s redis_client \<Rightarrow> string \<Rightarrow> int64 \<Rightarrow> 's world \<Rightarrow> go_error option \<times> 's world" where
  "rs_expire c key expiration w = redis_wrap ''failed to expire key'' (rc_expire c key expiration w)"

definition rs_ping :: "'s redis_client \<Rightarrow> 's world \<Rightarrow> go_error option \<times> 's world" where
  "rs_ping c w = redis_wrap ''redis ping failed'' (rc_ping c w)"

definition rs_close :: "'s redis_client \<Rightarrow> 's world \<Rightarrow> go_error option outcome \<times> 's world" where
  "rs_close c w = (case redis_wrap ''failed to close redis connection'' (rc_close c w) of
      (r, w) \<Rightarrow> (Returns r, w))"

definition redis_ops :: "'s redis_client \<Rightarrow> 's store_ops" where
  "redis_ops c = \<lparr>st_increment = rs_increment c, st_increment_by = rs_increment_by c,
     st_get = rs_get c, st_set = rs_set c, st_delete = rs_delete c, st_zadd = rs_zadd c,
     st_zrem_range_by_score = rs_zrem_range_by_score c, st_zcount = rs_zcount c,
     st_expire = rs_expire c, st_ping = rs_ping c, st_close = rs_close c\<rparr>"

lemma redis_ops_simps [simp]:
  "st_get (redis_ops c) = rs_get c" "st_set (redis_ops c) = rs_set c"
  "st_delete (redis_ops c) = rs_delete c" "st_ping (redis_ops c) = rs_ping c"
  by (simp_all add: redis_ops_def)

section \<open>The contract of the store\<close>

text \<open>
  What the store relies on, of a client whose server answers. \<open>lookup s t k\<close> is what the server
  holds under \<open>k\<close> at time \<open>t\<close>, the empty text if nothing; \<open>alive t d u\<close> says that a value set
  at \<open>t\<close> with expiration \<open>d\<close> is there at \<open>u\<close>, which is so up to a millisecond before \<open>t + d\<close>,
  and for ever where \<open>d\<close> is 0. Of a \<open>Set\<close> with a negative expiration, which the program never
  makes in the range of the properties, only this is assumed: it leaves the other keys alone. The
  times are readings of the clock of the world: the server and all programs on it share one clock.
\<close>

definition redis_serves ::
    "'s redis_client \<Rightarrow> ('s \<Rightarrow> gotime \<Rightarrow> string \<Rightarrow> string) \<Rightarrow> (gotime \<Rightarrow> int64 \<Rightarrow> gotime \<Rightarrow> bool) \<Rightarrow> bool" where
  "redis_serves c lookup alive \<longleftrightarrow>
     (\<forall>k w. \<exists>n r. rc_get c k w = (r, skip n w) \<and>
        (r = Inr (lookup (w_store w) (now w) k) \<or> r = Inl RedisNil \<and> lookup (w_store w) (now w) k = [])) \<and>
     (\<forall>k v d w. \<exists>n s. rc_set c k v d w = (None, put_store s (skip n w)) \<and>
        (\<forall>t j. j \<noteq> k \<longrightarrow> lookup s t j = lookup (w_store w) t j) \<and>
        (0 \<le> sint d \<longrightarrow> (\<forall>t. lookup s t k = (if alive (now w) d t then v else [])))) \<and>
     (\<forall>k w. \<exists>n s. rc_del c k w = (None, put_store s (skip n w)) \<and>
        (\<forall>t j. lookup s t j = (if j = k then [] else lookup (w_store w) t j))) \<and>
     (\<forall>t d u. 0 < sint d \<and> t_wall u + 1000000 \<le> t_wall t + sint d \<longrightarrow> alive t d u) \<and>
     (\<forall>t u. alive t 0 u)"

lemma redis_string_store:
  assumes "redis_serves c lookup alive"
  shows "string_store (redis_ops c) lookup alive"
proof
  fix k w
  show "\<exists>n. st_get (redis_ops c) k w = (Inr (lookup (w_store w) (now w) k), skip n w)"
  proof -
    obtain n r where "rc_get c k w = (r, skip n w)"
      "r = Inr (lookup (w_store w) (now w) k) \<or> r = Inl RedisNil \<and> lookup (w_store w) (now w) k = []"
      using assms unfolding redis_serves_def by blast
    then show ?thesis by (auto simp: rs_get_def)
  qed
next
  fix k v d w
  show "\<exists>n s. st_set (redis_ops c) k v d w = (None, put_store s (skip n w)) \<and>
      (\<forall>t j. j \<noteq> k \<longrightarrow> lookup s t j = lookup (w_store w) t j) \<and>
      (0 \<le> sint d \<longrightarrow> (\<forall>t. lookup s t k = (if alive (now w) d t then v else [])))"
  proof -
    obtain n s where "rc_set c k v d w = (None, put_store s (skip n w))"
      "\<forall>t j. j \<noteq> k \<longrightarrow> lookup s t j = lookup (w_store w) t j"
      "0 \<le> sint d \<longrightarrow> (\<forall>t. lookup s t k = (if alive (now w) d t then v else []))"
      using assms unfolding redis_serves_def by blast
    then show ?thesis by (intro exI [of _ n] exI [of _ s]) (simp add: rs_set_def redis_wrap_def)
  qed
next
  fix k w
  show "\<exists>n s. st_delete (redis_ops c) k w = (None, put_store s (skip n w)) \<and>
      (\<forall>t j. lookup s t j = (if j = k then [] else lookup (w_store w) t j))"
  proof -
    obtain n s where "rc_del c k w = (None, put_store s (skip n w))"
      "\<forall>t j. lookup s t j = (if j = k then [] else lookup (w_store w) t j)"
      using assms unfolding redis_serves_def by blast
    then show ?thesis by (intro exI [of _ n] exI [of _ s]) (simp add: rs_delete_def redis_wrap_def)
  qed
next
  fix cl :: "nat \<Rightarrow> gotime" and d :: int64 and j i
  assume "0 \<le> sint d" "t_wall (cl j) + 1000000 \<le> t_wall (cl i) + sint d"
  then show "alive (cl i) d (cl j)"
    using assms sint_inject_i64 [of d 0] unfolding redis_serves_def by (cases "d = 0") auto
qed

text \<open>
  That the hypothesis can hold: a client on a map from keys to values, each with the time it was
  set and its expiration.
\<close>

type_synonym redis_map = "string \<Rightarrow> (string \<times> gotime \<times> int64) option"

definition map_alive :: "gotime \<Rightarrow> int64 \<Rightarrow> gotime \<Rightarrow> bool" where
  "map_alive t d u \<longleftrightarrow> d = 0 \<or> t_wall u \<le> t_wall t + sint d"

definition map_lookup :: "redis_map \<Rightarrow> gotime \<Rightarrow> string \<Rightarrow> string" where
  "map_lookup m t k = (case m k of
      None \<Rightarrow> []
    | Some (v, t0, d) \<Rightarrow> if map_alive t0 d t then v else [])"

definition map_client :: "redis_map redis_client" where
  "map_client = \<lparr>
     rc_get = (\<lambda>k w. (case map_lookup (w_store w) (now w) k of [] \<Rightarrow> Inl RedisNil | v \<Rightarrow> Inr v, tick w)),
     rc_set = (\<lambda>k v d w. (None, put_store ((w_store w)(k \<mapsto> (v, now w, d))) (tick w))),
     rc_del = (\<lambda>k w. (None, put_store ((w_store w)(k := None)) w)),
     rc_pipeline = (\<lambda>cmds w. (Inl (RedisErr ''ERR''), w)),
     rc_zrem_range_by_score = (\<lambda>k lo hi w. (Some (RedisErr ''ERR''), w)),
     rc_zcount = (\<lambda>k lo hi w. (Inl (RedisErr ''ERR''), w)),
     rc_expire = (\<lambda>k d w. (Some (RedisErr ''ERR''), w)),
     rc_ping = (\<lambda>w. (None, w)), rc_close = (\<lambda>w. (None, w))\<rparr>"

lemma map_client_serves: "redis_serves map_client map_lookup map_alive"
  unfolding redis_serves_def
proof (intro conjI allI impI)
  fix k and w :: "redis_map world"
  show "\<exists>n r. rc_get map_client k w = (r, skip n w) \<and>
      (r = Inr (map_lookup (w_store w) (now w) k) \<or> r = Inl RedisNil \<and> map_lookup (w_store w) (now w) k = [])"
    by (cases "map_lookup (w_store w) (now w) k") (auto simp: map_client_def tick_skip intro!: exI [of _ 1])
next
  fix k v d and w :: "redis_map world"
  show "\<exists>n s. rc_set map_client k v d w = (None, put_store s (skip n w)) \<and>
      (\<forall>t j. j \<noteq> k \<longrightarrow> map_lookup s t j = map_lookup (w_store w) t j) \<and>
      (0 \<le> sint d \<longrightarrow> (\<forall>t. map_lookup s t k = (if map_alive (now w) d t then v else [])))"
    by (intro exI [of _ 1] exI [of _ "(w_store w)(k \<mapsto> (v, now w, d))"])
      (simp add: map_client_def tick_skip map_lookup_def)
next
  fix k and w :: "redis_map world"
  show "\<exists>n s. rc_del map_client k w = (None, put_store s (skip n w)) \<and>
      (\<forall>t j. map_lookup s t j = (if j = k then [] else map_lookup (w_store w) t j))"
    by (intro exI [of _ 0] exI [of _ "(w_store w)(k := None)"]) (simp add: map_client_def map_lookup_def)
qed (auto simp: map_alive_def)

interpretation redis_map: string_store "redis_ops map_client" map_lookup map_alive
  by (rule redis_string_store [OF map_client_serves])

end
