(* ===== verification/ServiceContract.thy ===== *)
theory ServiceContract
  imports RateLimitService RedisStore
begin

text \<open>
  What the service promises. On a store that keeps a value set with expiration 0, as Redis
  does and the in-memory store does not (the locale \<open>durable_store\<close>), a configuration that
  \<open>SetConfig\<close> accepts is what \<open>GetConfig\<close> returns, and a sequence of \<open>CheckLimit\<close> calls decides
  as the specification of the configured limiter does, at instants that lie within the calls.
\<close>

section \<open>Configurations and their text\<close>

definition well_configured :: "rate_limit_config \<Rightarrow> bool" where
  "well_configured c \<longleftrightarrow> cfg_algorithm c \<in> set valid_algorithms \<and> 0 < sint (cfg_limit c) \<and>
     0 < sint (cfg_window_seconds c) \<and>
     (cfg_algorithm c = algorithm_token_bucket \<longrightarrow>
       0 < sint (cfg_refill_rate c) \<and> 0 < sint (cfg_refill_interval c))"

lemmas algorithm_defs = valid_algorithms_def algorithm_token_bucket_def algorithm_sliding_window_def
  algorithm_fixed_window_def algorithm_leaky_bucket_def

lemma validate_config_iff: "validate_config c = None \<longleftrightarrow> well_configured c"
  by (auto simp: validate_config_def well_configured_def sle_i64 algorithm_defs)

lemma config_json_ok: "cfg_algorithm c \<in> set valid_algorithms \<Longrightarrow> json_ok 0 (config_json c)"
  by (auto simp: config_json_def max_depth_def plain_def algorithm_defs)

lemma config_unmarshal:
  "cfg_algorithm c \<in> set valid_algorithms \<Longrightarrow>
   unmarshal config_decode (json_print (config_json c)) z = (c, None)"
  by (rule unmarshal_print [OF config_json_ok])
    (simp_all add: config_decode_def config_json_def find_field_def on_field_def)

lemma metadata_unmarshal: "unmarshal metadata_decode (json_print (metadata_json m)) z = (m, None)"
  by (rule unmarshal_print)
    (simp_all add: metadata_decode_def metadata_json_def find_field_def on_field_def max_depth_def plain_def)

lemma config_text_not_Nil [simp]: "json_print (config_json c) \<noteq> []" "json_print (metadata_json m) \<noteq> []"
  by (simp_all only: config_json_def metadata_json_def json_print_Obj_not_Nil not_False_eq_True)

text \<open>No key of the service is a key of a limiter, and no key is both.\<close>

lemma keys_apart [simp]:
  "config_key k \<noteq> metadata_key j" "metadata_key j \<noteq> config_key k"
  "lim_state_key l k \<noteq> config_key j" "config_key j \<noteq> lim_state_key l k"
  "lim_state_key l k \<noteq> metadata_key j" "metadata_key j \<noteq> lim_state_key l k"
  by (cases l; simp add: config_key_def metadata_key_def tb_state_key_def sw_state_key_def
      fw_state_key_def lb_state_key_def)+

lemma config_key_inject [simp]: "config_key j = config_key k \<longleftrightarrow> j = k"
  by (simp add: config_key_def)

lemma metadata_key_inject [simp]: "metadata_key j = metadata_key k \<longleftrightarrow> j = k"
  by (simp add: metadata_key_def)

text \<open>The limiters of one key that the algorithms share no state with.\<close>

lemma limiter_key_inject:
  assumes "cfg_algorithm a \<in> set valid_algorithms" and "cfg_algorithm b \<in> set valid_algorithms"
  shows "limiter_key j (cfg_algorithm a) = limiter_key k (cfg_algorithm b) \<longleftrightarrow>
    j = k \<and> cfg_algorithm a = cfg_algorithm b"
proof
  assume eq: "limiter_key j (cfg_algorithm a) = limiter_key k (cfg_algorithm b)"
  have cut: "takeWhile (\<lambda>c. c \<noteq> CHR '':'') (rev (limiter_key i x)) = rev x" if "x \<in> set valid_algorithms" for i x
    using that by (auto simp: limiter_key_def algorithm_defs)
  from eq have "takeWhile (\<lambda>c. c \<noteq> CHR '':'') (rev (limiter_key j (cfg_algorithm a))) =
      takeWhile (\<lambda>c. c \<noteq> CHR '':'') (rev (limiter_key k (cfg_algorithm b)))" by simp
  then have "cfg_algorithm a = cfg_algorithm b" using assms by (simp add: cut)
  with eq show "j = k \<and> cfg_algorithm a = cfg_algorithm b" by (simp add: limiter_key_def)
qed simp

section \<open>Durable stores\<close>

locale durable_store = string_store +
  assumes keeps: "alive t 0 u"
begin

lemma set_holds:
  assumes "st_set st k v 0 w = (e, w')"
  shows "e = None" and "holds lookup w' k v"
proof -
  obtain n s where "st_set st k v 0 w = (None, put_store s (skip n w))"
    and "\<And>t. lookup s t k = (if alive (now w) 0 t then v else [])"
    by (rule set_cases [of k v 0 w]) (use that in simp)
  with assms show "e = None" and "holds lookup w' k v"
    by (auto simp: holds_def keeps)
qed

end

lemma redis_durable_store:
  assumes "redis_serves c lookup alive"
  shows "durable_store (redis_ops c) lookup alive"
  using redis_string_store [OF assms] assms
  unfolding durable_store_def durable_store_axioms_def redis_serves_def by blast

interpretation redis_durable: durable_store "redis_ops map_client" map_lookup map_alive
  by (rule redis_durable_store [OF map_client_serves])

section \<open>Configurations in the store\<close>

context string_store
begin

lemma get_config_held:
  assumes "rls_store s = st" and "holds lookup w (config_key key) (json_print (config_json cfg))"
    and "cfg_algorithm cfg \<in> set valid_algorithms"
  obtains n where "get_config s key w = (Inr cfg, skip n w)"
proof -
  obtain n where "st_get st (config_key key) w = (Inr (lookup (w_store w) (now w) (config_key key)), skip n w)"
    by (rule get_cases)
  then have "get_config s key w = (Inr cfg, skip n w)"
    using assms(1,3) holds_now [OF assms(2)] by (simp add: get_config_def config_unmarshal)
  then show thesis by (rule that)
qed

lemma get_config_absent:
  assumes "rls_store s = st" and "lookup (w_store w) (now w) (config_key key) = []"
  obtains n where "get_config s key w = (Inl ErrNotFound, skip n w)"
proof -
  obtain n where "st_get st (config_key key) w = (Inr [], skip n w)"
    using get_cases [of "config_key key" w] assms(2) by metis
  then show thesis using that assms(1) by (simp add: get_config_def)
qed

lemma get_status_held:
  assumes "rls_store s = st" and "holds lookup w (config_key key) (json_print (config_json cfg))"
    and "cfg_algorithm cfg \<in> set valid_algorithms" and "cfg_window_seconds cfg \<noteq> 0"
    and "holds lookup w (metadata_key key) (json_print (metadata_json md))"
  obtains t w' where "get_status s key w = (Returns (Inr \<lparr>gsr_config = cfg, gsr_created_at = md_created_at md,
      gsr_updated_at = md_updated_at md, gsr_next_reset = t\<rparr>), w')"
proof -
  obtain n where get: "get_config s key w = (Inr cfg, skip n w)"
    using assms(1-3) by (rule get_config_held)
  obtain m where "st_get st (metadata_key key) (skip n w) =
      (Inr (lookup (w_store (skip n w)) (now (skip n w)) (metadata_key key)), skip m (skip n w))"
    by (rule get_cases)
  then have "parse_metadata s key (skip n w) = (Inr md, skip m (skip n w))"
    using assms(1) holds_now [OF holds_skip [OF assms(5)], of n]
    by (simp add: parse_metadata_def metadata_unmarshal)
  then show thesis
    using that assms(4) by (simp add: get_status_def get calculate_reset_at_def next_window_start_def Let_def)
qed

lemma get_config_undisturbed:
  assumes "rls_store s = st"
  shows "undisturbed lookup j w (snd (get_config s key w))"
proof -
  have "snd (get_config s key w) = snd (st_get st (config_key key) w)"
    using assms by (simp add: get_config_def split_beta split: sum.split option.split)
  then show ?thesis by (simp add: undisturbed_get)
qed

lemma set_config_undisturbed:
  assumes "rls_store s = st" and "j \<noteq> config_key key" and "j \<noteq> metadata_key key"
  shows "undisturbed lookup j w (snd (set_config s key cfg w))"
proof -
  let ?v = "json_print (config_json cfg)" and ?t = "unix_sec (now w)"
  obtain e w1 where s1: "st_set st (config_key key) ?v 0 (tick w) = (e, w1)" by fastforce
  have u1: "undisturbed lookup j w w1"
    using undisturbed_trans [OF undisturbed_tick undisturbed_set [OF assms(2)]] s1 by (metis snd_conv)
  have u2: "undisturbed lookup j w (snd (st_set st (metadata_key key) v d w1))" for v d
    using u1 undisturbed_set [OF assms(3)] by (rule undisturbed_trans)
  show ?thesis
    using assms(1) u1 u2 by (simp add: set_config_def Let_def s1 split_beta split: option.split)
qed

end

context durable_store
begin

lemma set_config_holds:
  assumes "rls_store s = st" and "set_config s key cfg w = (None, w')"
  shows "well_configured cfg" and "holds lookup w' (config_key key) (json_print (config_json cfg))"
proof -
  show "well_configured cfg"
    using assms(2) by (auto simp: set_config_def validate_config_iff split: option.splits)
  let ?v = "json_print (config_json cfg)" and ?t = "unix_sec (now w)"
  let ?m = "json_print (metadata_json \<lparr>md_created_at = ?t, md_updated_at = ?t\<rparr>)"
  obtain e w1 where s1: "st_set st (config_key key) ?v 0 (tick w) = (e, w1)" by fastforce
  obtain e2 w2 where s2: "st_set st (metadata_key key) ?m 0 w1 = (e2, w2)" by fastforce
  note h1 = set_holds [OF s1] and h2 = set_holds [OF s2]
  have "w' = w2"
    using assms h1 h2 s2 by (auto simp: set_config_def Let_def s1 split: option.splits)
  moreover have "undisturbed lookup (config_key key) w1 w2"
    using undisturbed_set [of "config_key key" "metadata_key key"] s2 by (metis keys_apart(1) snd_conv)
  ultimately show "holds lookup w' (config_key key) ?v" using h1(2) undisturbed_holds by blast
qed

lemma set_config_metadata:
  assumes "rls_store s = st" and "set_config s key cfg w = (None, w')"
  shows "holds lookup w' (metadata_key key)
    (json_print (metadata_json \<lparr>md_created_at = unix_sec (now w), md_updated_at = unix_sec (now w)\<rparr>))"
proof -
  let ?v = "json_print (config_json cfg)" and ?t = "unix_sec (now w)"
  let ?m = "json_print (metadata_json \<lparr>md_created_at = ?t, md_updated_at = ?t\<rparr>)"
  obtain e w1 where s1: "st_set st (config_key key) ?v 0 (tick w) = (e, w1)" by fastforce
  obtain e2 w2 where s2: "st_set st (metadata_key key) ?m 0 w1 = (e2, w2)" by fastforce
  have "w' = w2"
    using assms set_holds(1) [OF s1] set_holds(1) [OF s2] s2
    by (auto simp: set_config_def Let_def s1 split: option.splits)
  then show ?thesis using set_holds(2) [OF s2] by simp
qed

lemma set_config_accepts:
  assumes "rls_store s = st" and "well_configured cfg"
  obtains w' where "set_config s key cfg w = (None, w')"
proof -
  let ?v = "json_print (config_json cfg)" and ?t = "unix_sec (now w)"
  let ?m = "json_print (metadata_json \<lparr>md_created_at = ?t, md_updated_at = ?t\<rparr>)"
  obtain e w1 where s1: "st_set st (config_key key) ?v 0 (tick w) = (e, w1)" by fastforce
  obtain e2 w2 where s2: "st_set st (metadata_key key) ?m 0 w1 = (e2, w2)" by fastforce
  have "set_config s key cfg w = (None, w2)"
    using assms set_holds(1) [OF s1] set_holds(1) [OF s2] s2 validate_config_iff [of cfg]
    by (simp add: set_config_def Let_def s1)
  then show thesis by (rule that)
qed

lemma set_config_rejects:
  "\<not> well_configured cfg \<Longrightarrow> \<exists>e. set_config s key cfg w = (Some e, w)"
  by (auto simp: set_config_def validate_config_iff [symmetric] split: option.splits)

end

section \<open>The limiter a check goes to\<close>

fun panic_free :: "'s rate_limiter \<Rightarrow> bool" where
  "panic_free (LeakyBucket lb) \<longleftrightarrow> lb_leak_interval lb \<noteq> 0"
| "panic_free _ \<longleftrightarrow> True"

lemma lim_allow_returns:
  assumes "panic_free l"
  obtains ok err w' where "lim_allow l k w = (Returns (ok, err), w')"
proof -
  have "fst (lim_allow l k w) \<noteq> Panics p" for p
    using assms by (cases l)
      (simp_all add: lb_allow_def lb_marshal_def Let_def split_beta split: sum.split option.split)
  then show thesis using that by (metis outcome.exhaust prod.collapse)
qed

text \<open>\<open>uses s key cfg l\<close>: the limiter cached for the key and the algorithm, or else a new one.\<close>

definition uses ::
    "'s rate_limit_service \<Rightarrow> string \<Rightarrow> rate_limit_config \<Rightarrow> 's rate_limiter \<Rightarrow> bool" where
  "uses s key cfg l \<longleftrightarrow> (case rls_limiters s (limiter_key key (cfg_algorithm cfg)) of
      Some l' \<Rightarrow> l' = l
    | None \<Rightarrow> cfg_window_seconds cfg \<noteq> 0 \<and> make_limiter (rls_store s) cfg = Inr l)"

lemma uses_limiter:
  assumes "uses s key cfg l"
  obtains s' where "get_or_create_limiter s (limiter_key key (cfg_algorithm cfg)) cfg = (Returns (Inr l), s')"
    and "rls_store s' = rls_store s" and "uses s' key cfg l"
    and "rls_limiters s' = (rls_limiters s)(limiter_key key (cfg_algorithm cfg) \<mapsto> l)"
proof (cases "rls_limiters s (limiter_key key (cfg_algorithm cfg))")
  case None
  with assms show thesis
    by (intro that [of "s\<lparr>rls_limiters := (rls_limiters s)(limiter_key key (cfg_algorithm cfg) \<mapsto> l)\<rparr>"])
      (simp_all add: uses_def get_or_create_limiter_def)
next
  case (Some l')
  with assms show thesis
    by (intro that [of s]) (simp_all add: uses_def get_or_create_limiter_def fun_upd_idem)
qed

text \<open>The numbers of a response, from the readings of the clock they are computed at.\<close>

definition next_start :: "int64 \<Rightarrow> gotime \<Rightarrow> int64" where
  "next_start win t = (go_div (unix_sec t) win + 1) * win"

definition retry_seconds :: "int64 \<Rightarrow> gotime \<Rightarrow> gotime \<Rightarrow> int64" where
  "retry_seconds win t u =
     (let r = f64_to_i64 (dur_seconds (time_sub (time_unix (next_start win u) 0) t)) in if r <s 1 then 1 else r)"

definition response_of :: "rate_limit_config \<Rightarrow> bool \<Rightarrow> (nat \<Rightarrow> gotime) \<Rightarrow> nat \<Rightarrow> check_limit_response" where
  "response_of cfg ok c n = \<lparr>clr_allowed = ok, clr_remaining = (if ok then cfg_limit cfg else 0),
     clr_reset_at = next_start (cfg_window_seconds cfg) (c n),
     clr_retry_after = retry_seconds (cfg_window_seconds cfg) (c (n + 1)) (c (n + 2))\<rparr>"

lemma response_of_simps [simp]:
  "clr_allowed (response_of cfg ok c n) = ok"
  "clr_remaining (response_of cfg ok c n) = (if ok then cfg_limit cfg else 0)"
  "clr_reset_at (response_of cfg ok c n) = next_start (cfg_window_seconds cfg) (c n)"
  "clr_retry_after (response_of cfg ok c n) = retry_seconds (cfg_window_seconds cfg) (c (n + 1)) (c (n + 2))"
  by (simp_all add: response_of_def)

lemma limit_response_eq:
  "cfg_window_seconds cfg \<noteq> 0 \<Longrightarrow> limit_response cfg ok err w =
    (Returns (Inr (response_of cfg (ok \<or> err \<noteq> None) (w_clock w) (w_reads w))), skip 3 w)"
  by (simp add: limit_response_def Let_def calculate_reset_at_def calculate_retry_after_def
      next_window_start_def calculate_remaining_def tick_skip response_of_def next_start_def
      retry_seconds_def now_def)

text \<open>One check, in terms of the limiter's answer.\<close>

lemma check_limit_via:
  assumes "get_config s key w = (Inr cfg, w1)" and "uses s key cfg l" and "cfg_window_seconds cfg \<noteq> 0"
    and "lim_allow l key w1 = (Returns (ok, err), w2)"
  obtains s' where "check_limit s key w =
      (Returns (Inr (response_of cfg ok (w_clock w2) (w_reads w2))), s', skip 3 w2)"
    and "rls_store s' = rls_store s" and "uses s' key cfg l"
    and "rls_limiters s' = (rls_limiters s)(limiter_key key (cfg_algorithm cfg) \<mapsto> l)"
proof -
  obtain s' where s': "get_or_create_limiter s (limiter_key key (cfg_algorithm cfg)) cfg = (Returns (Inr l), s')"
    "rls_store s' = rls_store s" "uses s' key cfg l"
    "rls_limiters s' = (rls_limiters s)(limiter_key key (cfg_algorithm cfg) \<mapsto> l)"
    using assms(2) by (rule uses_limiter)
  have "ok \<or> err \<noteq> None \<longleftrightarrow> ok" using lim_error_allows [of l key w1 ok] assms(4) by auto
  then have "check_limit s key w =
      (Returns (Inr (response_of cfg ok (w_clock w2) (w_reads w2))), s', skip 3 w2)"
    by (simp add: check_limit_def assms(1,4) s'(1) limit_response_eq [OF assms(3)])
  then show thesis using that s'(2-4) by blast
qed

section \<open>Sequences of checks\<close>

text \<open>
  Checks of one key one after the other, with other activity before each: the readings of the
  clock at the call and at its return, and what it returned.
\<close>

type_synonym check_result = "(go_error + check_limit_response) outcome"

fun check_seq ::
    "'s rate_limit_service \<Rightarrow> string \<Rightarrow> ('s world \<Rightarrow> 's world) list \<Rightarrow> 's world \<Rightarrow>
     ((int \<times> int) \<times> check_result) list" where
  "check_seq s key [] w = []"
| "check_seq s key (g # gs) w = (case check_limit s key (g w) of
      (r, s', w') \<Rightarrow> ((t_wall (now (g w)), t_wall (now w')), r) # check_seq s' key gs w')"

fun verdict :: "check_result \<Rightarrow> bool option" where
  "verdict (Returns (Inr resp)) = Some (clr_allowed resp)"
| "verdict _ = None"

fun lim_verdict :: "(bool \<times> go_error option) outcome \<Rightarrow> bool option" where
  "lim_verdict (Returns (ok, err)) = Some ok"
| "lim_verdict (Panics p) = None"

context string_store
begin

lemma check_step:
  assumes "rls_store s = st" and "lim_store l = st" and "panic_free l" and "uses s key cfg l"
    and "cfg_algorithm cfg \<in> set valid_algorithms" and "cfg_window_seconds cfg \<noteq> 0"
    and "holds lookup w (config_key key) (json_print (config_json cfg))"
  obtains s' ok err w2 n
    where "check_limit s key w =
      (Returns (Inr (response_of cfg ok (w_clock w2) (w_reads w2))), s', skip 3 w2)"
    and "lim_allow l key (snd (get_config s key w)) = (Returns (ok, err), w2)"
    and "rls_store s' = st" and "uses s' key cfg l" and "undisturbed lookup (config_key key) w w2"
    and "snd (get_config s key w) = skip n w"
proof -
  obtain n where get: "get_config s key w = (Inr cfg, skip n w)"
    using assms(1,7,5) by (rule get_config_held)
  obtain ok err w2 where al: "lim_allow l key (skip n w) = (Returns (ok, err), w2)"
    using assms(3) by (rule lim_allow_returns)
  obtain s' where r: "check_limit s key w =
      (Returns (Inr (response_of cfg ok (w_clock w2) (w_reads w2))), s', skip 3 w2)"
    "rls_store s' = rls_store s" "uses s' key cfg l"
    using check_limit_via [OF get assms(4,6) al] by blast
  have "undisturbed lookup (config_key key) (skip n w) w2"
    using lim_undisturbed [OF assms(2), of "config_key key" key "skip n w"] al by simp
  then have "undisturbed lookup (config_key key) w w2" by (simp add: undisturbed_def)
  moreover have "snd (get_config s key w) = skip n w" by (simp add: get)
  ultimately show thesis using that [OF r(1)] r(2,3) al assms(1) by simp
qed

text \<open>
  A sequence of checks is a sequence of calls of the limiter: what is between two of them (the
  end of one check, the activity, the beginning of the next) is quiet for a key for which the
  activity is.
\<close>

lemma check_seq_limiter:
  assumes "lim_store l = st" and "panic_free l"
    and "cfg_algorithm cfg \<in> set valid_algorithms" and "cfg_window_seconds cfg \<noteq> 0"
    and "\<forall>g \<in> set gs. quiet lookup (config_key key) g" and "rls_store s = st" and "uses s key cfg l"
    and "steady (w_clock w)" and "holds lookup w (config_key key) (json_print (config_json cfg))"
  shows "\<exists>hs. length hs = length gs \<and>
    (\<forall>j. (\<forall>g \<in> set gs. quiet lookup j g) \<longrightarrow> (\<forall>h \<in> set hs. quiet lookup j h)) \<and>
    map (verdict \<circ> snd) (check_seq s key gs (skip n w)) = map (lim_verdict \<circ> snd) (call_seq (lim_allow l key) hs w) \<and>
    inside (check_seq s key gs (skip n w)) (map fst (call_seq (lim_allow l key) hs w))"
  using assms(5-)
proof (induction gs arbitrary: s n w)
  case (Cons g gs)
  have c: "steady (w_clock w)" using Cons.prems by simp
  have g: "quiet lookup (config_key key) (\<lambda>w. g (skip n w))"
    using Cons.prems(1) by (simp add: quiet_comp [of lookup _ g "skip n", OF _ quiet_skip])
  define w0 where "w0 = g (skip n w)"
  have w0: "w_clock w0 = w_clock w" "w_reads w \<le> w_reads w0"
    using quiet_world [OF g c] by (simp_all add: w0_def)
  have "holds lookup w0 (config_key key) (json_print (config_json cfg))"
    using quiet_holds [OF g c Cons.prems(5)] by (simp add: w0_def)
  then obtain s' ok err w2 m where step: "check_limit s key w0 =
      (Returns (Inr (response_of cfg ok (w_clock w2) (w_reads w2))), s', skip 3 w2)"
    "lim_allow l key (snd (get_config s key w0)) = (Returns (ok, err), w2)"
    "rls_store s' = st" "uses s' key cfg l" "undisturbed lookup (config_key key) w0 w2"
    "snd (get_config s key w0) = skip m w0"
    by (rule check_step [OF Cons.prems(2) assms(1,2) Cons.prems(3) assms(3,4)])
  have w2: "w_clock w2 = w_clock w0" and h2: "holds lookup w2 (config_key key) (json_print (config_json cfg))"
    using step(5) undisturbed_holds [OF step(5)] \<open>holds lookup w0 _ _\<close> by (simp_all add: undisturbed_def)
  have "w_reads (skip m w0) \<le> w_reads w2"
    using lim_undisturbed [OF assms(1), of "config_key key" key "skip m w0"] step(2,6)
    by (simp add: undisturbed_def)
  then have le: "t_wall (now w0) \<le> t_wall (now (skip m w0))" "t_wall (now (skip m w0)) \<le> t_wall (now (skip 3 w2))"
    using c w0 w2 by (simp_all add: now_def steady_mono)
  have rest: "\<forall>g \<in> set gs. quiet lookup (config_key key) g" and c2: "steady (w_clock w2)"
    using Cons.prems(1) c w0 w2 by simp_all
  obtain hs where hs: "length hs = length gs"
    "\<forall>j. (\<forall>g \<in> set gs. quiet lookup j g) \<longrightarrow> (\<forall>h \<in> set hs. quiet lookup j h)"
    "map (verdict \<circ> snd) (check_seq s' key gs (skip 3 w2)) = map (lim_verdict \<circ> snd) (call_seq (lim_allow l key) hs w2)"
    "inside (check_seq s' key gs (skip 3 w2)) (map fst (call_seq (lim_allow l key) hs w2))"
    using Cons.IH [OF rest step(3,4) c2 h2, of 3] by blast
  let ?h = "\<lambda>w. snd (get_config s key (g (skip n w)))"
  have q: "quiet lookup j ?h" if "quiet lookup j g" for j
  proof -
    have "quiet lookup j (\<lambda>w. snd (get_config s key w))"
      using get_config_undisturbed [OF Cons.prems(2)] by (rule quietI)
    then show ?thesis
      using quiet_comp [of lookup j g "skip n", OF that quiet_skip] by (rule quiet_comp)
  qed
  have h: "?h w = skip m w0" using step(6) by (simp add: w0_def)
  show ?case
  proof (intro exI [of _ "?h # hs"] conjI)
    show "\<forall>j. (\<forall>g \<in> set (g # gs). quiet lookup j g) \<longrightarrow> (\<forall>h \<in> set (?h # hs). quiet lookup j h)"
      using hs(2) q by simp
    show "map (verdict \<circ> snd) (check_seq s key (g # gs) (skip n w)) =
        map (lim_verdict \<circ> snd) (call_seq (lim_allow l key) (?h # hs) w)"
      using hs(3) step(1,2) by (simp add: h step(6) w0_def [symmetric])
    show "inside (check_seq s key (g # gs) (skip n w)) (map fst (call_seq (lim_allow l key) (?h # hs) w))"
      using hs(4) step(1,2) le by (simp add: h step(6) w0_def [symmetric])
  qed (simp add: hs(1))
qed simp

end

section \<open>The cache of limiters\<close>

fun lim_algorithm :: "'s rate_limiter \<Rightarrow> string" where
  "lim_algorithm (TokenBucket tb) = algorithm_token_bucket"
| "lim_algorithm (SlidingWindow sw) = algorithm_sliding_window"
| "lim_algorithm (FixedWindow fw) = algorithm_fixed_window"
| "lim_algorithm (LeakyBucket lb) = algorithm_leaky_bucket"

definition sound_service :: "'s rate_limit_service \<Rightarrow> bool" where
  "sound_service s \<longleftrightarrow> (\<forall>k l. rls_limiters s k = Some l \<longrightarrow>
     lim_store l = rls_store s \<and> (\<exists>key. k = limiter_key key (lim_algorithm l)))"

lemma make_limiter_sound:
  "make_limiter st cfg = Inr l \<Longrightarrow> lim_store l = st \<and> lim_algorithm l = cfg_algorithm cfg"
  by (auto simp: make_limiter_def Let_def new_token_bucket_def split: if_splits)

lemma get_or_create_sound:
  assumes "sound_service s" and "get_or_create_limiter s (limiter_key key (cfg_algorithm cfg)) cfg = (r, s')"
  shows "sound_service s' \<and> rls_store s' = rls_store s \<and> (\<forall>l. r = Returns (Inr l) \<longrightarrow> lim_store l = rls_store s)"
  using assms make_limiter_sound [of "rls_store s" cfg]
  by (auto simp: get_or_create_limiter_def sound_service_def split: option.splits if_splits sum.splits)

lemma check_limit_service:
  assumes "sound_service s"
  shows "sound_service (fst (snd (check_limit s key w))) \<and> rls_store (fst (snd (check_limit s key w))) = rls_store s"
proof -
  have "fst (snd (check_limit s key w)) \<in> insert s {s'. \<exists>cfg r. get_or_create_limiter s (limiter_key key (cfg_algorithm cfg)) cfg = (r, s')}"
    by (auto simp: check_limit_def split: prod.splits sum.splits outcome.splits)
  then show ?thesis using get_or_create_sound [OF assms] assms by auto
qed

lemma reset_limit_service:
  assumes "sound_service s"
  shows "sound_service (fst (snd (reset_limit s key w))) \<and> rls_store (fst (snd (reset_limit s key w))) = rls_store s"
proof -
  have "fst (snd (reset_limit s key w)) \<in> insert s {s'. \<exists>cfg r. get_or_create_limiter s (limiter_key key (cfg_algorithm cfg)) cfg = (r, s')}"
    by (auto simp: reset_limit_def split: prod.splits sum.splits outcome.splits option.splits)
  then show ?thesis using get_or_create_sound [OF assms] assms by auto
qed

lemma sound_new [simp]: "sound_service (new_rate_limit_service st)"
  by (simp add: sound_service_def new_rate_limit_service_def)

text \<open>Requests to a service, one after the other.\<close>

datatype request =
    SetReq string rate_limit_config
  | CheckReq string
  | StatusReq string
  | ResetReq string

fun serve :: "request \<Rightarrow> 's rate_limit_service \<times> 's world \<Rightarrow> 's rate_limit_service \<times> 's world" where
  "serve (SetReq key cfg) (s, w) = (s, snd (set_config s key cfg w))"
| "serve (CheckReq key) (s, w) = snd (check_limit s key w)"
| "serve (StatusReq key) (s, w) = (s, snd (get_status s key w))"
| "serve (ResetReq key) (s, w) = snd (reset_limit s key w)"

lemma serve_sound:
  assumes "sound_service (fst sw)"
  shows "sound_service (fst (serve r sw)) \<and> rls_store (fst (serve r sw)) = rls_store (fst sw)"
  using assms by (cases sw; cases r) (simp_all add: check_limit_service reset_limit_service)

lemma served_sound:
  "sound_service (fst sw) \<Longrightarrow>
   sound_service (fst (fold serve rs sw)) \<and> rls_store (fst (fold serve rs sw)) = rls_store (fst sw)"
  by (induction rs arbitrary: sw) (simp_all add: serve_sound)

text \<open>The keys of two clients are apart.\<close>

lemma lim_state_key_inject: "lim_state_key l j = lim_state_key l' k \<Longrightarrow> j = k"
  by (cases l; cases l') (simp_all add: tb_state_key_def sw_state_key_def fw_state_key_def lb_state_key_def)

definition client_keys :: "string \<Rightarrow> string set" where
  "client_keys key = {config_key key, metadata_key key, tb_state_key key, sw_state_key key,
     fw_state_key key, lb_state_key key}"

lemma client_keysI [simp]:
  "config_key key \<in> client_keys key" "metadata_key key \<in> client_keys key" "lim_state_key l key \<in> client_keys key"
  by (simp_all add: client_keys_def) (cases l; simp)

lemma client_keys_apart: "i \<in> client_keys j \<Longrightarrow> i \<in> client_keys k \<Longrightarrow> j = k"
  by (auto simp: client_keys_def config_key_def metadata_key_def tb_state_key_def sw_state_key_def
      fw_state_key_def lb_state_key_def)

lemma limit_response_undisturbed: "undisturbed lookup j w (snd (limit_response cfg ok err w))"
  by (simp add: limit_response_def Let_def calculate_reset_at_def calculate_retry_after_def
      next_window_start_def split_beta undisturbed_def split: outcome.split)

context string_store
begin

lemma check_limit_undisturbed:
  assumes "sound_service s" and "rls_store s = st" and "j \<notin> client_keys key"
  shows "undisturbed lookup j w (snd (snd (check_limit s key w)))"
proof -
  obtain x w1 where get: "get_config s key w = (x, w1)" by fastforce
  have u1: "undisturbed lookup j w w1" using get_config_undisturbed [OF assms(2), of j w key] get by simp
  show ?thesis
  proof (cases x)
    case (Inr cfg)
    obtain r s' where lim: "get_or_create_limiter s (limiter_key key (cfg_algorithm cfg)) cfg = (r, s')" by fastforce
    have "undisturbed lookup j w1 (snd (lim_allow l key w1))" if "r = Returns (Inr l)" for l
      using get_or_create_sound [OF assms(1) lim] that assms(2,3) client_keysI(3) [of l key]
      by (intro lim_undisturbed) auto
    then have u2: "undisturbed lookup j w (snd (lim_allow l key w1))" if "r = Returns (Inr l)" for l
      using that u1 undisturbed_trans by blast
    have u3: "undisturbed lookup j w (snd (limit_response cfg ok err (snd (lim_allow l key w1))))"
      if "r = Returns (Inr l)" for l ok err
      using u2 [OF that] limit_response_undisturbed by (rule undisturbed_trans)
    show ?thesis
      using u1 u2 u3 by (auto simp: check_limit_def get Inr lim split_beta split: outcome.split sum.split)
  qed (use u1 in \<open>simp add: check_limit_def get\<close>)
qed

lemma reset_limit_undisturbed:
  assumes "sound_service s" and "rls_store s = st" and "j \<notin> client_keys key"
  shows "undisturbed lookup j w (snd (snd (reset_limit s key w)))"
proof -
  obtain x w1 where get: "get_config s key w = (x, w1)" by fastforce
  have u1: "undisturbed lookup j w w1" using get_config_undisturbed [OF assms(2), of j w key] get by simp
  have j: "j \<noteq> config_key key" "j \<noteq> metadata_key key" using assms(3) by (auto simp: client_keys_def)
  show ?thesis
  proof (cases x)
    case (Inr cfg)
    obtain r s' where lim: "get_or_create_limiter s (limiter_key key (cfg_algorithm cfg)) cfg = (r, s')" by fastforce
    have u2: "undisturbed lookup j w (snd (lim_reset l key w1))" if "r = Returns (Inr l)" for l
    proof -
      have l: "lim_store l = st" using get_or_create_sound [OF assms(1) lim] that assms(2) by simp
      obtain w' where w': "lim_reset l key w1 = (None, w')"
        "\<And>j. j \<noteq> lim_state_key l key \<Longrightarrow> undisturbed lookup j w1 w'"
        using lim_reset_clears [OF l] by blast
      have "j \<noteq> lim_state_key l key" using assms(3) client_keysI(3) by auto
      from undisturbed_trans [OF u1 w'(2) [OF this]] w'(1) show ?thesis by simp
    qed
    have u4: "undisturbed lookup j w (snd (st_delete st (metadata_key key)
        (snd (st_delete st (config_key key) (snd (lim_reset l key w1))))))" if "r = Returns (Inr l)" for l
      using u2 [OF that] undisturbed_delete j by (blast intro: undisturbed_trans)
    show ?thesis
      using u1 u2 u4 assms(2) get_or_create_sound [OF assms(1) lim]
      by (auto simp: reset_limit_def get Inr lim split_beta Let_def split: outcome.split sum.split option.split)
  qed (use u1 in \<open>simp add: reset_limit_def get\<close>)
qed

lemma get_status_undisturbed:
  assumes "rls_store s = st"
  shows "undisturbed lookup j w (snd (get_status s key w))"
proof -
  obtain x w1 where get: "get_config s key w = (x, w1)" by fastforce
  have u1: "undisturbed lookup j w w1" using get_config_undisturbed [OF assms, of j w key] get by simp
  obtain y w2 where md: "parse_metadata s key w1 = (y, w2)" by fastforce
  have "w2 = snd (st_get st (metadata_key key) w1)"
    using md assms by (auto simp: parse_metadata_def split: prod.splits sum.splits if_splits option.splits)
  then have u2: "undisturbed lookup j w w2" using undisturbed_trans [OF u1 undisturbed_get] by simp
  have u3: "undisturbed lookup j w (tick w2)" "undisturbed lookup j w (tick (tick w2))"
    using undisturbed_trans [OF u2 undisturbed_tick]
      undisturbed_trans [OF undisturbed_trans [OF u2 undisturbed_tick] undisturbed_tick] by simp_all
  show ?thesis
    using u1 u2 u3 by (simp add: get_status_def get md Let_def calculate_reset_at_def next_window_start_def
        split_beta split: sum.split outcome.split)
qed

end

fun request_key :: "request \<Rightarrow> string" where
  "request_key (SetReq key cfg) = key"
| "request_key (CheckReq key) = key"
| "request_key (StatusReq key) = key"
| "request_key (ResetReq key) = key"

context string_store
begin

lemma serve_undisturbed:
  assumes "sound_service s" and "rls_store s = st" and "j \<notin> client_keys (request_key r)"
  shows "undisturbed lookup j w (snd (serve r (s, w)))"
  using assms set_config_undisturbed check_limit_undisturbed reset_limit_undisturbed get_status_undisturbed
  by (cases r) (auto simp: client_keys_def)

end

section \<open>A service on the concrete client\<close>

text \<open>The setting of the witnesses: a limit of 2 in a second, over the client of \<open>redis_map\<close>.\<close>

definition demo_config :: "string \<Rightarrow> rate_limit_config" where
  "demo_config alg = \<lparr>cfg_algorithm = alg, cfg_limit = 2, cfg_window_seconds = 1,
     cfg_refill_rate = 1, cfg_refill_interval = 1\<rparr>"

definition demo_clock :: "nat \<Rightarrow> gotime" where
  "demo_clock i = ramp_clock 0 100000000 (min i 100)"

definition demo_world :: "redis_map world" where
  "demo_world = \<lparr>w_store = Map.empty, w_clock = demo_clock, w_reads = 0\<rparr>"

abbreviation demo_service :: "redis_map rate_limit_service" where
  "demo_service \<equiv> new_rate_limit_service (redis_ops map_client)"

definition demo_set :: "string \<Rightarrow> redis_map world" where
  "demo_set alg = snd (set_config demo_service ''u'' (demo_config alg) demo_world)"

lemma demo_config_simps [simp]:
  "cfg_algorithm (demo_config alg) = alg" "cfg_limit (demo_config alg) = 2"
  "cfg_window_seconds (demo_config alg) = 1"
  by (simp_all add: demo_config_def)

lemma demo_world_simps [simp]:
  "w_clock demo_world = demo_clock" "w_reads demo_world = 0" "rls_store demo_service = redis_ops map_client"
  "rls_limiters demo_service k = None"
  by (simp_all add: demo_world_def new_rate_limit_service_def)

lemma demo_clock_steady [simp]: "steady demo_clock"
  by (auto simp: steady_def demo_clock_def ramp_clock_def)

lemma demo_clock_range: "in_range demo_clock 2 (1 * second)"
  using in_range_plateau by (simp add: demo_clock_def [abs_def] second_def)

lemma demo_nothing: "holds map_lookup demo_world k []"
  by (simp add: holds_def demo_world_def map_lookup_def)

lemma demo_valid: "alg \<in> set valid_algorithms \<Longrightarrow> well_configured (demo_config alg)"
  by (simp add: well_configured_def demo_config_def)

lemma demo_set_config:
  assumes "alg \<in> set valid_algorithms"
  shows "set_config demo_service ''u'' (demo_config alg) demo_world = (None, demo_set alg)"
  by (rule redis_durable.set_config_accepts [OF demo_world_simps(3) demo_valid [OF assms],
        of "''u''" demo_world]) (simp add: demo_set_def)

lemma demo_held:
  assumes "alg \<in> set valid_algorithms"
  shows "holds map_lookup (demo_set alg) (config_key ''u'') (json_print (config_json (demo_config alg)))"
  using demo_world_simps(3) demo_set_config [OF assms] by (rule redis_durable.set_config_holds)

abbreviation demo_limiter :: "redis_map rate_limiter" where
  "demo_limiter \<equiv> FixedWindow (new_fixed_window (redis_ops map_client) 2 second)"

lemma demo_limiter: "make_limiter (redis_ops map_client) (demo_config algorithm_fixed_window) = Inr demo_limiter"
  by (simp add: make_limiter_def Let_def algorithm_defs)

lemma demo_check:
  obtains s w' where "snd (check_limit demo_service ''u'' (demo_set algorithm_fixed_window)) = (s, w')"
    and "rls_limiters s (limiter_key ''u'' algorithm_fixed_window) = Some demo_limiter"
proof -
  have valid: "algorithm_fixed_window \<in> set valid_algorithms" by (simp add: valid_algorithms_def)
  obtain n where get: "get_config demo_service ''u'' (demo_set algorithm_fixed_window) =
      (Inr (demo_config algorithm_fixed_window), skip n (demo_set algorithm_fixed_window))"
    by (rule redis_map.get_config_held [OF demo_world_simps(3) demo_held [OF valid]])
      (simp_all add: valid)
  have uses: "uses demo_service ''u'' (demo_config algorithm_fixed_window) demo_limiter"
    by (simp add: uses_def demo_limiter)
  obtain ok err w2 where al: "lim_allow demo_limiter ''u'' (skip n (demo_set algorithm_fixed_window)) =
      (Returns (ok, err), w2)"
    by (rule lim_allow_returns [of demo_limiter]) simp
  obtain s' where s': "check_limit demo_service ''u'' (demo_set algorithm_fixed_window) =
      (Returns (Inr (response_of (demo_config algorithm_fixed_window) ok (w_clock w2) (w_reads w2))), s', skip 3 w2)"
    "rls_limiters s' = (rls_limiters demo_service)
      (limiter_key ''u'' (cfg_algorithm (demo_config algorithm_fixed_window)) \<mapsto> demo_limiter)"
    by (rule check_limit_via [OF get uses _ al]) simp_all
  show thesis
  proof (rule that)
    show "snd (check_limit demo_service ''u'' (demo_set algorithm_fixed_window)) = (s', skip 3 w2)"
      by (simp only: s'(1) snd_conv)
    show "rls_limiters s' (limiter_key ''u'' algorithm_fixed_window) = Some demo_limiter"
      by (simp only: s'(2) demo_config_simps fun_upd_same)
  qed
qed

lemma demo_quiet:
  assumes "j \<notin> client_keys (request_key r)"
  shows "quiet map_lookup j (\<lambda>w. snd (serve r (demo_service, w)))"
  by (rule quietI) (rule redis_map.serve_undisturbed [OF sound_new demo_world_simps(3) assms])

text \<open>
  C11: Whatever requests a service has served, the limiter it has cached under a key and one of the
  four algorithms is a limiter of that algorithm, and works on the store of the service.
\<close>

theorem cached_limiters_typed:
  assumes "(s, w') = fold serve rs (new_rate_limit_service st, w)"
    and "rls_limiters s (limiter_key key alg) = Some l" and "alg \<in> set valid_algorithms"
  shows "lim_algorithm l = alg \<and> lim_store l = st"
proof -
  have "sound_service s" and st: "rls_store s = st"
    using served_sound [of "(new_rate_limit_service st, w)" rs] assms(1) [symmetric]
    by (simp_all add: new_rate_limit_service_def sound_service_def)
  with assms(2) obtain k where k: "limiter_key key alg = limiter_key k (lim_algorithm l)" "lim_store l = st"
    unfolding sound_service_def by metis
  have "lim_algorithm l \<in> set valid_algorithms" by (cases l) (simp_all add: valid_algorithms_def)
  then have "lim_algorithm l = alg"
    using k(1) assms(3) limiter_key_inject [of "empty_config\<lparr>cfg_algorithm := alg\<rparr>"
        "empty_config\<lparr>cfg_algorithm := lim_algorithm l\<rparr>" key k] by simp
  then show ?thesis using k(2) by simp
qed

theorem cached_limiters_typed_witness:
  "lim_algorithm demo_limiter = algorithm_fixed_window \<and> lim_store demo_limiter = redis_ops map_client"
proof -
  obtain s w' where s: "snd (check_limit demo_service ''u'' (demo_set algorithm_fixed_window)) = (s, w')"
    "rls_limiters s (limiter_key ''u'' algorithm_fixed_window) = Some demo_limiter"
    by (rule demo_check)
  have "(s, w') = fold serve [SetReq ''u'' (demo_config algorithm_fixed_window), CheckReq ''u''] (demo_service, demo_world)"
    using s(1) by (simp add: demo_set_def)
  from cached_limiters_typed [OF this s(2)] show ?thesis by (simp add: valid_algorithms_def)
qed

text \<open>
  C10: Over Redis a request about one key leaves the configuration, the metadata and the limiter
  state of every other key as they were, whatever the service served before.
\<close>

theorem requests_isolated:
  assumes "redis_serves c lookup alive" and "(s, w0) = fold serve rs (new_rate_limit_service (redis_ops c), w)"
    and "request_key r \<noteq> key" and "j \<in> client_keys key"
  shows "quiet lookup j (\<lambda>w. snd (serve r (s, w)))"
proof -
  have "sound_service s" "rls_store s = redis_ops c"
    using served_sound [of "(new_rate_limit_service (redis_ops c), w)" rs] assms(2) [symmetric]
    by (simp_all add: new_rate_limit_service_def sound_service_def)
  moreover have "j \<notin> client_keys (request_key r)" using assms(3,4) client_keys_apart by blast
  ultimately show ?thesis
    using string_store.serve_undisturbed [OF redis_string_store [OF assms(1)]] by (intro quietI) blast
qed

theorem requests_isolated_witness:
  "quiet map_lookup (config_key ''u'') (\<lambda>w. snd (serve (ResetReq ''v'') (demo_service, w)))"
  using requests_isolated [OF map_client_serves, of demo_service demo_world "[]" demo_world "ResetReq ''v''" "''u''"
      "config_key ''u''"] by simp

end
