(* ===== verification/ServiceNumbers.thy ===== *)
theory ServiceNumbers
  imports ServiceContract
begin

text \<open>
  The numbers in a response: \<open>reset_at\<close> is the next multiple of the window since the Unix
  epoch, and \<open>retry_after\<close> the whole seconds up to it, at least 1. The limiters start their
  windows at the first request instead, so neither says when a request is allowed again.
\<close>

definition secs_of :: "gotime \<Rightarrow> int" where
  "secs_of t = t_wall t div 1000000000"

definition next_multiple :: "int \<Rightarrow> int \<Rightarrow> int" where
  "next_multiple win x = (x div win + 1) * win"

lemma next_multiple:
  assumes "0 < win"
  shows "x < next_multiple win x" and "next_multiple win x \<le> x + win" and "win dvd next_multiple win x"
proof -
  have "x = x div win * win + x mod win" by simp
  moreover have "0 \<le> x mod win" "x mod win < win" using assms by simp_all
  ultimately show "x < next_multiple win x" "next_multiple win x \<le> x + win"
    unfolding next_multiple_def distrib_right by linarith+
qed (simp add: next_multiple_def)

text \<open>Readings for which no 64-bit number wraps: before the year 2262 less the window.\<close>

definition in_epoch :: "int64 \<Rightarrow> gotime \<Rightarrow> bool" where
  "in_epoch win t \<longleftrightarrow> 0 \<le> t_wall t \<and> 0 < sint win \<and> t_wall t + sint win * 1000000000 < 2 ^ 63"

lemma in_epochD:
  assumes "in_epoch win t"
  shows "0 \<le> t_wall t" and "0 < sint win" and "t_wall t + sint win * 1000000000 < 9223372036854775808"
    and "0 \<le> secs_of t" and "secs_of t + sint win \<le> 9223372036"
proof -
  show *: "0 \<le> t_wall t" "0 < sint win" "t_wall t + sint win * 1000000000 < 9223372036854775808"
    using assms by (simp_all add: in_epoch_def)
  show "0 \<le> secs_of t" using * by (simp add: secs_of_def pos_imp_zdiv_nonneg_iff)
  have "secs_of t * 1000000000 \<le> t_wall t"
    using pos_mod_sign [of 1000000000 "t_wall t"] minus_mod_eq_div_mult [of "t_wall t" 1000000000]
    unfolding secs_of_def by linarith
  then show "secs_of t + sint win \<le> 9223372036" using * by linarith
qed

lemma sint_unix_sec:
  assumes "in_epoch win t"
  shows "sint (unix_sec t) = secs_of t"
  using in_epochD [OF assms] by (simp add: unix_sec_def secs_of_def sint_of_int_i64 in_i64_def)

lemma sint_next_start:
  assumes "in_epoch win t"
  shows "sint (next_start win t) = next_multiple (sint win) (secs_of t)"
proof -
  note e = in_epochD [OF assms]
  have q: "sint (go_div (unix_sec t) win) = secs_of t div sint win"
    using e by (simp add: sint_go_div sint_unix_sec [OF assms])
  have b: "0 \<le> secs_of t div sint win" "secs_of t div sint win \<le> secs_of t"
    using div_nonneg_bound [of "secs_of t" "sint win"] e by simp_all
  have s: "sint (go_div (unix_sec t) win + 1) = secs_of t div sint win + 1"
    using b e by (simp add: sint_add_i64 q in_i64_def)
  have n: "next_multiple (sint win) (secs_of t) \<le> secs_of t + sint win" "secs_of t < next_multiple (sint win) (secs_of t)"
    using next_multiple [of "sint win" "secs_of t"] e by simp_all
  then have "in_i64 ((secs_of t div sint win + 1) * sint win)"
    using e by (simp add: in_i64_def next_multiple_def)
  then show ?thesis by (simp add: next_start_def sint_mult_i64 s next_multiple_def)
qed

text \<open>\<open>Seconds()\<close> of a duration, as an \<open>int\<close>: the whole seconds, or one more when it rounds up.\<close>

lemma secs_of_whole: "secs (k * 1000000000) = rnd (of_int k)"
  by (simp add: secs_def)

lemma secs_floor:
  assumes "0 \<le> n" and "n < 9223372036854775808"
  shows "n div 1000000000 \<le> \<lfloor>secs n\<rfloor>" and "\<lfloor>secs n\<rfloor> \<le> - (- n div 1000000000)"
proof -
  have b: "0 \<le> n div 1000000000" "n div 1000000000 \<le> 9223372036" using assms by (simp_all add: pos_imp_zdiv_nonneg_iff)
  have "rnd (of_int (n div 1000000000)) \<le> secs n"
    unfolding secs_def by (rule rnd_mono) simp
  then show "n div 1000000000 \<le> \<lfloor>secs n\<rfloor>" using b by (simp add: le_floor_iff)
  let ?k = "- (- n div 1000000000)"
  have k: "0 \<le> ?k" "?k \<le> 9223372037" "n \<le> ?k * 1000000000" using assms by simp_all
  have "secs n \<le> secs (?k * 1000000000)" using k(3) by (rule secs_mono)
  also have "\<dots> = rnd (of_int ?k)" by (rule secs_of_whole)
  also have "\<dots> = of_int ?k" using k by (intro rnd_int) simp_all
  finally show "\<lfloor>secs n\<rfloor> \<le> ?k" by linarith
qed

lemma sint_f64_secs:
  assumes "0 \<le> n" and "n < 9223372036854775808"
  shows "sint (f64_to_i64 (fl (secs n))) = \<lfloor>secs n\<rfloor>"
proof -
  have "- (- n div 1000000000) \<le> 9223372037" using assms by simp
  then have "0 \<le> \<lfloor>secs n\<rfloor>" "\<lfloor>secs n\<rfloor> \<le> 9223372037"
    using secs_floor(2) [OF assms] by (simp, linarith)
  then have "in_i64 \<lfloor>secs n\<rfloor>" unfolding in_i64_def by linarith
  moreover have "\<not> secs n < 0" using secs_nonneg [of n] by (simp only: linorder_not_less)
  ultimately show ?thesis by (simp add: fl_def sint_of_int_i64)
qed

lemma retry_bounds:
  assumes "in_epoch win t" and "in_epoch win u" and "t_wall t \<le> t_wall u"
  shows "1 \<le> sint (retry_seconds win t u)"
    and "(next_multiple (sint win) (secs_of u) * 1000000000 - t_wall t) div 1000000000 \<le> sint (retry_seconds win t u)"
    and "sint (retry_seconds win t u) \<le> next_multiple (sint win) (secs_of u) - secs_of t"
proof -
  let ?N = "next_multiple (sint win) (secs_of u)" and ?S = "secs_of t"
  note t = in_epochD [OF assms(1)] and u = in_epochD [OF assms(2)]
  have n: "secs_of u < ?N" "?N \<le> secs_of u + sint win" using next_multiple [of "sint win" "secs_of u"] u by simp_all
  have su: "secs_of u * 1000000000 \<le> t_wall u" "t_wall u < (secs_of u + 1) * 1000000000"
    and st: "?S * 1000000000 \<le> t_wall t" "t_wall t < (?S + 1) * 1000000000"
    unfolding secs_of_def by presburger+
  have N: "sint (next_start win u) = ?N" by (rule sint_next_start [OF assms(2)])
  have "t_wall (time_unix (next_start win u) 0) = ?N * 1000000000"
    using n u by (simp add: time_unix_def sint_add_i64 N in_i64_def)
  moreover have "t_mono (time_unix (next_start win u) 0) = None" by (simp add: time_unix_def)
  ultimately have sub: "time_sub (time_unix (next_start win u) 0) t = saturate (?N * 1000000000 - t_wall t)"
    by (simp add: time_sub_def)
  let ?d = "?N * 1000000000 - t_wall t"
  have "(secs_of u + 1) * 1000000000 \<le> ?N * 1000000000" "?N * 1000000000 \<le> (secs_of u + sint win) * 1000000000"
    using n by simp_all
  then have d: "0 \<le> ?d" "?d < 9223372036854775808"
    using su assms(3) u(3) t(1) by (simp_all add: distrib_right)
  have sd: "sint (saturate ?d) = ?d" using d by (simp add: sint_saturate)
  have r: "sint (f64_to_i64 (dur_seconds (time_sub (time_unix (next_start win u) 0) t))) = \<lfloor>secs ?d\<rfloor>"
    using d by (simp add: sub dur_seconds_fl sd sint_f64_secs)
  have ceil: "- (- (k * 1000000000 - t_wall t) div 1000000000) = k - ?S" for k
    using div_mult_self1 [of 1000000000 "t_wall t" "- k"] by (simp add: secs_of_def)
  have "\<lfloor>secs ?d\<rfloor> \<le> ?N - ?S" using secs_floor(2) [OF d] by (simp only: ceil)
  moreover have "?d div 1000000000 \<le> \<lfloor>secs ?d\<rfloor>" by (rule secs_floor(1) [OF d])
  moreover have "?S \<le> secs_of u" unfolding secs_of_def using assms(3) by (rule zdiv_mono1) simp
  moreover have "sint (retry_seconds win t u) = max 1 \<lfloor>secs ?d\<rfloor>"
    unfolding retry_seconds_def Let_def sless_i64 if_distrib [of sint] r max_def by (simp add: linorder_not_le)
  ultimately show "1 \<le> sint (retry_seconds win t u)"
    "?d div 1000000000 \<le> sint (retry_seconds win t u)"
    "sint (retry_seconds win t u) \<le> ?N - ?S"
    using n by linarith+
qed

end
