(* ===== verification/ServiceRuns.thy ===== *)
theory ServiceRuns
  imports ServiceNumbers
begin

text \<open>
  Runs of \<open>CheckLimit\<close> on one key from a newly set configuration, over Redis: what the limiters
  promise on a store carries over to the service as a whole.
\<close>

lemma make_limiter_store: "make_limiter st cfg = Inr l \<Longrightarrow> lim_store l = st"
  by (auto simp: make_limiter_def Let_def new_token_bucket_def split: if_splits)

lemma make_limiter_panic_free:
  "make_limiter st cfg = Inr l \<Longrightarrow>
   cfg_algorithm cfg = algorithm_leaky_bucket \<longrightarrow> cfg_window_seconds cfg * second \<noteq> 0 \<Longrightarrow> panic_free l"
  by (auto simp: make_limiter_def Let_def split: if_splits)

lemma make_limiter_valid:
  assumes "cfg_algorithm cfg \<in> set valid_algorithms"
  obtains l where "make_limiter st cfg = Inr l"
proof -
  have "make_limiter st cfg \<noteq> Inl e" for e
    using assms by (auto simp: make_limiter_def Let_def valid_algorithms_def)
  then show thesis using that by (cases "make_limiter st cfg") auto
qed

lemma uses_new [simp]:
  "uses (new_rate_limit_service st) key cfg l \<longleftrightarrow> cfg_window_seconds cfg \<noteq> 0 \<and> make_limiter st cfg = Inr l"
  "rls_store (new_rate_limit_service st) = st"
  by (simp_all add: uses_def new_rate_limit_service_def)

lemma call_seq_total:
  "call_seq (total f l k) gs w = map (\<lambda>(t, r). (t, Returns r)) (call_seq (f l k) gs w)"
  by (induction gs arbitrary: w) (simp_all add: total_def split_beta)

lemma total_verdicts:
  assumes "call_seq (f l k) gs w = map (\<lambda>(t, ok). (t, ok, None)) (spec_seq step x (map fst (call_seq (f l k) gs w)))"
  shows "map (lim_verdict \<circ> snd) (call_seq (total f l k) gs w) =
    map (Some \<circ> snd) (spec_seq step x (map fst (call_seq (total f l k) gs w)))"
proof -
  have times: "map fst (call_seq (total f l k) gs w) = map fst (call_seq (f l k) gs w)"
    by (simp add: call_seq_total split_beta o_def)
  have "map (lim_verdict \<circ> snd) (call_seq (total f l k) gs w) =
      map (\<lambda>(t, r). lim_verdict (Returns r)) (call_seq (f l k) gs w)"
    by (simp add: call_seq_total split_beta o_def)
  also have "\<dots> = map (Some \<circ> snd) (spec_seq step x (map fst (call_seq (f l k) gs w)))"
    by (subst assms) (simp add: split_beta o_def)
  finally show ?thesis by (simp only: times)
qed

lemma well_configured_window: "well_configured cfg \<Longrightarrow> cfg_window_seconds cfg \<noteq> 0"
  by (auto simp: well_configured_def)

context durable_store
begin

lemma lim_keeps_clock:
  assumes "lim_store l = st"
  shows "keeps_clock (\<lambda>w. snd (lim_allow l key w))"
  using lim_undisturbed [OF assms, of "config_key key" key]
  by (auto simp: keeps_clock_def undisturbed_def)

lemma check_seq_start:
  assumes "set_config (new_rate_limit_service st) key cfg w0 = (None, w)" and "make_limiter st cfg = Inr l"
    and "cfg_algorithm cfg = algorithm_leaky_bucket \<longrightarrow> cfg_window_seconds cfg * second \<noteq> 0"
    and "\<forall>g \<in> set gs. quiet lookup (config_key key) g \<and> quiet lookup (lim_state_key l key) g"
    and "steady (w_clock w0)" and "holds lookup w0 (lim_state_key l key) []"
  obtains hs where "\<forall>h \<in> set hs. quiet lookup (lim_state_key l key) h"
    and "map (verdict \<circ> snd) (check_seq (new_rate_limit_service st) key gs w) =
      map (lim_verdict \<circ> snd) (call_seq (lim_allow l key) hs w)"
    and "inside (check_seq (new_rate_limit_service st) key gs w) (map fst (call_seq (lim_allow l key) hs w))"
    and "sorted (map fst (call_seq (lim_allow l key) hs w))"
    and "w_clock w = w_clock w0" and "holds lookup w (lim_state_key l key) []"
proof -
  let ?s = "new_rate_limit_service st"
  note set = set_config_holds [OF uses_new(2) assms(1)]
  have und: "undisturbed lookup (lim_state_key l key) w0 w"
    using set_config_undisturbed [of ?s "lim_state_key l key" key w0 cfg] assms(1) by simp
  then have c: "w_clock w = w_clock w0" and h: "holds lookup w (lim_state_key l key) []"
    using undisturbed_holds [OF und assms(6)] by (simp_all add: undisturbed_def)
  note l = make_limiter_store [OF assms(2)] make_limiter_panic_free [OF assms(2,3)]
  have valid: "cfg_algorithm cfg \<in> set valid_algorithms" and win: "cfg_window_seconds cfg \<noteq> 0"
    using set(1) by (auto simp: well_configured_def)
  obtain hs where hs: "\<forall>j. (\<forall>g \<in> set gs. quiet lookup j g) \<longrightarrow> (\<forall>h \<in> set hs. quiet lookup j h)"
    "map (verdict \<circ> snd) (check_seq ?s key gs w) = map (lim_verdict \<circ> snd) (call_seq (lim_allow l key) hs w)"
    "inside (check_seq ?s key gs w) (map fst (call_seq (lim_allow l key) hs w))"
    using check_seq_limiter [OF l valid win, of gs key ?s w 0] assms(2,4,5) set(2) win c by auto
  have q: "\<forall>h \<in> set hs. quiet lookup (lim_state_key l key) h" using hs(1) assms(4) by blast
  then have "\<forall>h \<in> set hs. keeps_clock h" using quiet_keeps_clock by blast
  then have "sorted (map fst (call_seq (lim_allow l key) hs w))"
    using call_seq_sorted [OF lim_keeps_clock [OF l(1)]] assms(5) c by simp
  then show thesis using that q hs(2,3) c h by blast
qed

lemma check_fixed:
  assumes "set_config (new_rate_limit_service st) key cfg w0 = (None, w)"
    and "cfg_algorithm cfg = algorithm_fixed_window"
    and "in_range (w_clock w0) (cfg_limit cfg) (cfg_window_seconds cfg * second)"
    and "\<forall>g \<in> set gs. quiet lookup (config_key key) g \<and> quiet lookup (fw_state_key key) g"
    and "holds lookup w0 (fw_state_key key) []"
  obtains us where "sorted us" and "inside (check_seq (new_rate_limit_service st) key gs w) us"
    and "map (verdict \<circ> snd) (check_seq (new_rate_limit_service st) key gs w) = map (Some \<circ> snd)
      (spec_seq (window_step (sint (cfg_limit cfg)) (sint (cfg_window_seconds cfg * second))) (0, 0) us)"
proof -
  let ?m = "cfg_limit cfg" and ?d = "cfg_window_seconds cfg * second"
  let ?l = "FixedWindow (new_fixed_window st ?m ?d)"
  have mk: "make_limiter st cfg = Inr ?l" and nl: "cfg_algorithm cfg \<noteq> algorithm_leaky_bucket"
    by (simp_all add: make_limiter_def Let_def assms(2) algorithm_defs)
  obtain hs where hs: "\<forall>h \<in> set hs. quiet lookup (lim_state_key ?l key) h"
    "map (verdict \<circ> snd) (check_seq (new_rate_limit_service st) key gs w) =
      map (lim_verdict \<circ> snd) (call_seq (lim_allow ?l key) hs w)"
    "inside (check_seq (new_rate_limit_service st) key gs w) (map fst (call_seq (lim_allow ?l key) hs w))"
    "sorted (map fst (call_seq (lim_allow ?l key) hs w))"
    "w_clock w = w_clock w0" "holds lookup w (lim_state_key ?l key) []"
    using check_seq_start [OF assms(1) mk, of gs] nl assms(4,5) in_rangeD(1) [OF assms(3)] by auto
  have "map (lim_verdict \<circ> snd) (call_seq (lim_allow ?l key) hs w) =
      map (Some \<circ> snd) (spec_seq (window_step (sint ?m) (sint ?d)) (0, 0) (map fst (call_seq (lim_allow ?l key) hs w)))"
    unfolding lim_allow_total using hs(1,5,6) assms(3)
    by (intro total_verdicts fw_refines) (simp_all add: holds_def)
  then show thesis using that [OF hs(4,3)] hs(2) by simp
qed

lemma check_sliding:
  assumes "set_config (new_rate_limit_service st) key cfg w0 = (None, w)"
    and "cfg_algorithm cfg = algorithm_sliding_window"
    and "in_range (w_clock w0) (cfg_limit cfg) (cfg_window_seconds cfg * second)"
    and "0 < sint (cfg_window_seconds cfg * second)"
    and "\<forall>g \<in> set gs. quiet lookup (config_key key) g \<and> quiet lookup (sw_state_key key) g"
    and "holds lookup w0 (sw_state_key key) []"
  obtains us where "sorted us" and "inside (check_seq (new_rate_limit_service st) key gs w) us"
    and "map (verdict \<circ> snd) (check_seq (new_rate_limit_service st) key gs w) = map (Some \<circ> snd)
      (spec_seq (log_step (sint (cfg_limit cfg)) (sint (cfg_window_seconds cfg * second))) [] us)"
proof -
  let ?m = "cfg_limit cfg" and ?d = "cfg_window_seconds cfg * second"
  let ?l = "SlidingWindow (new_sliding_window st ?m ?d)"
  have mk: "make_limiter st cfg = Inr ?l" and nl: "cfg_algorithm cfg \<noteq> algorithm_leaky_bucket"
    by (simp_all add: make_limiter_def Let_def assms(2) algorithm_defs)
  obtain hs where hs: "\<forall>h \<in> set hs. quiet lookup (lim_state_key ?l key) h"
    "map (verdict \<circ> snd) (check_seq (new_rate_limit_service st) key gs w) =
      map (lim_verdict \<circ> snd) (call_seq (lim_allow ?l key) hs w)"
    "inside (check_seq (new_rate_limit_service st) key gs w) (map fst (call_seq (lim_allow ?l key) hs w))"
    "sorted (map fst (call_seq (lim_allow ?l key) hs w))"
    "w_clock w = w_clock w0" "holds lookup w (lim_state_key ?l key) []"
    using check_seq_start [OF assms(1) mk, of gs] nl assms(5,6) in_rangeD(1) [OF assms(3)] by auto
  have "map (lim_verdict \<circ> snd) (call_seq (lim_allow ?l key) hs w) =
      map (Some \<circ> snd) (spec_seq (log_step (sint ?m) (sint ?d)) [] (map fst (call_seq (lim_allow ?l key) hs w)))"
    unfolding lim_allow_total using hs(1,5,6) assms(3,4)
    by (intro total_verdicts sw_refines) (simp_all add: holds_def)
  then show thesis using that [OF hs(4,3)] hs(2) by simp
qed

end

section \<open>Properties of runs\<close>

lemma sint_window:
  "0 \<le> sint win \<Longrightarrow> sint win \<le> 9223372036 \<Longrightarrow> sint (win * second) = sint win * 1000000000"
  by (simp add: sint_mult_i64 in_i64_def)

lemma inside_allowed:
  assumes "inside rs us" and "map (verdict \<circ> snd) rs = map (Some \<circ> snd) (spec_seq step x us)"
  shows "length (filter (\<lambda>((b, e), r). a1 \<le> b \<and> e < a2 \<and> verdict r = Some True) rs)
    \<le> allowed_between a1 a2 (spec_seq step x us)"
  using assms
proof (induction us arbitrary: rs x)
  case (Cons u us)
  from Cons.prems(1) obtain b e r rs' where rs: "rs = ((b, e), r) # rs'" "b \<le> u" "u \<le> e" "inside rs' us"
    by (auto simp: inside_def list_all2_Cons2)
  with Cons.prems(2) Cons.IH [of rs' "snd (step u x)"] show ?case by auto
qed (simp add: inside_def)

text \<open>The witnesses: three checks of \<open>u\<close>, with requests of another client between them.\<close>

definition demo_gs :: "(redis_map world \<Rightarrow> redis_map world) list" where
  "demo_gs = [skip 3, \<lambda>w. snd (serve (CheckReq ''v'') (demo_service, w)), skip 1]"

lemma demo_gs_quiet: "j \<in> client_keys ''u'' \<Longrightarrow> g \<in> set demo_gs \<Longrightarrow> quiet map_lookup j g"
  using demo_quiet [of j "CheckReq ''v''"] client_keys_apart [of j "''u''" "''v''"] by (auto simp: demo_gs_def)

lemma demo_keys [simp]:
  "fw_state_key ''u'' \<in> client_keys ''u''" "sw_state_key ''u'' \<in> client_keys ''u''"
  by (simp_all add: client_keys_def)

lemma demo_valid_algorithms [simp]:
  "algorithm_fixed_window \<in> set valid_algorithms" "algorithm_sliding_window \<in> set valid_algorithms"
  "algorithm_leaky_bucket \<in> set valid_algorithms" "algorithm_token_bucket \<in> set valid_algorithms"
  by (simp_all add: valid_algorithms_def)

text \<open>
  From a configuration newly set over Redis, a run of \<open>CheckLimit\<close> on a key with a fixed
  window answers as the fixed-window specification does with \<open>limit\<close> and \<open>window_seconds\<close>, each
  check taking effect at an instant between its call and its return: whatever is done to other
  keys in between, it neither fails nor panics.
\<close>

theorem check_fixed_window:
  assumes "redis_serves c lookup alive"
    and "set_config (new_rate_limit_service (redis_ops c)) key cfg w0 = (None, w)"
    and "cfg_algorithm cfg = algorithm_fixed_window" and "sint (cfg_window_seconds cfg) \<le> 9223372036"
    and "in_range (w_clock w0) (cfg_limit cfg) (cfg_window_seconds cfg * second)"
    and "\<forall>g \<in> set gs. quiet lookup (config_key key) g \<and> quiet lookup (fw_state_key key) g"
    and "holds lookup w0 (fw_state_key key) []"
    and "rs = check_seq (new_rate_limit_service (redis_ops c)) key gs w"
  shows "\<exists>us. sorted us \<and> inside rs us \<and> map (verdict \<circ> snd) rs = map (Some \<circ> snd)
    (spec_seq (window_step (sint (cfg_limit cfg)) (sint (cfg_window_seconds cfg) * 1000000000)) (0, 0) us)"
proof -
  have "well_configured cfg"
    using assms(2) by (auto simp: set_config_def validate_config_iff split: option.splits)
  then have "sint (cfg_window_seconds cfg * second) = sint (cfg_window_seconds cfg) * 1000000000"
    using assms(4) by (simp add: sint_window well_configured_def)
  then show ?thesis
    using durable_store.check_fixed [OF redis_durable_store [OF assms(1)] assms(2,3,5,6,7)]
    unfolding assms(8) by metis
qed

theorem check_fixed_window_witness:
  "\<exists>us. sorted us \<and> inside (check_seq demo_service ''u'' demo_gs (demo_set algorithm_fixed_window)) us \<and>
    map (verdict \<circ> snd) (check_seq demo_service ''u'' demo_gs (demo_set algorithm_fixed_window)) =
      map (Some \<circ> snd) (spec_seq (window_step 2 1000000000) (0, 0) us)"
  using check_fixed_window [OF map_client_serves demo_set_config [of algorithm_fixed_window], of demo_gs]
    demo_clock_range demo_nothing demo_gs_quiet by simp


text \<open>
  From a configuration newly set over Redis, at most \<open>limit\<close> of the checks of a key with a
  sliding window that lie in one interval of \<open>window_seconds\<close> are allowed.
\<close>

theorem check_sliding_window:
  assumes "redis_serves c lookup alive"
    and "set_config (new_rate_limit_service (redis_ops c)) key cfg w0 = (None, w)"
    and "cfg_algorithm cfg = algorithm_sliding_window" and "sint (cfg_window_seconds cfg) \<le> 9223372036"
    and "in_range (w_clock w0) (cfg_limit cfg) (cfg_window_seconds cfg * second)"
    and "\<forall>g \<in> set gs. quiet lookup (config_key key) g \<and> quiet lookup (sw_state_key key) g"
    and "holds lookup w0 (sw_state_key key) []"
    and "rs = check_seq (new_rate_limit_service (redis_ops c)) key gs w"
  shows "int (length (filter (\<lambda>((b, e), r). a \<le> b \<and> e < a + sint (cfg_window_seconds cfg) * 1000000000 \<and>
    verdict r = Some True) rs)) \<le> sint (cfg_limit cfg)"
proof -
  have wc: "well_configured cfg"
    using assms(2) by (auto simp: set_config_def validate_config_iff split: option.splits)
  then have d: "sint (cfg_window_seconds cfg * second) = sint (cfg_window_seconds cfg) * 1000000000"
    using assms(4) by (simp add: sint_window well_configured_def)
  let ?d = "sint (cfg_window_seconds cfg) * 1000000000" and ?m = "sint (cfg_limit cfg)"
  have pos: "0 < ?d" using wc by (simp add: well_configured_def)
  obtain us where us: "sorted us" "inside rs us"
    "map (verdict \<circ> snd) rs = map (Some \<circ> snd) (spec_seq (log_step ?m ?d) [] us)"
    using durable_store.check_sliding [OF redis_durable_store [OF assms(1)] assms(2,3,5) _ assms(6,7)]
      d pos unfolding assms(8) by metis
  have "log_ok ?m ?d []" using wc by (simp add: log_ok_def well_configured_def)
  then have "int (allowed_between a (a + ?d) (spec_seq (log_step ?m ?d) [] us)) \<le> ?m"
    using log_run_bound [of ?m ?d "[]" us "a - 1"] us(1) pos by simp
  then show ?thesis using inside_allowed [OF us(2,3), of a "a + ?d"] by linarith
qed

theorem check_sliding_window_witness:
  "length (filter (\<lambda>((b, e), r). 0 \<le> b \<and> e < 1000000000 \<and> verdict r = Some True)
    (check_seq demo_service ''u'' demo_gs (demo_set algorithm_sliding_window))) \<le> 2"
  using check_sliding_window [OF map_client_serves demo_set_config [of algorithm_sliding_window], of demo_gs _ 0]
    demo_clock_range demo_nothing demo_gs_quiet by simp


section \<open>Properties of the operations\<close>

text \<open>
  C9: Over Redis \<open>SetConfig\<close> accepts a configuration if and only if it names one of the four
  algorithms, its limit and window are positive, and, for the token bucket, its refill too. An
  accepted one is what \<open>GetConfig\<close> returns from then on, in any service on the store, as long as
  nothing else writes to its key; a rejected one changes nothing.
\<close>

theorem config_roundtrip:
  assumes "redis_serves c lookup alive" and "rls_store s = redis_ops c" and "rls_store s' = redis_ops c"
    and "steady (w_clock w)" and "quiet lookup (config_key key) g"
    and "set_config s key cfg w = (err, w')"
  shows "if well_configured cfg then err = None \<and> fst (get_config s' key (g w')) = Inr cfg
    else err \<noteq> None \<and> w' = w"
proof (cases "well_configured cfg")
  case True
  note ds = redis_durable_store [OF assms(1)] and ss = redis_string_store [OF assms(1)]
  obtain w1 where "set_config s key cfg w = (None, w1)"
    by (rule durable_store.set_config_accepts [OF ds assms(2) True])
  then have e: "err = None" "set_config s key cfg w = (None, w')" using assms(6) by simp_all
  have valid: "cfg_algorithm cfg \<in> set valid_algorithms" using True by (simp add: well_configured_def)
  have "undisturbed lookup (config_key (key @ ''x'')) w (snd (set_config s key cfg w))"
    by (rule string_store.set_config_undisturbed [OF ss assms(2)]) simp_all
  then have c: "steady (w_clock w')" using assms(4) e(2) by (simp add: undisturbed_def)
  have "holds lookup w' (config_key key) (json_print (config_json cfg))"
    by (rule durable_store.set_config_holds(2) [OF ds assms(2) e(2)])
  from quiet_holds [OF assms(5) c this]
  obtain n where "get_config s' key (g w') = (Inr cfg, skip n (g w'))"
    by (rule string_store.get_config_held [OF ss assms(3) _ valid])
  then show ?thesis using True e(1) by simp
next
  case False
  then obtain e where "set_config s key cfg w = (Some e, w)"
    using durable_store.set_config_rejects [OF redis_durable_store [OF assms(1)]] by blast
  with assms(6) False show ?thesis by auto
qed

theorem config_roundtrip_witness:
  "fst (get_config demo_service ''u'' (skip 5 (demo_set algorithm_leaky_bucket))) = Inr (demo_config algorithm_leaky_bucket)"
  using config_roundtrip [OF map_client_serves, of demo_service demo_service demo_world "''u''" "skip 5"]
    demo_set_config [of algorithm_leaky_bucket] demo_valid [of algorithm_leaky_bucket] by simp


lemma set_config_world:
  assumes "redis_serves c lookup alive" and "rls_store s = redis_ops c" and "set_config s key cfg w = (None, w')"
  shows "w_clock w' = w_clock w" and "well_configured cfg"
    and "holds lookup w' (config_key key) (json_print (config_json cfg))"
    and "undisturbed lookup (lim_state_key l key) w w'"
proof -
  note ss = redis_string_store [OF assms(1)]
  have "undisturbed lookup (lim_state_key l key) w (snd (set_config s key cfg w))"
    by (rule string_store.set_config_undisturbed [OF ss assms(2)]) simp_all
  then show "undisturbed lookup (lim_state_key l key) w w'" "w_clock w' = w_clock w"
    using assms(3) by (simp_all add: undisturbed_def)
qed (rule durable_store.set_config_holds [OF redis_durable_store [OF assms(1)] assms(2,3)])+

lemma uses_fresh:
  assumes "rls_limiters s (limiter_key key (cfg_algorithm cfg)) = None" and "well_configured cfg"
  obtains l where "make_limiter (rls_store s) cfg = Inr l" and "uses s key cfg l"
proof -
  have "cfg_algorithm cfg \<in> set valid_algorithms" and "cfg_window_seconds cfg \<noteq> 0"
    using assms(2) by (auto simp: well_configured_def)
  with make_limiter_valid [of cfg "rls_store s"] obtain l where "make_limiter (rls_store s) cfg = Inr l" by blast
  with assms(1) \<open>cfg_window_seconds cfg \<noteq> 0\<close> that show thesis by (simp add: uses_def)
qed

text \<open>
  C8: After an accepted \<open>SetConfig\<close> over Redis, with one steady clock, a \<open>CheckLimit\<close> for which no limiter
  is cached returns a response, unless the algorithm is the leaky bucket and the window in nanoseconds
  wraps to 0 (then it panics). \<open>remaining\<close> is the limit or 0; \<open>reset_at\<close> is the first multiple of the
  window after the second of the third last reading \<open>n\<close> of the clock in the call; \<open>retry_after\<close> is the time
  from reading \<open>n + 1\<close> to the first multiple after reading \<open>n + 2\<close>, in seconds rounded down or up, and
  at least 1. Assumed: no reading of the clock and the window added to it is past 2262.
\<close>

theorem check_limit_responds:
  assumes "redis_serves c lookup alive" and "rls_store s = redis_ops c"
    and "set_config s key cfg w = (None, w')"
    and "rls_limiters s (limiter_key key (cfg_algorithm cfg)) = None"
    and "cfg_algorithm cfg = algorithm_leaky_bucket \<longrightarrow> cfg_window_seconds cfg * second \<noteq> 0"
    and "steady (w_clock w)" and "\<forall>i. in_epoch (cfg_window_seconds cfg) (w_clock w i)"
    and "check_limit s key w' = (r, s', w'')" and "win = sint (cfg_window_seconds cfg)"
  shows "\<exists>resp n. r = Returns (Inr resp) \<and> w_reads w' \<le> n \<and> w_reads w'' = n + 3 \<and> w_clock w'' = w_clock w \<and>
    clr_remaining resp = (if clr_allowed resp then cfg_limit cfg else 0) \<and>
    sint (clr_reset_at resp) = next_multiple win (secs_of (w_clock w n)) \<and> 1 \<le> sint (clr_retry_after resp) \<and>
    (next_multiple win (secs_of (w_clock w (n + 2))) * 1000000000 - t_wall (w_clock w (n + 1))) div 1000000000
      \<le> sint (clr_retry_after resp) \<and>
    sint (clr_retry_after resp) \<le> next_multiple win (secs_of (w_clock w (n + 2))) - secs_of (w_clock w (n + 1))"
proof -
  note ss = redis_string_store [OF assms(1)]
  note sc = set_config_world [OF assms(1-3)]
  obtain l where l: "make_limiter (rls_store s) cfg = Inr l" "uses s key cfg l"
    by (rule uses_fresh [OF assms(4) sc(2)])
  have valid: "cfg_algorithm cfg \<in> set valid_algorithms" and win: "cfg_window_seconds cfg \<noteq> 0"
    using sc(2) by (auto simp: well_configured_def)
  have st: "lim_store l = redis_ops c" using make_limiter_store [OF l(1)] assms(2) by simp
  obtain s1 ok err w2 n where step: "check_limit s key w' =
      (Returns (Inr (response_of cfg ok (w_clock w2) (w_reads w2))), s1, skip 3 w2)"
    "lim_allow l key (snd (get_config s key w')) = (Returns (ok, err), w2)"
    "rls_store s1 = redis_ops c" "uses s1 key cfg l" "undisturbed lookup (config_key key) w' w2"
    "snd (get_config s key w') = skip n w'"
    by (rule string_store.check_step [OF ss assms(2) st make_limiter_panic_free [OF l(1) assms(5)] l(2) valid win sc(3)])
  have w2: "w_clock w2 = w_clock w" "w_reads w' \<le> w_reads w2" using step(5) sc(1) by (simp_all add: undisturbed_def)
  have "t_wall (w_clock w i) \<le> t_wall (w_clock w (Suc i))" for i
    using assms(6) by (simp add: steady_mono)
  moreover have "r = Returns (Inr (response_of cfg ok (w_clock w2) (w_reads w2)))" "w'' = skip 3 w2"
    using step(1) assms(8) by simp_all
  ultimately show ?thesis
    using assms(7) w2 by (intro exI [of _ "response_of cfg ok (w_clock w2) (w_reads w2)"] exI [of _ "w_reads w2"])
      (simp add: assms(9) sint_next_start retry_bounds)
qed

theorem check_limit_responds_witness:
  "\<exists>resp s' w'' n. check_limit demo_service ''u'' (demo_set algorithm_token_bucket) = (Returns (Inr resp), s', w'') \<and>
    w_reads w'' = n + 3 \<and> clr_remaining resp = (if clr_allowed resp then 2 else 0) \<and>
    sint (clr_reset_at resp) = next_multiple 1 (secs_of (demo_clock n)) \<and> 1 \<le> sint (clr_retry_after resp) \<and>
    (next_multiple 1 (secs_of (demo_clock (n + 2))) * 1000000000 - t_wall (demo_clock (n + 1))) div 1000000000
      \<le> sint (clr_retry_after resp) \<and>
    sint (clr_retry_after resp) \<le> next_multiple 1 (secs_of (demo_clock (n + 2))) - secs_of (demo_clock (n + 1))"
proof -
  let ?cfg = "demo_config algorithm_token_bucket"
  obtain r s' w'' where c: "check_limit demo_service ''u'' (demo_set algorithm_token_bucket) = (r, s', w'')"
    using prod_cases3 by blast
  have e: "in_epoch 1 (demo_clock i)" for i by (simp add: in_epoch_def demo_clock_def ramp_clock_def)
  have "\<exists>resp n. r = Returns (Inr resp) \<and> w_reads (demo_set algorithm_token_bucket) \<le> n \<and> w_reads w'' = n + 3 \<and>
    w_clock w'' = w_clock demo_world \<and>
    clr_remaining resp = (if clr_allowed resp then cfg_limit ?cfg else 0) \<and>
    sint (clr_reset_at resp) = next_multiple 1 (secs_of (w_clock demo_world n)) \<and> 1 \<le> sint (clr_retry_after resp) \<and>
    (next_multiple 1 (secs_of (w_clock demo_world (n + 2))) * 1000000000 - t_wall (w_clock demo_world (n + 1))) div 1000000000
      \<le> sint (clr_retry_after resp) \<and>
    sint (clr_retry_after resp) \<le> next_multiple 1 (secs_of (w_clock demo_world (n + 2))) - secs_of (w_clock demo_world (n + 1))"
    by (rule check_limit_responds [OF map_client_serves demo_world_simps(3) demo_set_config _ _ _ _ c])
      (simp_all add: e algorithm_defs)
  then show ?thesis unfolding demo_config_simps demo_world_simps c by blast
qed

text \<open>
  C14: \<open>SetConfig\<close> accepts a leaky bucket whose window, in nanoseconds, wraps to 0 in 64 bits (a
  multiple of \<open>2 ^ 55\<close> seconds); the first \<open>CheckLimit\<close> of that key then panics, dividing by it.
\<close>

theorem wrapped_window_panics:
  assumes "redis_serves c lookup alive" and "rls_store s = redis_ops c"
    and "well_configured cfg" and "cfg_algorithm cfg = algorithm_leaky_bucket"
    and "sint (cfg_window_seconds cfg) = k * 2 ^ 55"
    and "rls_limiters s (limiter_key key (cfg_algorithm cfg)) = None"
  shows "\<exists>w'. set_config s key cfg w = (None, w') \<and> fst (check_limit s key w') = Panics DivideByZero"
proof -
  note ds = redis_durable_store [OF assms(1)] and ss = redis_string_store [OF assms(1)]
  obtain w' where set: "set_config s key cfg w = (None, w')"
    by (rule durable_store.set_config_accepts [OF ds assms(2,3)])
  note sc = set_config_world [OF assms(1,2) set]
  have valid: "cfg_algorithm cfg \<in> set valid_algorithms" and win: "cfg_window_seconds cfg \<noteq> 0"
    using sc(2) by (auto simp: well_configured_def)
  have zero: "cfg_window_seconds cfg * second = 0"
  proof -
    have "cfg_window_seconds cfg = word_of_int (k * 2 ^ 55)" using assms(5) by (rule sint_eqD)
    then have "cfg_window_seconds cfg * second = word_of_int (k * 2 ^ 55 * 1000000000)"
      by (simp add: second_def wi_hom_mult [symmetric])
    also have "k * 2 ^ 55 * 1000000000 = k * 1953125 * 2 ^ 64" by simp
    also have "word_of_int (k * 1953125 * 2 ^ 64) = (0 :: int64)" by (simp only: word_of_int_eq_0_iff) simp
    finally show ?thesis .
  qed
  obtain r where mk: "make_limiter (rls_store s) cfg = Inr (LeakyBucket (new_leaky_bucket (redis_ops c) (cfg_limit cfg) r 0))"
    using assms(2,4) by (simp add: make_limiter_def Let_def algorithm_defs zero)
  obtain n where get: "get_config s key w' = (Inr cfg, skip n w')"
    by (rule string_store.get_config_held [OF ss assms(2) sc(3) valid])
  obtain m where "st_get (redis_ops c) (lb_state_key key) (tick (skip n w')) =
      (Inr (lookup (w_store w') (now (tick (skip n w'))) (lb_state_key key)), skip m (tick (skip n w')))"
    using string_store.get_ok [OF ss, of "lb_state_key key" "tick (skip n w')"] by auto
  then have "fst (lim_allow (LeakyBucket (new_leaky_bucket (redis_ops c) (cfg_limit cfg) r 0)) key (skip n w')) =
      Panics DivideByZero" by (simp add: lb_allow_def Let_def)
  then have "fst (check_limit s key w') = Panics DivideByZero"
    using get assms(6) mk win by (simp add: check_limit_def get_or_create_limiter_def split_beta split: outcome.split)
  with set show ?thesis by blast
qed

theorem wrapped_window_panics_witness:
  "\<exists>w'. set_config demo_service ''u'' \<lparr>cfg_algorithm = algorithm_leaky_bucket, cfg_limit = 2,
      cfg_window_seconds = 36028797018963968, cfg_refill_rate = 0, cfg_refill_interval = 0\<rparr> demo_world = (None, w') \<and>
    fst (check_limit demo_service ''u'' w') = Panics DivideByZero"
  by (rule wrapped_window_panics [OF map_client_serves, where k = 1])
    (simp_all add: well_configured_def algorithm_defs)


text \<open>
  C13: A configuration set over Redis for a key and an algorithm that already have a limiter in the
  cache does not change how \<open>CheckLimit\<close> decides: the answer is that of the old limiter, with
  its old limit and window, and only \<open>remaining\<close> shows the new limit.
\<close>

theorem check_ignores_new_config:
  assumes "redis_serves c lookup alive" and "rls_store s = redis_ops c"
    and "set_config s key cfg w = (None, w')"
    and "rls_limiters s (limiter_key key (cfg_algorithm cfg)) = Some l"
    and "lim_allow l key (snd (get_config s key w')) = (Returns (ok, err), w'')"
  shows "\<exists>resp. fst (check_limit s key w') = Returns (Inr resp) \<and> clr_allowed resp = ok \<and>
    clr_remaining resp = (if ok then cfg_limit cfg else 0)"
proof -
  note ss = redis_string_store [OF assms(1)]
  note sc = set_config_world [OF assms(1-3)]
  have valid: "cfg_algorithm cfg \<in> set valid_algorithms" and win: "cfg_window_seconds cfg \<noteq> 0"
    using sc(2) by (auto simp: well_configured_def)
  obtain n where get: "get_config s key w' = (Inr cfg, skip n w')"
    by (rule string_store.get_config_held [OF ss assms(2) sc(3) valid])
  have "uses s key cfg l" using assms(4) by (simp add: uses_def)
  moreover have "lim_allow l key (skip n w') = (Returns (ok, err), w'')" using assms(5) get by simp
  ultimately obtain s' where "check_limit s key w' =
      (Returns (Inr (response_of cfg ok (w_clock w'') (w_reads w''))), s', skip 3 w'')"
    using check_limit_via [OF get _ win] by metis
  then show ?thesis by simp
qed

text \<open>A limit of 2 is cached, and 5 is set.\<close>

theorem check_ignores_new_config_witness:
  "\<exists>w resp. fst (check_limit (demo_service\<lparr>rls_limiters := [limiter_key ''u'' algorithm_fixed_window \<mapsto> demo_limiter]\<rparr>) ''u'' w) =
     Returns (Inr resp) \<and> clr_remaining resp = (if clr_allowed resp then 5 else 0)"
proof -
  let ?s = "demo_service\<lparr>rls_limiters := [limiter_key ''u'' algorithm_fixed_window \<mapsto> demo_limiter]\<rparr>"
  let ?cfg = "(demo_config algorithm_fixed_window)\<lparr>cfg_limit := 5\<rparr>"
  have s: "rls_store ?s = redis_ops map_client" by simp
  have "well_configured ?cfg" by (simp add: well_configured_def demo_config_def)
  then obtain w' where set: "set_config ?s ''u'' ?cfg demo_world = (None, w')"
    by (rule redis_durable.set_config_accepts [OF s])
  obtain ok err w2 where al: "lim_allow demo_limiter ''u'' (snd (get_config ?s ''u'' w')) = (Returns (ok, err), w2)"
    by (rule lim_allow_returns [of demo_limiter]) simp
  have five: "cfg_limit ?cfg = 5" by simp
  from check_ignores_new_config [OF map_client_serves s set _ al]
  have "\<exists>resp. fst (check_limit ?s ''u'' w') = Returns (Inr resp) \<and> clr_allowed resp = ok \<and>
    clr_remaining resp = (if ok then 5 else 0)" unfolding five by simp
  then show ?thesis by metis
qed


context string_store
begin

lemma delete_holds:
  assumes "st_delete st k w = (e, w')"
  shows "e = None" and "holds lookup w' k []" and "j \<noteq> k \<Longrightarrow> undisturbed lookup j w w'"
  using delete_world [OF assms] by (simp_all add: holds_def undisturbed_def)

lemma reset_step:
  assumes "rls_store s = st" and "sound_service s" and "well_configured cfg"
    and "holds lookup w (config_key key) (json_print (config_json cfg))"
  obtains s' w' l where "reset_limit s key w = (Returns None, s', w')" and "rls_store s' = st"
    and "rls_limiters s' (limiter_key key (cfg_algorithm cfg)) = Some l"
    and "holds lookup w' (config_key key) []" and "holds lookup w' (metadata_key key) []"
    and "holds lookup w' (lim_state_key l key) []"
proof -
  have valid: "cfg_algorithm cfg \<in> set valid_algorithms" and win: "cfg_window_seconds cfg \<noteq> 0"
    using assms(3) by (auto simp: well_configured_def)
  obtain n where get: "get_config s key w = (Inr cfg, skip n w)"
    using assms(1,4) valid by (rule get_config_held)
  obtain l where "uses s key cfg l"
  proof (cases "rls_limiters s (limiter_key key (cfg_algorithm cfg))")
    case None
    then show thesis using uses_fresh [OF None assms(3)] that by blast
  qed (simp add: uses_def that)
  then obtain s' where s': "get_or_create_limiter s (limiter_key key (cfg_algorithm cfg)) cfg = (Returns (Inr l), s')"
    "rls_store s' = rls_store s" "rls_limiters s' = (rls_limiters s)(limiter_key key (cfg_algorithm cfg) \<mapsto> l)"
    by (rule uses_limiter)
  have l: "lim_store l = st" using get_or_create_sound [OF assms(2) s'(1)] assms(1) by simp
  obtain w1 where w1: "lim_reset l key (skip n w) = (None, w1)" "holds lookup w1 (lim_state_key l key) []"
    by (rule lim_reset_clears [OF l]) (rule that)
  obtain e2 w2 where d2: "st_delete st (config_key key) w1 = (e2, w2)" by fastforce
  obtain e3 w3 where d3: "st_delete st (metadata_key key) w2 = (e3, w3)" by fastforce
  note h2 = delete_holds [OF d2] and h3 = delete_holds [OF d3]
  have "holds lookup w3 (config_key key) []" using undisturbed_holds [OF h3(3) h2(2)] by simp
  moreover have "holds lookup w3 (lim_state_key l key) []"
    using undisturbed_holds [OF h3(3) undisturbed_holds [OF h2(3) w1(2)]] by simp
  moreover have "reset_limit s key w = (Returns None, s', w3)"
    using assms(1) s'(2) by (simp add: reset_limit_def get s'(1) w1(1) d2 d3)
  ultimately show thesis using that h3(2) s'(2,3) assms(1) by simp
qed

end

text \<open>
  C12: \<open>ResetLimit\<close> of a configured key over Redis, whatever the service served before, succeeds
  and removes the configuration, the metadata and the state of the limiter, so that the next
  check finds no configuration; but the limiter itself stays in the cache.
\<close>

theorem reset_limit_clears:
  assumes "redis_serves c lookup alive" and "(s, w) = fold serve rs (new_rate_limit_service (redis_ops c), w0)"
    and "set_config s key cfg w = (None, w1)" and "reset_limit s key w1 = (r, s', w2)"
  shows "r = Returns None \<and> fst (check_limit s' key w2) = Returns (Inl ErrNotFound) \<and>
    (\<exists>l. rls_limiters s' (limiter_key key (cfg_algorithm cfg)) = Some l \<and>
      (\<forall>j \<in> {config_key key, metadata_key key, lim_state_key l key}. holds lookup w2 j []))"
proof -
  note ss = redis_string_store [OF assms(1)]
  have sound: "sound_service s" and st: "rls_store s = redis_ops c"
    using served_sound [of "(new_rate_limit_service (redis_ops c), w0)" rs] assms(2) [symmetric] by simp_all
  note sc = set_config_world [OF assms(1) st assms(3)]
  obtain s3 w3 l where r: "reset_limit s key w1 = (Returns None, s3, w3)" "rls_store s3 = redis_ops c"
    "rls_limiters s3 (limiter_key key (cfg_algorithm cfg)) = Some l"
    "holds lookup w3 (config_key key) []" "holds lookup w3 (metadata_key key) []"
    "holds lookup w3 (lim_state_key l key) []"
    by (rule string_store.reset_step [OF ss st sound sc(2,3)])
  obtain n where "get_config s3 key w3 = (Inl ErrNotFound, skip n w3)"
    by (rule string_store.get_config_absent [OF ss r(2) holds_now [OF r(4)]])
  then have "fst (check_limit s3 key w3) = Returns (Inl ErrNotFound)" by (simp add: check_limit_def)
  then show ?thesis using r assms(4) by auto
qed

theorem reset_limit_clears_witness:
  "fst (reset_limit demo_service ''u'' (demo_set algorithm_sliding_window)) = Returns None"
proof -
  obtain r s' w2 where "reset_limit demo_service ''u'' (demo_set algorithm_sliding_window) = (r, s', w2)"
    using prod_cases3 by blast
  with reset_limit_clears [OF map_client_serves, of demo_service demo_world "[]" demo_world "''u''"
      "demo_config algorithm_sliding_window" "demo_set algorithm_sliding_window" r s' w2]
  show ?thesis using demo_set_config [of algorithm_sliding_window] by simp
qed


text \<open>
  C15: With the in-memory store a configuration is gone as soon as the clock has moved: \<open>SetConfig\<close>
  stores it with expiration 0, which that store takes as expired at once.
\<close>

theorem memory_store_forgets:
  assumes "rls_store s = memory_ops" and "steady (w_clock w)" and "set_config s key cfg w = (None, w')"
    and "t_wall (w_clock w (Suc (w_reads w))) < t_wall (now w')"
  shows "fst (check_limit s key w') = Returns (Inl ErrNotFound)"
proof -
  let ?v = "json_print (config_json cfg)" and ?t = "unix_sec (now w)"
  let ?m = "json_print (metadata_json \<lparr>md_created_at = ?t, md_updated_at = ?t\<rparr>)"
  obtain e w1 where s1: "ms_set (config_key key) ?v 0 (tick w) = (e, w1)" by fastforce
  obtain e2 w2 where s2: "ms_set (metadata_key key) ?m 0 w1 = (e2, w2)" by fastforce
  have w': "w' = w2" using assms(1,3) s1 s2
    by (auto simp: set_config_def Let_def split: option.splits)
  have c: "w_clock w2 = w_clock w" using s1 s2 by (auto simp: ms_set_def Let_def)
  have "ms_lookup (w_store w1) t (config_key key) = (if ms_alive (now (tick w)) 0 t then ?v else [])" for t
    using s1 by (auto simp: ms_set_def Let_def ms_lookup_def ms_alive_def expired_def)
  moreover have "ms_lookup (w_store w2) t (config_key key) = ms_lookup (w_store w1) t (config_key key)" for t
    using s2 by (auto simp: ms_set_def Let_def ms_lookup_def)
  moreover have "\<not> ms_alive (now (tick w)) 0 (now w2)"
    using ms_alive_steady [OF assms(2), of "Suc (w_reads w)" 0 "w_reads w2"] assms(4) c w' by (simp add: now_def)
  ultimately have "ms_lookup (w_store w') (now w') (config_key key) = []" by (simp add: w')
  then obtain n where "get_config s key w' = (Inl ErrNotFound, skip n w')"
    by (rule mem.get_config_absent [OF assms(1)])
  then show ?thesis by (simp add: check_limit_def)
qed

theorem memory_store_forgets_witness:
  "fst (check_limit (new_rate_limit_service memory_ops) ''u'' (snd (set_config (new_rate_limit_service memory_ops) ''u''
    (demo_config algorithm_fixed_window) (start_world (ramp_clock 0 100))))) = Returns (Inl ErrNotFound)"
proof -
  let ?r = "set_config (new_rate_limit_service memory_ops) ''u'' (demo_config algorithm_fixed_window)
    (start_world (ramp_clock 0 100))"
  have v: "validate_config (demo_config algorithm_fixed_window) = None"
    using demo_valid [of algorithm_fixed_window] by (simp add: validate_config_iff)
  have r: "?r = (None, snd ?r)" "w_clock (snd ?r) = ramp_clock 0 100" "w_reads (snd ?r) = 3"
    by (simp_all add: set_config_def Let_def ms_set_def v)
  have "steady (ramp_clock 0 100)" by (auto simp: steady_def ramp_clock_def)
  then show ?thesis
    by (intro memory_store_forgets [OF _ _ r(1)]) (simp_all add: now_def r(2,3) ramp_clock_def)
qed


end
