(* ===== verification/Fleet.thy ===== *)
theory Fleet
  imports ServiceRuns
begin

text \<open>
  Any number of services on one store: the HTTP and the gRPC service of one process, and those of
  other processes on the same Redis. Each has a cache of limiters of its own. A run is a
  sequence of requests, each to one of them, with other activity in between; what a run of
  checks on a key answers is the specification of the configured limiter, as if there were one
  server only.
\<close>

section \<open>Runs\<close>

datatype ('i, 's) action = Request 'i request | Idle "'s world \<Rightarrow> 's world"

text \<open>The checks of a key in a run: the readings of the clock at call and return, and the result.\<close>

fun fleet_checks ::
    "string \<Rightarrow> ('i \<Rightarrow> 's rate_limit_service) \<Rightarrow> ('i, 's) action list \<Rightarrow> 's world \<Rightarrow> ((int \<times> int) \<times> check_result) list" where
  "fleet_checks key ss [] w = []"
| "fleet_checks key ss (Idle g # as) w = fleet_checks key ss as (g w)"
| "fleet_checks key ss (Request i r # as) w = (case serve r (ss i, w) of (s', w') \<Rightarrow>
     (if r = CheckReq key then [((t_wall (now w), t_wall (now w')), fst (check_limit (ss i) key w))] else []) @
     fleet_checks key (ss(i := s')) as w')"

text \<open>
  The requests a run may have beside its checks: any request about another key, or for the status
  of this one.
\<close>

definition harmless :: "string \<Rightarrow> request \<Rightarrow> bool" where
  "harmless key r \<longleftrightarrow> r = CheckReq key \<or> r = StatusReq key \<or> request_key r \<noteq> key"

definition calm ::
    "('s \<Rightarrow> gotime \<Rightarrow> string \<Rightarrow> string) \<Rightarrow> string \<Rightarrow> ('i, 's) action \<Rightarrow> bool" where
  "calm lookup key a = (case a of
      Idle g \<Rightarrow> \<forall>j \<in> client_keys key. quiet lookup j g
    | Request i r \<Rightarrow> harmless key r)"

section \<open>What requests about other keys leave alone\<close>

lemma cached_or_same:
  assumes "get_or_create_limiter s (limiter_key k (cfg_algorithm cfg)) cfg = (r, s')"
  shows "s' = s \<or> cfg_algorithm cfg \<in> set valid_algorithms \<and>
    (\<exists>l. s' = s\<lparr>rls_limiters := (rls_limiters s)(limiter_key k (cfg_algorithm cfg) \<mapsto> l)\<rparr>)"
  using assms
  by (auto simp: get_or_create_limiter_def make_limiter_def Let_def valid_algorithms_def
      split: option.splits if_splits sum.splits)

lemma cached_uses:
  assumes "get_or_create_limiter s (limiter_key k (cfg_algorithm c)) c = (r, s')" and "k \<noteq> key"
    and "cfg_algorithm cfg \<in> set valid_algorithms" and "uses s key cfg l"
  shows "uses s' key cfg l"
  using cached_or_same [OF assms(1)] assms(2-4) limiter_key_inject [OF assms(3), of c key k]
  by (auto simp: uses_def split: option.split)

lemma serve_uses:
  assumes "uses s key cfg l" and "cfg_algorithm cfg \<in> set valid_algorithms"
    and "r = StatusReq key \<or> request_key r \<noteq> key"
  shows "uses (fst (serve r (s, w))) key cfg l"
proof (cases r)
  case (CheckReq k)
  then show ?thesis
    using assms cached_uses [of s k _ _ _ key cfg l]
    by (auto simp: check_limit_def split: prod.split sum.split outcome.split)
next
  case (ResetReq k)
  then show ?thesis
    using assms cached_uses [of s k _ _ _ key cfg l]
    by (auto simp: reset_limit_def split: prod.split sum.split outcome.split option.split)
qed (use assms in simp_all)

lemma sound_uses:
  assumes "rls_store s = st" and "rls_limiters s (limiter_key key (cfg_algorithm cfg)) = None"
    and "cfg_window_seconds cfg \<noteq> 0" and "make_limiter st cfg = Inr l"
  shows "uses s key cfg l"
  using assms by (simp add: uses_def)

context string_store
begin

lemma harmless_quiet:
  assumes "sound_service s" and "rls_store s = st" and "j \<in> client_keys key"
    and "r = StatusReq key \<or> request_key r \<noteq> key"
  shows "quiet lookup j (\<lambda>w. snd (serve r (s, w)))"
proof (cases "r = StatusReq key")
  case True
  then show ?thesis using get_status_undisturbed [OF assms(2)] by (auto intro: quietI)
next
  case False
  then have "j \<notin> client_keys (request_key r)" using assms(3,4) client_keys_apart by blast
  then show ?thesis by (intro quietI serve_undisturbed [OF assms(1,2)])
qed

end

section \<open>A limiter with its specification\<close>

text \<open>
  A family of limiters on a store, each with the step of a specification and the relation of the
  two. Other activity keeps the relation. The first half of a call takes a step at an instant
  within it, and the new state is \<open>due\<close> to be written; however late the second half comes, it
  restores the relation. A call as a whole is then a step at an instant within the call.
\<close>

locale specified_limiter = string_store +
  fixes limiter :: "'p \<Rightarrow> 's rate_limiter"
    and step :: "'p \<Rightarrow> int \<Rightarrow> 'a \<Rightarrow> bool \<times> 'a"
    and rel :: "'p \<Rightarrow> string \<Rightarrow> 's world \<Rightarrow> 'a \<Rightarrow> bool"
    and due :: "'p \<Rightarrow> string \<Rightarrow> 's world \<Rightarrow> 'a \<Rightarrow> 's open_call \<Rightarrow> bool"
  assumes on_store: "lim_store (limiter p) = st"
    and rel_steady: "rel p key w s \<Longrightarrow> steady (w_clock w)"
    and rel_quiet: "quiet lookup (lim_state_key (limiter p) key) g \<Longrightarrow> rel p key w s \<Longrightarrow> rel p key (g w) s"
    and read_due: "rel p key w s \<Longrightarrow> \<exists>t w' c. t_wall (now w) \<le> t \<and> t \<le> t_wall (now w') \<and>
      lim_read (limiter p) key w = (Returns (Inr (fst (step p t s), c)), w') \<and> due p key w' (snd (step p t s)) c"
    and due_later: "due p key w s c \<Longrightarrow> w_clock w' = w_clock w \<Longrightarrow> w_reads w \<le> w_reads w' \<Longrightarrow> due p key w' s c"
    and write_due: "due p key w s c \<Longrightarrow> \<exists>w'. lim_write ok c w = ((ok, None), w') \<and> rel p key w' s \<and>
      w_clock w' = w_clock w \<and> w_reads w \<le> w_reads w'"
begin

lemma rel_step:
  assumes "rel p key w s"
  shows "\<exists>t w'. t_wall (now w) \<le> t \<and> t \<le> t_wall (now w') \<and>
    lim_allow (limiter p) key w = (Returns (fst (step p t s), None), w') \<and> rel p key w' (snd (step p t s))"
proof -
  obtain t w1 c where read: "t_wall (now w) \<le> t" "t \<le> t_wall (now w1)"
      "lim_read (limiter p) key w = (Returns (Inr (fst (step p t s), c)), w1)" "due p key w1 (snd (step p t s)) c"
    using read_due [OF assms] by blast
  obtain w' where wr: "lim_write (fst (step p t s)) c w1 = ((fst (step p t s), None), w')"
      "rel p key w' (snd (step p t s))" "w_clock w' = w_clock w1" "w_reads w1 \<le> w_reads w'"
    using write_due [OF read(4)] by blast
  have "t_wall (now w1) \<le> t_wall (now w')"
    using rel_steady [OF wr(2)] wr(3,4) by (simp add: now_def steady_mono)
  with read wr show ?thesis by (intro exI [of _ t] exI [of _ w']) (simp add: lim_allow_steps)
qed

text \<open>What a run keeps: the configuration, the relation, and for each service its store and limiter.\<close>

definition running :: "'p \<Rightarrow> string \<Rightarrow> rate_limit_config \<Rightarrow> ('i \<Rightarrow> 's rate_limit_service) \<Rightarrow> 's world \<Rightarrow> 'a \<Rightarrow> bool" where
  "running p key cfg ss w s \<longleftrightarrow> rel p key w s \<and>
     holds lookup w (config_key key) (json_print (config_json cfg)) \<and>
     (\<forall>i. sound_service (ss i) \<and> rls_store (ss i) = st \<and> uses (ss i) key cfg (limiter p))"

lemma running_quiet:
  assumes "running p key cfg ss w s" and "\<forall>j \<in> client_keys key. quiet lookup j g"
  shows "running p key cfg ss (g w) s" and "t_wall (now w) \<le> t_wall (now (g w))"
proof -
  have c: "steady (w_clock w)" using assms(1) rel_steady by (auto simp: running_def)
  have q: "quiet lookup (config_key key) g" "quiet lookup (lim_state_key (limiter p) key) g" using assms(2) by simp_all
  show "running p key cfg ss (g w) s"
    using assms(1) rel_quiet [OF q(2)] quiet_holds [OF q(1) c] by (simp add: running_def)
  show "t_wall (now w) \<le> t_wall (now (g w))"
    using quiet_world [OF q(1) c] c by (simp add: now_def steady_mono)
qed

text \<open>One check.\<close>

lemma running_check:
  assumes "running p key cfg ss w s" and "cfg_algorithm cfg \<in> set valid_algorithms" and "cfg_window_seconds cfg \<noteq> 0"
    and "check_limit (ss i) key w = (r, s', w')"
  obtains t where "t_wall (now w) \<le> t" and "t \<le> t_wall (now w')" and "verdict r = Some (fst (step p t s))"
    and "running p key cfg (ss(i := s')) w' (snd (step p t s))"
proof -
  have w: "rel p key w s" "holds lookup w (config_key key) (json_print (config_json cfg))"
    and ss: "\<And>i. sound_service (ss i) \<and> rls_store (ss i) = st \<and> uses (ss i) key cfg (limiter p)"
    using assms(1) by (simp_all add: running_def)
  have c: "steady (w_clock w)" using w(1) by (rule rel_steady)
  have h: "rls_store (ss i) = st" "uses (ss i) key cfg (limiter p)" "sound_service (ss i)" using ss by simp_all
  obtain n where get: "get_config (ss i) key w = (Inr cfg, skip n w)"
    by (rule get_config_held [OF h(1) w(2) assms(2)])
  have "rel p key (skip n w) s" by (rule rel_quiet [OF quiet_skip w(1)])
  then obtain t w2 where t: "t_wall (now (skip n w)) \<le> t" "t \<le> t_wall (now w2)"
    "lim_allow (limiter p) key (skip n w) = (Returns (fst (step p t s), None), w2)" "rel p key w2 (snd (step p t s))"
    using rel_step by blast
  obtain s1 where s1: "check_limit (ss i) key w =
      (Returns (Inr (response_of cfg (fst (step p t s)) (w_clock w2) (w_reads w2))), s1, skip 3 w2)"
    "rls_store s1 = rls_store (ss i)" "uses s1 key cfg (limiter p)"
    using check_limit_via [OF get h(2) assms(3) t(3)] by blast
  have eq: "r = Returns (Inr (response_of cfg (fst (step p t s)) (w_clock w2) (w_reads w2)))" "s' = s1" "w' = skip 3 w2"
    using s1(1) assms(4) by simp_all
  have und: "undisturbed lookup (config_key key) (skip n w) w2"
    using lim_undisturbed [OF on_store, of "config_key key" p key "skip n w"] t(3) by simp
  have c2: "w_clock w2 = w_clock w" using und by (simp add: undisturbed_def)
  have "holds lookup w' (config_key key) (json_print (config_json cfg))"
    unfolding eq by (intro holds_skip undisturbed_holds [OF und] w(2))
  moreover have "rel p key w' (snd (step p t s))" unfolding eq by (rule rel_quiet [OF quiet_skip t(4)])
  moreover have "sound_service s'" using check_limit_service [OF h(3), of key w] assms(4) by simp
  ultimately have "running p key cfg (ss(i := s')) w' (snd (step p t s))"
    using ss s1(2,3) h(1) eq(2) by (simp add: running_def)
  moreover have "t_wall (now w) \<le> t" using t(1) c steady_mono [OF c, of "w_reads w" "w_reads w + n"] by (simp add: now_def)
  moreover have "t \<le> t_wall (now w')"
    using t(2) c c2 steady_mono [OF c, of "w_reads w2" "w_reads w2 + 3"] by (simp add: now_def eq)
  ultimately show thesis using that eq(1) by simp
qed

lemma running_other:
  assumes "running p key cfg ss w s" and "cfg_algorithm cfg \<in> set valid_algorithms"
    and "r = StatusReq key \<or> request_key r \<noteq> key" and "serve r (ss i, w) = (s', w')"
  shows "running p key cfg (ss(i := s')) w' s" and "t_wall (now w) \<le> t_wall (now w')"
proof -
  have ss: "sound_service (ss i)" "rls_store (ss i) = st" "uses (ss i) key cfg (limiter p)"
    using assms(1) by (simp_all add: running_def)
  have q: "\<forall>j \<in> client_keys key. quiet lookup j (\<lambda>w. snd (serve r (ss i, w)))"
    using harmless_quiet [OF ss(1,2) _ assms(3)] by blast
  have s': "sound_service s'" "rls_store s' = st" "uses s' key cfg (limiter p)"
    using serve_sound [of "(ss i, w)" r] serve_uses [OF ss(3) assms(2,3), of w] ss(1,2) assms(4) by simp_all
  show "running p key cfg (ss(i := s')) w' s"
    using running_quiet(1) [OF assms(1) q] s' assms(4) by (simp add: running_def)
  show "t_wall (now w) \<le> t_wall (now w')" using running_quiet(2) [OF assms(1) q] assms(4) by simp
qed

text \<open>A run.\<close>

lemma fleet_run:
  assumes "running p key cfg ss w s" and "cfg_algorithm cfg \<in> set valid_algorithms" and "cfg_window_seconds cfg \<noteq> 0"
    and "\<forall>a \<in> set as. calm lookup key a"
  shows "\<exists>us. sorted us \<and> (\<forall>u \<in> set us. t_wall (now w) \<le> u) \<and> inside (fleet_checks key ss as w) us \<and>
    map (verdict \<circ> snd) (fleet_checks key ss as w) = map (Some \<circ> snd) (spec_seq (step p) s us)"
  using assms(1,4)
proof (induction as arbitrary: ss w s)
  case (Cons a as)
  have rest: "\<forall>a \<in> set as. calm lookup key a" using Cons.prems(2) by simp
  show ?case
  proof (cases a)
    case (Idle g)
    then have "\<forall>j \<in> client_keys key. quiet lookup j g" using Cons.prems(2) by (simp add: calm_def)
    note r = running_quiet [OF Cons.prems(1) this]
    from Cons.IH [OF r(1) rest] show ?thesis using r(2) unfolding Idle fleet_checks.simps by (meson order_trans)
  next
    case (Request i r)
    obtain s' w' where sv: "serve r (ss i, w) = (s', w')" by fastforce
    show ?thesis
    proof (cases "r = CheckReq key")
      case True
      obtain x where x: "check_limit (ss i) key w = (x, s', w')" using sv True by (cases "check_limit (ss i) key w") simp
      obtain t where t: "t_wall (now w) \<le> t" "t \<le> t_wall (now w')" "verdict x = Some (fst (step p t s))"
        "running p key cfg (ss(i := s')) w' (snd (step p t s))"
        by (rule running_check [OF Cons.prems(1) assms(2,3) x])
      obtain us where us: "sorted us" "\<forall>u \<in> set us. t_wall (now w') \<le> u" "inside (fleet_checks key (ss(i := s')) as w') us"
        "map (verdict \<circ> snd) (fleet_checks key (ss(i := s')) as w') = map (Some \<circ> snd) (spec_seq (step p) (snd (step p t s)) us)"
        using Cons.IH [OF t(4) rest] by blast
      have "sorted (t # us)" "\<forall>u \<in> set (t # us). t_wall (now w) \<le> u" using us(1,2) t(1,2) by force+
      then show ?thesis using us(3,4) t sv x by (intro exI [of _ "t # us"]) (simp add: Request True o_def)
    next
      case False
      then have "r = StatusReq key \<or> request_key r \<noteq> key" using Cons.prems(2) by (auto simp: Request calm_def harmless_def)
      note o = running_other [OF Cons.prems(1) assms(2) this sv]
      have "fleet_checks key ss (a # as) w = fleet_checks key (ss(i := s')) as w'" by (simp add: Request False sv)
      with Cons.IH [OF o(1) rest] obtain us where us: "sorted us" "\<forall>u \<in> set us. t_wall (now w') \<le> u"
        "inside (fleet_checks key ss (a # as) w) us"
        "map (verdict \<circ> snd) (fleet_checks key ss (a # as) w) = map (Some \<circ> snd) (spec_seq (step p) s us)" by metis
      have "\<forall>u \<in> set us. t_wall (now w) \<le> u" using us(2) o(2) by force
      with us show ?thesis by blast
    qed
  qed
qed simp

end

section \<open>The four limiters\<close>

lemma rel_steady:
  "fw_rel lookup m d key w s1 \<Longrightarrow> steady (w_clock w)" "sw_rel lookup m d key w h \<Longrightarrow> steady (w_clock w)"
  "lb_rel lookup cap rate ival key w s2 \<Longrightarrow> steady (w_clock w)" "tb_rel lookup x r d key w s3 \<Longrightarrow> steady (w_clock w)"
  by (auto simp: fw_rel_def sw_rel_def lb_rel_def tb_rel_def dest: in_rangeD(1) lb_rangeD(1) tb_rangeD(1))

text \<open>The calls that are due, for each.\<close>

definition fixed_due :: "'s store_ops \<Rightarrow> int64 \<times> int64 \<Rightarrow> string \<Rightarrow> 's world \<Rightarrow> int \<times> int \<Rightarrow> 's open_call \<Rightarrow> bool" where
  "fixed_due st p key w s c = (case p of (m, d) \<Rightarrow>
     c = FixedCall (new_fixed_window st m d) key (fw_state s) \<and> fw_due m d w s)"

definition sliding_due :: "'s store_ops \<Rightarrow> int64 \<times> int64 \<Rightarrow> string \<Rightarrow> 's world \<Rightarrow> int list \<Rightarrow> 's open_call \<Rightarrow> bool" where
  "sliding_due st p key w h c = (case p of (m, d) \<Rightarrow> 0 < sint d \<and>
     (\<exists>state. c = SlidingCall (new_sliding_window st m d) key state \<and> sw_due m d w h state))"

definition leaky_due :: "'s store_ops \<Rightarrow> int64 \<times> int64 \<times> int64 \<Rightarrow> string \<Rightarrow> 's world \<Rightarrow> int \<times> int \<Rightarrow> 's open_call \<Rightarrow> bool" where
  "leaky_due st p key w s c = (case p of (cap, rate, ival) \<Rightarrow>
     c = LeakyCall (new_leaky_bucket st cap rate ival) key (lb_state s) \<and> lb_due cap rate ival w s)"

definition token_due :: "'s store_ops \<Rightarrow> rat \<times> rat \<times> int64 \<Rightarrow> string \<Rightarrow> 's world \<Rightarrow> rat \<times> int \<Rightarrow> 's open_call \<Rightarrow> bool" where
  "token_due st p key w s c = (case p of (m, r, d) \<Rightarrow>
     c = TokenCall (tb_of st r d m) key (tb_state s) \<and> tb_due m r d w s)"

context string_store
begin

text \<open>The halves that read the clock first of all.\<close>

lemma read_at_call:
  assumes "steady (w_clock w)" and "lim_read l key w = (Returns (Inr (fst (step (t_wall (now w)) s), c)), w')"
    and "w_clock w' = w_clock w" and "w_reads w \<le> w_reads w'" and "D w' (snd (step (t_wall (now w)) s)) c"
  shows "\<exists>t w' c. t_wall (now w) \<le> t \<and> t \<le> t_wall (now w') \<and>
    lim_read l key w = (Returns (Inr (fst (step t s), c)), w') \<and> D w' (snd (step t s)) c"
proof -
  have "t_wall (now w) \<le> t_wall (now w')" using assms(1,3,4) by (simp add: now_def steady_mono)
  with assms(2,5) show ?thesis by blast
qed

lemma fixed_read:
  assumes "fw_rel lookup m d key w s"
  shows "\<exists>t w' c. t_wall (now w) \<le> t \<and> t \<le> t_wall (now w') \<and>
    lim_read (FixedWindow (new_fixed_window st m d)) key w =
      (Returns (Inr (fst (window_step (sint m) (sint d) t s), c)), w') \<and>
    fixed_due st (m, d) key w' (snd (window_step (sint m) (sint d) t s)) c"
proof (rule fw_read_step [OF assms])
  fix w1
  let ?r = "window_step (sint m) (sint d) (t_wall (now w)) s"
  assume "fw_read (new_fixed_window st m d) key w = (Inr (fst ?r, fw_state (snd ?r)), w1)"
    and "fw_due m d w1 (snd ?r)" and "w_clock w1 = w_clock w" and "w_reads w \<le> w_reads w1"
  then show ?thesis using rel_steady(1) [OF assms] by (intro read_at_call) (simp_all add: fixed_due_def)
qed

lemma sliding_read:
  assumes "sw_rel lookup m d key w h" and "0 < sint d"
  shows "\<exists>t w' c. t_wall (now w) \<le> t \<and> t \<le> t_wall (now w') \<and>
    lim_read (SlidingWindow (new_sliding_window st m d)) key w =
      (Returns (Inr (fst (log_step (sint m) (sint d) t h), c)), w') \<and>
    sliding_due st (m, d) key w' (snd (log_step (sint m) (sint d) t h)) c"
proof (rule sw_read_step [OF assms])
  fix w1 state
  let ?r = "log_step (sint m) (sint d) (t_wall (now w)) h"
  assume "sw_read (new_sliding_window st m d) key w = (Inr (fst ?r, state), w1)"
    and "sw_due m d w1 (snd ?r) state" and "w_clock w1 = w_clock w" and "w_reads w \<le> w_reads w1"
  then show ?thesis using rel_steady(2) [OF assms(1)] assms(2) by (intro read_at_call) (auto simp: sliding_due_def)
qed

lemma leaky_read:
  assumes "lb_rel lookup cap rate ival key w s"
  shows "\<exists>t w' c. t_wall (now w) \<le> t \<and> t \<le> t_wall (now w') \<and>
    lim_read (LeakyBucket (new_leaky_bucket st cap rate ival)) key w =
      (Returns (Inr (fst (leak_step (sint cap) (sint rate) (sint ival) t s), c)), w') \<and>
    leaky_due st (cap, rate, ival) key w' (snd (leak_step (sint cap) (sint rate) (sint ival) t s)) c"
proof (rule lb_read_step [OF assms])
  fix w1
  let ?r = "leak_step (sint cap) (sint rate) (sint ival) (t_wall (now w)) s"
  assume "lb_read (new_leaky_bucket st cap rate ival) key w = (Returns (Inr (fst ?r, lb_state (snd ?r))), w1)"
    and "lb_due cap rate ival w1 (snd ?r)" and "w_clock w1 = w_clock w" and "w_reads w \<le> w_reads w1"
  then show ?thesis using rel_steady(3) [OF assms] by (intro read_at_call) (simp_all add: leaky_due_def)
qed

lemma token_read:
  assumes "tb_rel lookup m r d key w s"
  shows "\<exists>t w' c. t_wall (now w) \<le> t \<and> t \<le> t_wall (now w') \<and>
    lim_read (TokenBucket (tb_of st r d m)) key w = (Returns (Inr (fst (token_step m r (sint d) t s), c)), w') \<and>
    token_due st (m, r, d) key w' (snd (token_step m r (sint d) t s)) c"
proof (rule tb_read_step [OF assms])
  fix t w1
  let ?r = "token_step m r (sint d) t s"
  assume "t_wall (now w) \<le> t" and "t \<le> t_wall (now w1)"
    and "tb_read (tb_of st r d m) key w = (Inr (fst ?r, tb_state (snd ?r)), w1)" and "tb_due m r d w1 (snd ?r)"
  then show ?thesis by (intro exI [of _ t] exI [of _ w1] exI) (auto simp: token_due_def)
qed

text \<open>The second halves.\<close>

lemma fixed_write:
  assumes "fixed_due st (m, d) key w s c"
  shows "\<exists>w'. lim_write ok c w = ((ok, None), w') \<and> fw_rel lookup m d key w' s \<and>
    w_clock w' = w_clock w \<and> w_reads w \<le> w_reads w'"
  using assms fw_write_step [of m d w s key ok] by (simp add: fixed_due_def) metis

lemma sliding_write:
  assumes "sliding_due st (m, d) key w h c"
  shows "\<exists>w'. lim_write ok c w = ((ok, None), w') \<and> (0 < sint d \<and> sw_rel lookup m d key w' h) \<and>
    w_clock w' = w_clock w \<and> w_reads w \<le> w_reads w'"
proof -
  obtain state where c: "c = SlidingCall (new_sliding_window st m d) key state" "sw_due m d w h state" "0 < sint d"
    using assms by (auto simp: sliding_due_def)
  with sw_write_step [OF c(2), of key ok] show ?thesis by simp metis
qed

lemma leaky_write:
  assumes "leaky_due st (cap, rate, ival) key w s c"
  shows "\<exists>w'. lim_write ok c w = ((ok, None), w') \<and> lb_rel lookup cap rate ival key w' s \<and>
    w_clock w' = w_clock w \<and> w_reads w \<le> w_reads w'"
  using assms lb_write_step [of cap rate ival w s key ok] by (simp add: leaky_due_def) metis

lemma token_write:
  assumes "token_due st (m, r, d) key w s c"
  shows "\<exists>w'. lim_write ok c w = ((ok, None), w') \<and> tb_rel lookup m r d key w' s \<and>
    w_clock w' = w_clock w \<and> w_reads w \<le> w_reads w'"
  using assms tb_write_step [of m r d w s key ok] by (simp add: token_due_def) metis

end

lemmas due_defs = fixed_due_def sliding_due_def leaky_due_def token_due_def
lemmas due_laters = fw_due_later sw_due_later lb_due_later tb_due_later

sublocale string_store < fws: specified_limiter st lookup alive
  "\<lambda>(m, d). FixedWindow (new_fixed_window st m d)" "\<lambda>(m, d). window_step (sint m) (sint d)"
  "\<lambda>(m, d). fw_rel lookup m d" "fixed_due st"
  by unfold_locales (auto simp only: split_paired_all prod.case intro!: fixed_read fixed_write,
    auto simp: due_defs intro: fw_rel_quiet rel_steady due_laters)

sublocale string_store < sws: specified_limiter st lookup alive
  "\<lambda>(m, d). SlidingWindow (new_sliding_window st m d)" "\<lambda>(m, d). log_step (sint m) (sint d)"
  "\<lambda>(m, d) key w h. 0 < sint d \<and> sw_rel lookup m d key w h" "sliding_due st"
  by unfold_locales (auto simp only: split_paired_all prod.case intro!: sliding_read sliding_write,
    auto simp: due_defs intro: sw_rel_quiet rel_steady due_laters)

sublocale string_store < lbs: specified_limiter st lookup alive
  "\<lambda>(cap, rate, ival). LeakyBucket (new_leaky_bucket st cap rate ival)"
  "\<lambda>(cap, rate, ival). leak_step (sint cap) (sint rate) (sint ival)"
  "\<lambda>(cap, rate, ival). lb_rel lookup cap rate ival" "leaky_due st"
  by unfold_locales (auto simp only: split_paired_all prod.case intro!: leaky_read leaky_write,
    auto simp: due_defs intro: lb_rel_quiet rel_steady due_laters)

sublocale string_store < tbs: specified_limiter st lookup alive
  "\<lambda>(m, r, d). TokenBucket (tb_of st r d m)" "\<lambda>(m, r, d). token_step m r (sint d)"
  "\<lambda>(m, r, d). tb_rel lookup m r d" "token_due st"
  by unfold_locales (auto simp only: split_paired_all prod.case intro!: token_read token_write,
    auto simp: due_defs intro: tb_rel_quiet rel_steady due_laters)

section \<open>The specification of a configuration\<close>

text \<open>
  What a configuration promises: the decisions on checks at the instants \<open>us\<close>, where \<open>t0\<close> is before
  them all. The numbers are those of the configuration, with a second of \<open>10 ^ 9\<close> nanoseconds; a
  leaky bucket leaks \<open>limit div window_seconds\<close> requests a window, but at least one.
\<close>

definition config_run :: "rate_limit_config \<Rightarrow> int \<Rightarrow> int list \<Rightarrow> bool list" where
  "config_run cfg t0 us =
     (let m = sint (cfg_limit cfg); win = sint (cfg_window_seconds cfg) * 1000000000 in
      if cfg_algorithm cfg = algorithm_fixed_window then map snd (spec_seq (window_step m win) (0, 0) us)
      else if cfg_algorithm cfg = algorithm_sliding_window then map snd (spec_seq (log_step m win) [] us)
      else if cfg_algorithm cfg = algorithm_leaky_bucket
      then map snd (spec_seq (leak_step m (max 1 (m div sint (cfg_window_seconds cfg))) win) (0, t0) us)
      else map snd (spec_seq (token_step (of_int m) (of_int (sint (cfg_refill_rate cfg)))
        (sint (cfg_refill_interval cfg) * 1000000000)) (of_int m, t0) us))"

definition leak_rate :: "rate_limit_config \<Rightarrow> int64" where
  "leak_rate cfg = (let r = go_div (cfg_limit cfg) (cfg_window_seconds cfg) in if r = 0 then 1 else r)"

text \<open>The clocks and the numbers the properties of the four limiters are about.\<close>

definition config_range :: "rate_limit_config \<Rightarrow> (nat \<Rightarrow> gotime) \<Rightarrow> bool" where
  "config_range cfg c \<longleftrightarrow> sint (cfg_window_seconds cfg) \<le> 9223372036 \<and>
     (let win = cfg_window_seconds cfg * second in
      if cfg_algorithm cfg \<in> {algorithm_fixed_window, algorithm_sliding_window} then in_range c (cfg_limit cfg) win
      else if cfg_algorithm cfg = algorithm_leaky_bucket then lb_range c (cfg_limit cfg) (leak_rate cfg) win
      else sint (cfg_limit cfg) \<le> 2 ^ 53 \<and> sint (cfg_refill_rate cfg) \<le> 2 ^ 53 \<and>
        sint (cfg_refill_interval cfg) \<le> 9223372036 \<and>
        tb_range c (of_int (sint (cfg_limit cfg))) (of_int (sint (cfg_refill_rate cfg))) (cfg_refill_interval cfg * second))"

lemma leak_rate_sint:
  assumes "0 < sint (cfg_limit cfg)" and "0 < sint (cfg_window_seconds cfg)"
  shows "sint (leak_rate cfg) = max 1 (sint (cfg_limit cfg) div sint (cfg_window_seconds cfg))"
proof -
  let ?r = "go_div (cfg_limit cfg) (cfg_window_seconds cfg)"
  have r: "sint ?r = sint (cfg_limit cfg) div sint (cfg_window_seconds cfg)" using assms by (simp add: sint_go_div)
  have "0 \<le> sint ?r" using assms by (simp add: r pos_imp_zdiv_nonneg_iff)
  moreover have "?r = 0 \<longleftrightarrow> sint ?r = 0" by (simp add: sint_inject_i64 [symmetric])
  ultimately show ?thesis using r by (auto simp: leak_rate_def Let_def max_def)
qed

context string_store
begin

text \<open>
  The limiter of a configuration, with the relation and the specification, in a world in which
  nothing is stored of the limiters of the key.
\<close>

lemma config_start:
  assumes "well_configured cfg" and "config_range cfg (w_clock w)"
    and "\<And>l :: 'a rate_limiter. holds lookup w (lim_state_key l key) []"
  obtains (fixed) m d where "make_limiter st cfg = Inr (FixedWindow (new_fixed_window st m d))" and "0 < sint m"
      and "fw_rel lookup m d key w (0, 0)"
      and "\<And>us. config_run cfg (t_wall (w_clock w 0)) us = map snd (spec_seq (window_step (sint m) (sint d)) (0, 0) us)"
  | (sliding) m d where "make_limiter st cfg = Inr (SlidingWindow (new_sliding_window st m d))" and "0 < sint m"
      and "0 < sint d" and "sw_rel lookup m d key w []"
      and "\<And>us. config_run cfg (t_wall (w_clock w 0)) us = map snd (spec_seq (log_step (sint m) (sint d)) [] us)"
  | (leaky) m r d where "make_limiter st cfg = Inr (LeakyBucket (new_leaky_bucket st m r d))" and "0 < sint m"
      and "lb_rel lookup m r d key w (0, t_wall (w_clock w 0))"
      and "\<And>us. config_run cfg (t_wall (w_clock w 0)) us =
        map snd (spec_seq (leak_step (sint m) (sint r) (sint d)) (0, t_wall (w_clock w 0)) us)"
  | (token) m r d where "make_limiter st cfg = Inr (TokenBucket (tb_of st r d m))" and "1 \<le> m"
      and "tb_rel lookup m r d key w (m, t_wall (w_clock w 0))"
      and "\<And>us. config_run cfg (t_wall (w_clock w 0)) us =
        map snd (spec_seq (token_step m r (sint d)) (m, t_wall (w_clock w 0)) us)"
proof -
  let ?m = "cfg_limit cfg" and ?win = "cfg_window_seconds cfg" and ?d = "cfg_window_seconds cfg * second"
  let ?t0 = "t_wall (w_clock w 0)"
  have pos: "0 < sint ?m" "0 < sint ?win" using assms(1) by (auto simp: well_configured_def)
  have d: "sint ?d = sint ?win * 1000000000"
    using assms(2) pos by (simp add: sint_window config_range_def)
  consider (fw) "cfg_algorithm cfg = algorithm_fixed_window" | (sw) "cfg_algorithm cfg = algorithm_sliding_window"
    | (lb) "cfg_algorithm cfg = algorithm_leaky_bucket" | (tb) "cfg_algorithm cfg = algorithm_token_bucket"
    using assms(1) by (auto simp: well_configured_def valid_algorithms_def)
  then show thesis
  proof cases
    case fw
    have "in_range (w_clock w) ?m ?d" using assms(2) by (simp add: config_range_def fw Let_def)
    with in_rangeD [OF this] assms(3) [of "FixedWindow undefined"] have "fw_rel lookup ?m ?d key w (0, 0)"
      by (simp add: fw_rel_def fw_inv_def tracks_def holds_def now_def)
    with pos show thesis
      by (intro fixed [of ?m ?d]) (simp_all add: make_limiter_def Let_def fw algorithm_defs config_run_def d)
  next
    case sw
    have "in_range (w_clock w) ?m ?d" using assms(2) by (simp add: config_range_def sw Let_def)
    with assms(3) [of "SlidingWindow undefined"] have "sw_rel lookup ?m ?d key w []"
      using in_rangeD(2) by (simp add: sw_rel_def log_ok_def tracks_def holds_def)
    with pos show thesis
      by (intro sliding [of ?m ?d]) (simp_all add: make_limiter_def Let_def sw algorithm_defs config_run_def d)
  next
    case lb
    have "lb_range (w_clock w) ?m (leak_rate cfg) ?d" using assms(2) by (simp add: config_range_def lb Let_def algorithm_defs)
    with lb_rangeD [OF this] assms(3) [of "LeakyBucket undefined"] have "lb_rel lookup ?m (leak_rate cfg) ?d key w (0, ?t0)"
      by (simp add: lb_rel_def lb_inv_def now_def)
    moreover have "make_limiter st cfg = Inr (LeakyBucket (new_leaky_bucket st ?m (leak_rate cfg) ?d))"
      by (simp add: make_limiter_def Let_def lb algorithm_defs leak_rate_def)
    ultimately show thesis
      using pos by (intro leaky [of ?m "leak_rate cfg" ?d])
        (simp_all add: config_run_def Let_def lb d algorithm_defs leak_rate_sint [OF pos])
  next
    case tb
    let ?r = "cfg_refill_rate cfg" and ?i = "cfg_refill_interval cfg"
    let ?M = "of_int (sint ?m) :: rat" and ?R = "of_int (sint ?r) :: rat"
    have r: "0 < sint ?r" "0 < sint ?i" using assms(1) by (simp_all add: well_configured_def tb)
    have rng: "sint ?m \<le> 2 ^ 53" "sint ?r \<le> 2 ^ 53" "sint ?i \<le> 9223372036"
      "tb_range (w_clock w) ?M ?R (?i * second)"
      using assms(2) by (simp_all add: config_range_def tb Let_def algorithm_defs)
    have i: "sint (?i * second) = sint ?i * 1000000000" using r rng(3) by (simp add: sint_window)
    have "make_limiter st cfg = Inr (TokenBucket (tb_of st ?R (?i * second) ?M))"
      using pos r rng f64_of_int_fl [of "sint ?m"] f64_of_int_fl [of "sint ?r"]
      by (simp add: make_limiter_def Let_def tb algorithm_defs)
    moreover have "tb_rel lookup ?M ?R (?i * second) key w (?M, ?t0)"
      using rng(4) tb_rangeD [OF rng(4)] assms(3) [of "TokenBucket undefined"] pos
      by (simp add: tb_rel_def token_inv_def token_param_def now_def)
    moreover have "1 \<le> ?M" using pos(1) by (simp only: of_int_1_le_iff)
    ultimately show thesis
      by (intro token [of ?R "?i * second" ?M]) (simp_all add: config_run_def Let_def tb i algorithm_defs)
  qed
qed

end

context durable_store
begin

text \<open>A run of any algorithm, from a state in which nothing is stored of the limiters of the key.\<close>

lemma fleet_refines:
  assumes "well_configured cfg" and "config_range cfg (w_clock w)"
    and "holds lookup w (config_key key) (json_print (config_json cfg))"
    and "\<And>l :: 'a rate_limiter. holds lookup w (lim_state_key l key) []"
    and "\<And>i. sound_service (ss i) \<and> rls_store (ss i) = st \<and>
      rls_limiters (ss i) (limiter_key key (cfg_algorithm cfg)) = None"
    and "\<forall>a \<in> set as. calm lookup key a"
  shows "\<exists>us. sorted us \<and> (\<forall>u \<in> set us. t_wall (now w) \<le> u) \<and> inside (fleet_checks key ss as w) us \<and>
    map (verdict \<circ> snd) (fleet_checks key ss as w) = map Some (config_run cfg (t_wall (w_clock w 0)) us)"
proof -
  have valid: "cfg_algorithm cfg \<in> set valid_algorithms" and win: "cfg_window_seconds cfg \<noteq> 0"
    using assms(1) by (auto simp: well_configured_def)
  have uses: "uses (ss i) key cfg l" if "make_limiter st cfg = Inr l" for i l
    using assms(5) win that by (intro sound_uses [where st = st]) blast+
  note run = assms(3,5) uses
  show ?thesis
    using assms(1,2,4)
  proof (cases rule: config_start)
    case (fixed m d)
    then have "fws.running (m, d) key cfg ss w (0, 0)" using run by (simp add: fws.running_def)
    from fws.fleet_run [OF this valid win assms(6)] fixed(4) show ?thesis by simp
  next
    case (sliding m d)
    then have "sws.running (m, d) key cfg ss w []" using run by (simp add: sws.running_def)
    from sws.fleet_run [OF this valid win assms(6)] sliding(5) show ?thesis by simp
  next
    case (leaky m r d)
    then have "lbs.running (m, r, d) key cfg ss w (0, t_wall (w_clock w 0))" using run by (simp add: lbs.running_def)
    from lbs.fleet_run [OF this valid win assms(6)] leaky(4) show ?thesis by simp
  next
    case (token m r d)
    then have "tbs.running (m, r, d) key cfg ss w (m, t_wall (w_clock w 0))" using run by (simp add: tbs.running_def)
    from tbs.fleet_run [OF this valid win assms(6)] token(4) show ?thesis by simp
  qed
qed

end

end
