(* ===== verification/FleetBounds.thy ===== *)
theory FleetBounds
  imports Fleet
begin

text \<open>
  What the specifications of the limiters allow in any interval of a run, and the limits any number
  of servers on one Redis keep together.
\<close>

section \<open>Intervals of a run\<close>

lemma allowed_upto:
  assumes "sorted us" and "\<forall>u \<in> set us. a \<le> u"
  shows "allowed_between a b (spec_seq step s us) =
    length (filter snd (spec_seq step s (takeWhile (\<lambda>u. u < b) us)))"
  using assms
proof (induction us arbitrary: s)
  case (Cons u us)
  show ?case
  proof (cases "u < b")
    case True
    with Cons show ?thesis by simp
  next
    case False
    with Cons.prems have "\<forall>t \<in> set us. b \<le> t" by auto
    then have "allowed_between a b (spec_seq step (snd (step u s)) us) = 0"
      by (intro allowed_between_late) (simp add: spec_seq_times)
    with False show ?thesis by simp
  qed
qed simp

lemma prefix_below:
  fixes us :: "int list"
  assumes "sorted (u # us)"
  shows "sorted (u # takeWhile (\<lambda>u. u < b) us)" and "\<forall>t \<in> set (takeWhile (\<lambda>u. u < b) us). t \<le> b"
  using assms sorted_takeWhile [of us "\<lambda>u. u < b"] by (auto dest: set_takeWhileD)

text \<open>A leaky bucket, in any interval: its capacity and what leaks in the interval.\<close>

lemma leak_between:
  assumes "sorted (snd s # us)" and "0 \<le> fst s" and "fst s \<le> cap" and "0 \<le> rate" and "0 < ival" and "a \<le> b"
  shows "int (allowed_between a b (spec_seq (leak_step cap rate ival) s us)) \<le> cap + (b - a) div ival * rate"
  using assms(1-3)
proof (induction us arbitrary: s)
  case Nil
  then show ?case using assms(4-6) by (simp add: pos_imp_zdiv_nonneg_iff)
next
  case (Cons u us)
  let ?st = "leak_step cap rate ival u s"
  have u: "snd s \<le> u" using Cons.prems(1) by simp
  note st = leak_step_count [OF Cons.prems(2,3) assms(4,5) u]
  show ?case
  proof (cases "u < a")
    case True
    with Cons.IH [of "snd ?st"] Cons.prems(1) st show ?thesis by simp
  next
    case False
    let ?p = "takeWhile (\<lambda>u. u < b) us"
    have al: "allowed_between a b (spec_seq (leak_step cap rate ival) s (u # us)) =
        length (filter snd (spec_seq (leak_step cap rate ival) s (takeWhile (\<lambda>u. u < b) (u # us))))"
      using False Cons.prems(1) by (intro allowed_upto) auto
    have nn: "0 \<le> (b - a) div ival * rate" using assms(4-6) by (simp add: pos_imp_zdiv_nonneg_iff)
    show ?thesis
    proof (cases "u < b")
      case b: True
      note p = prefix_below [of u us b]
      have "int (length (filter snd (spec_seq (leak_step cap rate ival) (snd ?st) ?p))) \<le>
          cap - fst (snd ?st) + (b - u) div ival * rate"
        using leak_run_bound [of "snd ?st" ?p cap rate ival b] p st assms(4,5) b Cons.prems(1) by simp
      moreover have "(b - u) div ival * rate \<le> (b - a) div ival * rate"
        using False assms(4,5) by (intro mult_right_mono zdiv_mono1) simp_all
      moreover have "fst ?st \<Longrightarrow> 1 \<le> fst (snd ?st)" by (auto simp: leak_step_def Let_def split: if_splits)
      ultimately show ?thesis unfolding al using b st(1) by (auto split: if_splits)
    qed (use al nn Cons.prems in simp)
  qed
qed

text \<open>A token bucket: its capacity, what is due in the interval, and the rounding of each call.\<close>

lemma token_between:
  fixes m :: int
  defines "M \<equiv> of_int m :: rat"
  assumes "sorted (snd s # us)" and "token_inv M s" and "token_param M" and "token_param r" and "1 \<le> m"
    and "m \<le> 2 ^ 53" and "1 \<le> k" and "k \<le> 2 ^ 53" and "a \<le> b" and "e = (M + tokens_due r k (b - a) + 1) / 2 ^ 49"
  shows "of_nat (allowed_between a b (spec_seq (token_step M r (k * 1000000000)) s us)) \<le>
    M + tokens_due r k (b - a) + of_nat (length us) * e"
proof -
  have r: "0 \<le> r" using assms(5) by (simp add: token_param_def)
  have due: "0 \<le> tokens_due r k (b - a)" using r assms(8,10) by (intro tokens_due_nonneg) simp_all
  have M: "1 \<le> M" using assms(6) by (simp add: M_def)
  have e: "0 \<le> e" using due M by (simp add: assms(11))
  have "rnd (of_int (m - 1)) = of_int (m - 1)" using assms(6,7) by (intro rnd_int) simp_all
  then have M1: "rnd (M - 1) = M - 1" by (simp add: M_def)
  show ?thesis using assms(2,3)
  proof (induction us arbitrary: s)
    case Nil
    then show ?case using due M by simp
  next
    case (Cons u us)
    let ?st = "token_step M r (k * 1000000000) u s"
    have inv: "token_inv M (snd ?st)" by (rule token_step_inv [OF assms(4) Cons.prems(2)])
    have step: "of_nat (length (u # us)) * e = e + of_nat (length us) * e" by (simp add: distrib_right)
    show ?case
    proof (cases "u < a")
      case True
      have "sorted (snd (snd ?st) # us)" using Cons.prems(1) by simp
      from Cons.IH [OF this inv] True e show ?thesis unfolding step by simp
    next
      case False
      let ?p = "takeWhile (\<lambda>u. u < b) us"
      have al: "allowed_between a b (spec_seq (token_step M r (k * 1000000000)) s (u # us)) =
          length (filter snd (spec_seq (token_step M r (k * 1000000000)) s (takeWhile (\<lambda>u. u < b) (u # us))))"
        using False Cons.prems(1) by (intro allowed_upto) auto
      show ?thesis
      proof (cases "u < b")
        case b: True
        have p: "sorted (snd (snd ?st) # ?p)" "\<forall>t \<in> set ?p. t \<le> b" using prefix_below [of u us b] Cons.prems(1) by simp_all
        have "tokens_due r k (u - a) + tokens_due r k (b - u) = tokens_due r k (b - a)"
          using tokens_due_add [of r k "u - a" "b - u"] by simp
        then have dle: "0 \<le> tokens_due r k (b - u)" "tokens_due r k (b - u) \<le> tokens_due r k (b - a)"
          using tokens_due_nonneg [OF r _ assms(8), of "b - u"]
            tokens_due_nonneg [OF r _ assms(8), of "u - a"] False b by linarith+
        have "of_nat (length (filter snd (spec_seq (token_step M r (k * 1000000000)) (snd ?st) ?p))) \<le>
            fst (snd ?st) + tokens_due r k (b - u) + of_nat (length ?p) * ((M + tokens_due r k (b - u) + 1) / 2 ^ 49)"
          using token_run_bound [OF assms(4,5,8,9) inv p] b by simp
        also have "\<dots> \<le> fst (snd ?st) + tokens_due r k (b - a) + of_nat (length us) * e"
          using dle M length_takeWhile_le [of "\<lambda>u. u < b" us] unfolding assms(11)
          by (intro add_mono mult_mono divide_right_mono) simp_all
        finally have rest: "of_nat (length (filter snd (spec_seq (token_step M r (k * 1000000000)) (snd ?st) ?p))) \<le>
            fst (snd ?st) + tokens_due r k (b - a) + of_nat (length us) * e" .
        have one: "(if fst ?st then 1 else 0) + fst (snd ?st) \<le> M"
        proof -
          have x: "token_refill M r (k * 1000000000) u s \<le> M" by (rule token_refill_inv(2) [OF assms(4) Cons.prems(2)])
          then have "rnd (token_refill M r (k * 1000000000) u s - 1) \<le> rnd (M - 1)" by (intro rnd_mono) simp
          with x show ?thesis by (simp add: token_step_def Let_def M1)
        qed
        show ?thesis unfolding al step using rest one b e by (cases "fst ?st") simp_all
      next
        case nb: False
        have "0 \<le> M + tokens_due r k (b - a) + (e + of_nat (length us) * e)" using due M e by simp
        then show ?thesis unfolding al step using nb by simp
      qed
    qed
  qed
qed

section \<open>The setting\<close>

text \<open>
  A service over Redis that has served some requests, and a limit that is new: its configuration
  has just been set, through any such service, for a key of which the store held nothing, and no
  service has a limiter of its algorithm for the key yet.
\<close>

definition service_of :: "'s redis_client \<Rightarrow> 's rate_limit_service \<Rightarrow> bool" where
  "service_of c s \<longleftrightarrow> (\<exists>rs w w'. (s, w') = fold serve rs (new_rate_limit_service (redis_ops c), w))"

definition new_limit ::
    "('s \<Rightarrow> gotime \<Rightarrow> string \<Rightarrow> string) \<Rightarrow> 's redis_client \<Rightarrow> string \<Rightarrow> rate_limit_config \<Rightarrow>
     ('i \<Rightarrow> 's rate_limit_service) \<Rightarrow> 's world \<Rightarrow> bool" where
  "new_limit lookup c key cfg ss w \<longleftrightarrow>
     (\<exists>s w0. service_of c s \<and> (\<forall>j \<in> client_keys key. holds lookup w0 j []) \<and> set_config s key cfg w0 = (None, w)) \<and>
     (\<forall>i. service_of c (ss i) \<and> rls_limiters (ss i) (limiter_key key (cfg_algorithm cfg)) = None)"

lemma service_of_sound: "service_of c s \<Longrightarrow> sound_service s \<and> rls_store s = redis_ops c"
  unfolding service_of_def using served_sound [of "(new_rate_limit_service (redis_ops c), w)" rs for w rs]
  by (metis fst_conv new_rate_limit_service_def rate_limit_service.select_convs(1) sound_new)

lemma service_of_new [simp]: "service_of c (new_rate_limit_service (redis_ops c))"
  unfolding service_of_def by (intro exI [of _ "[]"]) auto

lemma new_limit_start:
  assumes "redis_serves c lookup alive" and "new_limit lookup c key cfg ss w"
  shows "well_configured cfg" and "holds lookup w (config_key key) (json_print (config_json cfg))"
    and "holds lookup w (lim_state_key l key) []"
    and "sound_service (ss i) \<and> rls_store (ss i) = redis_ops c \<and> rls_limiters (ss i) (limiter_key key (cfg_algorithm cfg)) = None"
proof -
  obtain s w0 where s: "service_of c s" "\<forall>j \<in> client_keys key. holds lookup w0 j []" "set_config s key cfg w0 = (None, w)"
    and ss: "\<And>i. service_of c (ss i) \<and> rls_limiters (ss i) (limiter_key key (cfg_algorithm cfg)) = None"
    using assms(2) by (auto simp: new_limit_def)
  note w = set_config_world [OF assms(1) _ s(3)]
  have st: "rls_store s = redis_ops c" using service_of_sound [OF s(1)] by simp
  show "well_configured cfg" by (rule w(2) [OF st])
  show "holds lookup w (config_key key) (json_print (config_json cfg))" by (rule w(3) [OF st])
  show "holds lookup w (lim_state_key l key) []"
    using undisturbed_holds [OF w(4) [OF st]] s(2) client_keysI(3) by blast
  show "sound_service (ss i) \<and> rls_store (ss i) = redis_ops c \<and> rls_limiters (ss i) (limiter_key key (cfg_algorithm cfg)) = None"
    using ss service_of_sound by blast
qed

lemma new_limit_runs:
  assumes "redis_serves c lookup alive" and "new_limit lookup c key cfg ss w" and "config_range cfg (w_clock w)"
    and "\<forall>a \<in> set as. calm lookup key a"
  shows "\<exists>us. sorted us \<and> (\<forall>u \<in> set us. t_wall (now w) \<le> u) \<and> inside (fleet_checks key ss as w) us \<and>
    map (verdict \<circ> snd) (fleet_checks key ss as w) = map Some (config_run cfg (t_wall (w_clock w 0)) us)"
    and "well_configured cfg"
proof -
  note new = new_limit_start [OF assms(1,2)]
  show "\<exists>us. sorted us \<and> (\<forall>u \<in> set us. t_wall (now w) \<le> u) \<and> inside (fleet_checks key ss as w) us \<and>
    map (verdict \<circ> snd) (fleet_checks key ss as w) = map Some (config_run cfg (t_wall (w_clock w 0)) us)"
    by (rule durable_store.fleet_refines [OF redis_durable_store [OF assms(1)] new(1) assms(3) new(2-4) assms(4)])
qed (rule new_limit_start(1) [OF assms(1,2)])

section \<open>Properties\<close>

text \<open>The checks of a run that lie in an interval and were allowed.\<close>

definition let_through :: "int \<Rightarrow> int \<Rightarrow> ((int \<times> int) \<times> check_result) list \<Rightarrow> nat" where
  "let_through a b rs = length (filter (\<lambda>((t, t'), r). a \<le> t \<and> t' < b \<and> verdict r = Some True) rs)"

lemma let_through_spec:
  assumes "inside rs us" and "map (verdict \<circ> snd) rs = map Some (map snd (spec_seq step s us))"
  shows "let_through a b rs \<le> allowed_between a b (spec_seq step s us)"
  using inside_allowed [OF assms(1), of step s a b] assms(2) by (simp add: let_through_def)





section \<open>Witnesses\<close>

text \<open>Two servers, asked about \<open>u\<close> and, in between, about \<open>v\<close>.\<close>

definition demo_actions :: "(bool, redis_map) action list" where
  "demo_actions = [Request True (CheckReq ''u''), Idle (skip 3), Request False (CheckReq ''v''),
     Request False (CheckReq ''u''), Request True (StatusReq ''u''), Request False (CheckReq ''u'')]"

definition demo_checks :: "string \<Rightarrow> ((int \<times> int) \<times> check_result) list" where
  "demo_checks alg = fleet_checks ''u'' (\<lambda>i. demo_service) demo_actions (demo_set alg)"

lemma demo_calm: "\<forall>a \<in> set demo_actions. calm map_lookup ''u'' a"
  by (simp add: demo_actions_def calm_def harmless_def)

lemma demo_new_limit:
  assumes "alg \<in> set valid_algorithms"
  shows "new_limit map_lookup map_client ''u'' (demo_config alg) (\<lambda>i. demo_service) (demo_set alg)"
proof -
  have "\<forall>j \<in> client_keys ''u''. holds map_lookup demo_world j []" using demo_nothing by blast
  then have "\<exists>s w0. service_of map_client s \<and> (\<forall>j \<in> client_keys ''u''. holds map_lookup w0 j []) \<and>
      set_config s ''u'' (demo_config alg) w0 = (None, demo_set alg)"
    using demo_set_config [OF assms] by (intro exI [of _ demo_service] exI [of _ demo_world]) simp
  then show ?thesis by (simp only: new_limit_def service_of_new demo_world_simps simp_thms)
qed

lemma demo_set_clock:
  assumes "alg \<in> set valid_algorithms"
  shows "w_clock (demo_set alg) = demo_clock"
  using set_config_world(1) [OF map_client_serves demo_world_simps(3) demo_set_config [OF assms]] by simp

lemma demo_ranges:
  "config_range (demo_config algorithm_fixed_window) demo_clock" "config_range (demo_config algorithm_sliding_window) demo_clock"
  "config_range (demo_config algorithm_leaky_bucket) demo_clock" "config_range (demo_config algorithm_token_bucket) demo_clock"
proof -
  have wall: "\<forall>i. t_wall (demo_clock i) < 2 ^ 63 \<and> t_wall (demo_clock i) \<le> t_wall (demo_clock 0) + 86399000000000"
    by (auto simp: demo_clock_def ramp_clock_def)
  have rate: "leak_rate (demo_config algorithm_leaky_bucket) = 2" by (simp add: leak_rate_def go_div_def)
  show "config_range (demo_config algorithm_fixed_window) demo_clock" "config_range (demo_config algorithm_sliding_window) demo_clock"
    using demo_clock_range by (simp_all add: config_range_def)
  show "config_range (demo_config algorithm_leaky_bucket) demo_clock"
    using wall by (simp add: config_range_def Let_def algorithm_defs lb_range_def rate [unfolded algorithm_defs])
  have p: "token_param 2" "token_param 1" using token_param_2 token_param_1 by simp_all
  show "config_range (demo_config algorithm_token_bucket) demo_clock"
    using wall p by (simp add: config_range_def Let_def algorithm_defs tb_range_def demo_config_def)
qed





end
