(* ===== verification/AppConfig.thy ===== *)
theory AppConfig
  imports RedisStore
begin

text \<open>
  The configuration from environment variables, \<open>internal/config/config.go\<close> with the Redis client of
  \<open>internal/config/redis.go\<close>. The environment is an argument; \<open>LoadDotEnv\<close> changes it.
\<close>

section \<open>Durations as text\<close>

text \<open>
  \<open>time.ParseDuration\<close>: a sign, then components of digits, a fraction and a unit. A \<open>uint64\<close> is
  kept as an integer; only the sum of the components can wrap.
\<close>

fun leading_int :: "int \<Rightarrow> string \<Rightarrow> (int \<times> string) option" where
  "leading_int x [] = Some (x, [])"
| "leading_int x (c # s) =
     (if \<not> is_digit c then Some (x, c # s)
      else if 9223372036854775808 div 10 < x then None
      else (let x = x * 10 + digit_val c in
        if 9223372036854775808 < x then None else leading_int x s))"

fun leading_fraction :: "int \<Rightarrow> f64 \<Rightarrow> bool \<Rightarrow> string \<Rightarrow> int \<times> f64 \<times> string" where
  "leading_fraction x scale overflow [] = (x, scale, [])"
| "leading_fraction x scale overflow (c # s) =
     (if \<not> is_digit c then (x, scale, c # s)
      else if overflow then leading_fraction x scale True s
      else if 9223372036854775807 div 10 < x then leading_fraction x scale True s
      else (let y = x * 10 + digit_val c in
        if 9223372036854775808 < y then leading_fraction x scale True s
        else leading_fraction y (f64_mul scale (f64_of_int 10)) False s))"

definition unit_map :: "string \<Rightarrow> int option" where
  "unit_map = map_of
     [(''ns'', 1), (''us'', 1000), ([CHR 0xC2, CHR 0xB5, CHR ''s''], 1000), ([CHR 0xCE, CHR 0xBC, CHR ''s''], 1000),
      (''ms'', 1000000), (''s'', 1000000000), (''m'', 60000000000), (''h'', 3600000000000)]"

definition unit_char :: "char \<Rightarrow> bool" where
  "unit_char c \<longleftrightarrow> c \<noteq> CHR ''.'' \<and> \<not> is_digit c"

text \<open>One component: its value in nanoseconds and what follows it.\<close>

definition duration_component :: "string \<Rightarrow> (int \<times> string) option" where
  "duration_component s =
     (if \<not> (hd s = CHR ''.'' \<or> is_digit (hd s)) then None
      else (case leading_int 0 s of
          None \<Rightarrow> None
        | Some (v, s1) \<Rightarrow>
            (let pre = length s1 \<noteq> length s;
                 dot = s1 \<noteq> [] \<and> hd s1 = CHR ''.'';
                 (f, scale, s2) = (if dot then leading_fraction 0 (f64_of_int 1) False (tl s1) else (0, f64_of_int 1, s1));
                 post = dot \<and> length s2 \<noteq> length (tl s1)
             in if \<not> pre \<and> \<not> post then None
                else (let u = takeWhile unit_char s2 in
                  if u = [] then None
                  else (case unit_map u of
                      None \<Rightarrow> None
                    | Some unit \<Rightarrow>
                        if 9223372036854775808 div unit < v then None
                        else (let v = v * unit;
                                  w = (if 0 < f then v + sint (f64_to_i64
                                         (f64_mul (f64_of_int f) (f64_div (f64_of_int unit) scale))) else v)
                              in if 9223372036854775808 < w then None
                                 else Some (w, dropWhile unit_char s2)))))))"

lemma leading_int_length: "leading_int x s = Some (v, r) \<Longrightarrow> length r \<le> length s"
  by (induction x s rule: leading_int.induct) (auto simp: Let_def split: if_splits)

lemma leading_fraction_length: "leading_fraction x sc ov s = (f, sc', r) \<Longrightarrow> length r \<le> length s"
  by (induction x sc ov s rule: leading_fraction.induct) (auto simp: Let_def split: if_splits)

lemma duration_component_length:
  assumes "duration_component s = Some (v, r)"
  shows "length r < length s"
proof -
  obtain v0 s1 where s1: "leading_int 0 s = Some (v0, s1)"
    using assms by (auto simp: duration_component_def split: if_splits option.splits)
  define s2 where "s2 = snd (snd (if s1 \<noteq> [] \<and> hd s1 = CHR ''.'' then leading_fraction 0 (f64_of_int 1) False (tl s1)
    else (0, f64_of_int 1, s1)))"
  have "length s2 \<le> length s1"
    using leading_fraction_length [of 0 "f64_of_int 1" False "tl s1"]
    by (auto simp: s2_def) (metis diff_le_self le_trans length_tl prod.collapse)
  moreover have "takeWhile unit_char s2 \<noteq> []" "r = dropWhile unit_char s2"
    using assms by (auto simp: duration_component_def s1 Let_def split_beta s2_def split: if_splits option.splits)
  moreover have "length (takeWhile unit_char s2) + length (dropWhile unit_char s2) = length s2"
    by (metis length_append takeWhile_dropWhile_id)
  ultimately show ?thesis
    using leading_int_length [OF s1] by (cases "takeWhile unit_char s2") auto
qed

function duration_sum :: "int \<Rightarrow> string \<Rightarrow> int option" where
  "duration_sum d s =
     (if s = [] then Some d
      else (case duration_component s of
          None \<Rightarrow> None
        | Some (v, r) \<Rightarrow> (let d = (d + v) mod 18446744073709551616 in
            if 9223372036854775808 < d then None else duration_sum d r)))"
  by pat_completeness auto
termination
  by (relation "measure (\<lambda>(d, s). length s)") (auto dest: duration_component_length)

declare duration_sum.simps [simp del]

definition parse_duration :: "string \<Rightarrow> int64 option" where
  "parse_duration s =
     (let neg = (s \<noteq> [] \<and> hd s = CHR ''-'');
          r = (if s \<noteq> [] \<and> (hd s = CHR ''-'' \<or> hd s = CHR ''+'') then tl s else s)
      in if r = ''0'' then Some 0
         else if r = [] then None
         else (case duration_sum 0 r of
             None \<Rightarrow> None
           | Some d \<Rightarrow>
               if neg then Some (- word_of_int d)
               else if 9223372036854775807 < d then None
               else Some (word_of_int d)))"

section \<open>The configuration\<close>

type_synonym environment = "string \<Rightarrow> string option"

record log_config =
  lgc_level :: string
  lgc_format :: string

record http_server_config =
  hsc_host :: string
  hsc_port :: int64
  hsc_read_timeout :: int64
  hsc_write_timeout :: int64
  hsc_idle_timeout :: int64

record grpc_server_config =
  gsc_host :: string
  gsc_port :: int64

record redis_config =
  rdc_host :: string
  rdc_port :: int64
  rdc_password :: string
  rdc_db :: int64
  rdc_pool_size :: int64

record app_config =
  ac_http_server :: http_server_config
  ac_grpc_server :: grpc_server_config
  ac_redis :: redis_config
  ac_log :: log_config

definition get_env :: "environment \<Rightarrow> string \<Rightarrow> string \<Rightarrow> string" where
  "get_env env key fallback = (case env key of
      Some val \<Rightarrow> if val \<noteq> [] then val else fallback
    | None \<Rightarrow> fallback)"

text \<open>\<open>strconv.Atoi\<close> is \<open>parse_int\<close>.\<close>

definition get_env_as_int :: "environment \<Rightarrow> string \<Rightarrow> int64 \<Rightarrow> int64" where
  "get_env_as_int env key fallback = (case env key of
      None \<Rightarrow> fallback
    | Some val \<Rightarrow>
        if val = [] then fallback
        else (case parse_int val of None \<Rightarrow> fallback | Some parsed \<Rightarrow> parsed))"

definition get_env_as_duration :: "environment \<Rightarrow> string \<Rightarrow> int64 \<Rightarrow> int64" where
  "get_env_as_duration env key fallback = (case env key of
      None \<Rightarrow> fallback
    | Some val \<Rightarrow>
        if val = [] then fallback
        else (case parse_duration val of None \<Rightarrow> fallback | Some dur \<Rightarrow> dur))"

definition load_config :: "environment \<Rightarrow> app_config" where
  "load_config env =
     \<lparr>ac_http_server =
        \<lparr>hsc_host = get_env env ''APP_HTTP_HOST'' ''0.0.0.0'',
         hsc_port = get_env_as_int env ''APP_HTTP_PORT'' 3000,
         hsc_read_timeout = get_env_as_duration env ''APP_HTTP_READ_TIMEOUT'' (10 * second),
         hsc_write_timeout = get_env_as_duration env ''APP_HTTP_WRITE_TIMEOUT'' (10 * second),
         hsc_idle_timeout = get_env_as_duration env ''APP_HTTP_IDLE_TIMEOUT'' (10 * second)\<rparr>,
      ac_grpc_server =
        \<lparr>gsc_host = get_env env ''APP_GRPC_HOST'' ''0.0.0.0'',
         gsc_port = get_env_as_int env ''APP_GRPC_PORT'' 50051\<rparr>,
      ac_redis =
        \<lparr>rdc_host = get_env env ''REDIS_HOST'' ''localhost'',
         rdc_port = get_env_as_int env ''REDIS_PORT'' 6379,
         rdc_password = get_env env ''REDIS_PASSWORD'' [],
         rdc_db = get_env_as_int env ''REDIS_DB'' 0, rdc_pool_size = 0\<rparr>,
      ac_log =
        \<lparr>lgc_level = get_env env ''LOG_LEVEL'' ''debug'',
         lgc_format = get_env env ''LOG_FORMAT'' ''console''\<rparr>\<rparr>"

text \<open>
  \<open>LoadDotEnv\<close>: \<open>exists\<close> says that \<open>os.Stat\<close> finds a file \<open>.env\<close>, and \<open>load\<close> is \<open>godotenv.Load\<close>, which
  reads it into the environment or fails. The result is the error of the warning, if one is
  printed, and the environment.
\<close>

definition load_dot_env ::
    "bool \<Rightarrow> (environment \<Rightarrow> go_error option \<times> environment) \<Rightarrow> environment \<Rightarrow> go_error option \<times> environment" where
  "load_dot_env exists load env = (if exists then load env else (None, env))"

definition redis_addr :: "app_config \<Rightarrow> string" where
  "redis_addr c = rdc_host (ac_redis c) @ '':'' @ format_int (rdc_port (ac_redis c))"

definition http_server_addr :: "app_config \<Rightarrow> string" where
  "http_server_addr c = hsc_host (ac_http_server c) @ '':'' @ format_int (hsc_port (ac_http_server c))"

definition grpc_server_addr :: "app_config \<Rightarrow> string" where
  "grpc_server_addr c = gsc_host (ac_grpc_server c) @ '':'' @ format_int (gsc_port (ac_grpc_server c))"

text \<open>\<open>config/redis.go\<close>: a client for the configured address, if the server answers.\<close>

definition new_redis_client ::
    "(redis_options \<Rightarrow> 's redis_client) \<Rightarrow> app_config \<Rightarrow> 's world \<Rightarrow>
     (go_error + 's redis_client) \<times> 's world" where
  "new_redis_client dial cfg w =
     (let client = dial
            \<lparr>opt_addr = rdc_host (ac_redis cfg) @ '':'' @ format_int (rdc_port (ac_redis cfg)),
             opt_password = rdc_password (ac_redis cfg), opt_db = rdc_db (ac_redis cfg), opt_pool_size = 0\<rparr>
      in case rc_ping client w of
           (Some e, w) \<Rightarrow> (Inl (redis_err e), w)
         | (None, w) \<Rightarrow> (Inr client, w))"

section \<open>Properties\<close>

lemma digits_val_Cons: "digits_val (c # s) = digit_val c * 10 ^ length s + digits_val s"
  using digits_val_append [of "[c]" s] digits_val_snoc [of "[]" c] by simp

lemma digit_val_nonneg: "is_digit c \<Longrightarrow> 0 \<le> digit_val c"
  using digits_val_nonneg [of "[c]"] by (simp add: digits_val_Cons)

lemma leading_int_digits:
  assumes "list_all is_digit ds" and "u \<noteq> []" and "\<not> is_digit (hd u)" and "0 \<le> x"
    and "x * 10 ^ length ds + digits_val ds \<le> 9223372036854775807"
  shows "leading_int x (ds @ u) = Some (x * 10 ^ length ds + digits_val ds, u)"
  using assms(1,4,5)
proof (induction ds arbitrary: x)
  case Nil
  then show ?case using assms(2,3) by (cases u) simp_all
next
  case (Cons c ds)
  let ?x = "x * 10 + digit_val c"
  have c: "0 \<le> digit_val c" "0 \<le> digits_val ds" using Cons.prems(1) digit_val_nonneg digits_val_nonneg by simp_all
  have eq: "x * 10 ^ length (c # ds) + digits_val (c # ds) = ?x * 10 ^ length ds + digits_val ds"
    by (simp add: digits_val_Cons algebra_simps)
  have "?x \<le> ?x * 10 ^ length ds" using c Cons.prems(2) by (simp add: mult_le_cancel_left1)
  also have "\<dots> \<le> ?x * 10 ^ length ds + digits_val ds" using c by simp
  also have "\<dots> \<le> 9223372036854775807" using Cons.prems(3) unfolding eq .
  finally have "?x \<le> 9223372036854775807" .
  then show ?case using Cons.IH [of ?x] Cons.prems c unfolding eq by simp
qed

lemma unit_map_cases:
  assumes "unit_map u = Some n"
  shows "u \<noteq> []" and "\<not> is_digit (hd u)" and "hd u \<noteq> CHR ''.''" and "takeWhile unit_char u = u"
    and "dropWhile unit_char u = []" and "0 < n"
  using assms by (auto simp: unit_map_def unit_char_def is_digit_def split: if_splits)

lemma duration_component_whole:
  assumes "0 \<le> n" and "unit_map u = Some k" and "n * k < 9223372036854775808"
  shows "duration_component (show_nat n @ u) = Some (n * k, [])"
proof -
  note u = unit_map_cases [OF assms(2)]
  obtain c s where s: "show_nat n = c # s" by (meson list.exhaust show_nat_not_Nil)
  have d: "is_digit c" using show_nat_digits [OF assms(1)] by (simp add: s)
  have "n * 1 \<le> n * k" using assms(1) u(6) by (intro mult_left_mono) simp_all
  then have li: "leading_int 0 (show_nat n @ u) = Some (n, u)"
    using leading_int_digits [OF show_nat_digits [OF assms(1)] u(1,2), of 0] assms(1,3) by simp
  have "n \<le> 9223372036854775808 div k"
    using zdiv_mono1 [of "n * k" 9223372036854775808 k] assms(3) u(6) by simp
  then show ?thesis
    using d li assms(2,3) u(1,3,6) unfolding duration_component_def s by (simp add: Let_def u(4,5))
qed

lemma parse_duration_whole:
  assumes "0 \<le> n" and "unit_map u = Some k" and "n * k < 9223372036854775808"
  shows "parse_duration (show_nat n @ u) = Some (word_of_int (n * k))"
proof -
  note u = unit_map_cases [OF assms(2)]
  have b: "0 \<le> n * k" using assms(1) u(6) by simp
  obtain c s where s: "show_nat n = c # s" by (meson list.exhaust show_nat_not_Nil)
  have c: "c \<noteq> CHR ''-''" "c \<noteq> CHR ''+''" using show_nat_digits [OF assms(1)] by (auto simp: s)
  have "duration_sum 0 (show_nat n @ u) = Some (n * k)"
    using b assms(3) duration_component_whole [OF assms]
    by (simp add: duration_sum.simps [of 0 "show_nat n @ u"] duration_sum.simps [of "n * k" "[]"])
  then show ?thesis using c u(1) b assms(3) by (simp add: parse_duration_def s)
qed

text \<open>
  C34: An integer, or a whole number of any unit of time, written into an environment variable is
  what the configuration reads from it, as long as it fits in 64 bits.
\<close>

theorem environment_roundtrip:
  assumes "env ikey = Some (format_int i)"
    and "env dkey = Some (show_nat n @ u)" and "unit_map u = Some k" and "0 \<le> n" and "n * k < 2 ^ 63"
  shows "get_env_as_int env ikey fallback = i \<and> sint (get_env_as_duration env dkey dfallback) = n * k"
proof -
  note u = unit_map_cases [OF assms(3)]
  have b: "n * k < 9223372036854775808" "0 \<le> n * k" using assms(4,5) u(6) by simp_all
  have dur: "get_env_as_duration env dkey dfallback = word_of_int (n * k)"
    using assms(2) u(1) parse_duration_whole [OF assms(4,3) b(1)] by (simp add: get_env_as_duration_def)
  have "sint (get_env_as_duration env dkey dfallback) = n * k"
    unfolding dur using b by (intro sint_of_int_i64) (simp add: in_i64_def)
  moreover have "format_int i \<noteq> []" by (simp add: format_int_def)
  ultimately show ?thesis using assms(1) by (simp add: get_env_as_int_def)
qed

theorem environment_roundtrip_witness:
  "get_env_as_int [''REDIS_DB'' \<mapsto> format_int 3, ''APP_HTTP_READ_TIMEOUT'' \<mapsto> show_nat 30 @ ''s''] ''REDIS_DB'' 0 = 3 \<and>
   sint (get_env_as_duration [''REDIS_DB'' \<mapsto> format_int 3, ''APP_HTTP_READ_TIMEOUT'' \<mapsto> show_nat 30 @ ''s'']
     ''APP_HTTP_READ_TIMEOUT'' 0) = 30000000000"
  using environment_roundtrip [of "[''REDIS_DB'' \<mapsto> format_int 3, ''APP_HTTP_READ_TIMEOUT'' \<mapsto> show_nat 30 @ ''s'']"
      "''REDIS_DB''" 3 "''APP_HTTP_READ_TIMEOUT''" 30 "''s''" 1000000000 0 0]
  by (simp add: unit_map_def)

text \<open>
  \<open>godotenv.Load\<close> does not override a variable that exists: what its documentation says of a
  \<open>file\<close> it can read.
\<close>

definition dotenv_serves :: "(environment \<Rightarrow> go_error option \<times> environment) \<Rightarrow> environment \<Rightarrow> bool" where
  "dotenv_serves load file \<longleftrightarrow> (\<forall>env. load env = (None, \<lambda>k. if env k = None then file k else env k))"

text \<open>The text a setting comes from: the variable if it is there, else the line of the file, else nothing.\<close>

definition setting :: "environment \<Rightarrow> environment \<Rightarrow> string \<Rightarrow> string" where
  "setting env file k = (case env k of Some v \<Rightarrow> v | None \<Rightarrow> (case file k of Some v \<Rightarrow> v | None \<Rightarrow> []))"

lemma parse_nothing [simp]: "parse_int [] = None" "parse_duration [] = None"
  by (simp_all add: parse_int_def parse_duration_def)

text \<open>
  C35: With a \<open>.env\<close> that \<open>godotenv.Load\<close> reads as documented, without overriding variables that exist,
  a text setting is the environment's text, else the file's, unless that is empty, which gives the
  default; a number or a duration is the one this text is in the notation of \<open>strconv.Atoi\<close> or
  \<open>time.ParseDuration\<close>, and the default where it is none; and the Redis client is made for the host
  and the port found in this way, \<open>localhost\<close> and 6379 by default.
\<close>

theorem dotenv_precedence:
  assumes "dotenv_serves load file" and "load_dot_env True load env = (warning, env')"
  shows "warning = None \<and>
    get_env env' k s = (if setting env file k = [] then s else setting env file k) \<and>
    get_env_as_int env' k i = (case parse_int (setting env file k) of None \<Rightarrow> i | Some n \<Rightarrow> n) \<and>
    get_env_as_duration env' k d = (case parse_duration (setting env file k) of None \<Rightarrow> d | Some n \<Rightarrow> n) \<and>
    redis_addr (load_config env') =
      (if setting env file ''REDIS_HOST'' = [] then ''localhost'' else setting env file ''REDIS_HOST'') @ '':'' @
      format_int (case parse_int (setting env file ''REDIS_PORT'') of None \<Rightarrow> 6379 | Some n \<Rightarrow> n)"
proof -
  have w: "warning = None" and env': "env' j = (if env j = None then file j else env j)" for j
    using assms by (auto simp: load_dot_env_def dotenv_serves_def)
  have g: "get_env env' j s = (if setting env file j = [] then s else setting env file j)"
    "get_env_as_int env' j i = (case parse_int (setting env file j) of None \<Rightarrow> i | Some n \<Rightarrow> n)"
    "get_env_as_duration env' j d = (case parse_duration (setting env file j) of None \<Rightarrow> d | Some n \<Rightarrow> n)" for j s i d
    unfolding get_env_def get_env_as_int_def get_env_as_duration_def setting_def env' by (auto split: option.split)
  show ?thesis by (simp add: w g redis_addr_def load_config_def)
qed

definition demo_file :: environment where
  "demo_file = [''REDIS_HOST'' \<mapsto> ''redis'', ''REDIS_PORT'' \<mapsto> format_int 7000, ''LOG_LEVEL'' \<mapsto> ''warn'']"

definition demo_load :: "environment \<Rightarrow> go_error option \<times> environment" where
  "demo_load env = (None, \<lambda>k. if env k = None then demo_file k else env k)"

text \<open>The host is empty in the environment and \<open>redis\<close> in the file; the port is in the file.\<close>

theorem dotenv_precedence_witness:
  "redis_addr (load_config (snd (load_dot_env True demo_load [''REDIS_HOST'' \<mapsto> []]))) = ''localhost:'' @ format_int 7000"
proof -
  have "dotenv_serves demo_load demo_file" by (simp add: dotenv_serves_def demo_load_def)
  moreover obtain e env where l: "load_dot_env True demo_load [''REDIS_HOST'' \<mapsto> []] = (e, env)" by fastforce
  ultimately have "redis_addr (load_config env) = ''localhost:'' @ format_int 7000"
    using dotenv_precedence [of demo_load demo_file "[''REDIS_HOST'' \<mapsto> []]" e env "[]" "[]" 0 0]
    by (simp add: setting_def demo_file_def)
  then show ?thesis by (simp only: l snd_conv)
qed

end
