(* ===== verification/Logger.thy ===== *)
theory Logger
  imports GoRuntime
begin

text \<open>
  The logger, \<open>internal/config/logger.go\<close>: the configuration \<open>InitLogger\<close> fills for the zap
  library. What the library does with it is a parameter: \<open>zu\<close> is \<open>zapcore.Level.UnmarshalText\<close> and
  \<open>zb\<close> is \<open>zap.Config.Build\<close>, which fails or gives the logger of its configuration. What a
  logger writes is not modelled.
\<close>

datatype line_ending = DefaultLineEnding
datatype level_encoder = LowercaseLevelEncoder
datatype time_encoder = ISO8601TimeEncoder
datatype duration_encoder = SecondsDurationEncoder
datatype caller_encoder = ShortCallerEncoder

record encoder_config =
  ec_time_key :: string
  ec_level_key :: string
  ec_name_key :: string
  ec_caller_key :: string
  ec_message_key :: string
  ec_stacktrace_key :: string
  ec_line_ending :: line_ending
  ec_encode_level :: level_encoder
  ec_encode_time :: time_encoder
  ec_encode_duration :: duration_encoder
  ec_encode_caller :: caller_encoder

text \<open>A level of zap is an \<open>int8\<close>: -1 is debug, 0 is info, 5 is fatal.\<close>

record zap_config =
  zc_level :: "8 word"
  zc_encoding :: string
  zc_output_paths :: "string list"
  zc_error_output_paths :: "string list"
  zc_encoder_config :: encoder_config

text \<open>A logger is \<open>zap.NewNop()\<close>, which writes nothing, or one built from a configuration.\<close>

datatype logger = NopLogger | BuiltLogger zap_config

definition logger_config :: "8 word \<Rightarrow> string \<Rightarrow> zap_config" where
  "logger_config zapLevel format =
     \<lparr>zc_level = zapLevel, zc_encoding = format, zc_output_paths = [''stdout''],
      zc_error_output_paths = [''stderr''],
      zc_encoder_config = \<lparr>ec_time_key = ''timestamp'', ec_level_key = ''level'',
        ec_name_key = ''logger'', ec_caller_key = ''caller'', ec_message_key = ''message'',
        ec_stacktrace_key = ''stacktrace'', ec_line_ending = DefaultLineEnding,
        ec_encode_level = LowercaseLevelEncoder, ec_encode_time = ISO8601TimeEncoder,
        ec_encode_duration = SecondsDurationEncoder, ec_encode_caller = ShortCallerEncoder\<rparr>\<rparr>"

definition init_logger ::
    "(string \<Rightarrow> go_error + 8 word) \<Rightarrow> (zap_config \<Rightarrow> go_error option) \<Rightarrow> string \<Rightarrow> string \<Rightarrow> go_error + logger" where
  "init_logger zu zb level format = (case zu level of
      Inl err \<Rightarrow> Inl (ErrWrap ''invalid log level'' err)
    | Inr zapLevel \<Rightarrow>
        (let config = logger_config zapLevel format
         in case zb config of
              Some err \<Rightarrow> Inl err
            | None \<Rightarrow> Inr (BuiltLogger config)))"

lemma init_logger_Inr_iff:
  "init_logger zu zb level format = Inr l \<longleftrightarrow>
   (\<exists>lv. zu level = Inr lv \<and> zb (logger_config lv format) = None \<and> l = BuiltLogger (logger_config lv format))"
  by (auto simp: init_logger_def Let_def split: sum.splits option.splits)

end
