(* ===== verification/Handlers.thy ===== *)
theory Handlers
  imports ServiceContract Logger
begin

text \<open>
  The health service (\<open>internal/service/health.go\<close>) and the HTTP handlers
  (\<open>internal/handler/health_check.go\<close>, \<open>internal/handler/ratelimit.go\<close>): from the body of a
  request, or the key in its path, to the status, the headers and the body of the response. The
  router is not part of the repository; it hands a handler the value of \<open>{key}\<close>.

  Three texts are parameters: the message of an error of \<open>encoding/json\<close> (\<open>jt\<close>), the RFC 3339
  form of a time in the local time zone (\<open>tf\<close>), and, in \<open>ErrExternal\<close>, that of a library.
\<close>

section \<open>Errors as text\<close>

definition err_configuration_not_found :: string where
  [simp]: "err_configuration_not_found = ''configuration not found''"

fun error_text :: "(json_error \<Rightarrow> string) \<Rightarrow> go_error \<Rightarrow> string" where
  "error_text jt ErrNotFound = err_configuration_not_found"
| "error_text jt (ErrNew m) = m"
| "error_text jt (ErrWrap m e) = m @ '': '' @ error_text jt e"
| "error_text jt (ErrJson e) = jt e"
| "error_text jt (ErrExternal m) = m"

section \<open>The response writer\<close>

text \<open>
  \<open>net/http\<close>: the names of headers are canonical; the first \<open>WriteHeader\<close> fixes the status and
  the headers, and a body written before it fixes the status 200.
\<close>

record http_response =
  hr_header :: "string \<Rightarrow> string option"
  hr_status :: "int option"
  hr_body :: string

definition new_response :: http_response where
  "new_response = \<lparr>hr_header = Map.empty, hr_status = None, hr_body = []\<rparr>"

definition upper_char :: "char \<Rightarrow> char" where
  "upper_char c = (if 97 \<le> byte c \<and> byte c \<le> 122 then char_of (byte c - 32) else c)"

definition lower_char :: "char \<Rightarrow> char" where
  "lower_char c = (if 65 \<le> byte c \<and> byte c \<le> 90 then char_of (byte c + 32) else c)"

fun canonical_from :: "bool \<Rightarrow> string \<Rightarrow> string" where
  "canonical_from up [] = []"
| "canonical_from up (c # r) =
     (if up then upper_char c else lower_char c) # canonical_from (c = CHR ''-'') r"

definition header_set :: "string \<Rightarrow> string \<Rightarrow> http_response \<Rightarrow> http_response" where
  "header_set k v r = (if hr_status r = None
     then r\<lparr>hr_header := (hr_header r)(canonical_from True k \<mapsto> v)\<rparr> else r)"

definition write_header :: "int \<Rightarrow> http_response \<Rightarrow> http_response" where
  "write_header code r = (if hr_status r = None then r\<lparr>hr_status := Some code\<rparr> else r)"

text \<open>\<open>json.NewEncoder(w).Encode(v)\<close> ends the value with a new line.\<close>

definition encode :: "json \<Rightarrow> http_response \<Rightarrow> http_response" where
  "encode v r = (let r = write_header 200 r
     in r\<lparr>hr_body := hr_body r @ json_print v @ [CHR 0x0A]\<rparr>)"

definition status_ok :: int where "status_ok = 200"
definition status_created :: int where "status_created = 201"
definition status_bad_request :: int where "status_bad_request = 400"
definition status_not_found :: int where "status_not_found = 404"
definition status_too_many_requests :: int where "status_too_many_requests = 429"
definition status_internal_server_error :: int where "status_internal_server_error = 500"
definition status_service_unavailable :: int where "status_service_unavailable = 503"

section \<open>The health service and its handler\<close>

definition health_status_healthy :: string where [simp]: "health_status_healthy = ''healthy''"
definition health_status_unhealthy :: string where [simp]: "health_status_unhealthy = ''unhealthy''"

record 's health_service =
  hs_store :: "'s store_ops"

definition new_health_service :: "'s store_ops \<Rightarrow> 's health_service" where
  "new_health_service store = \<lparr>hs_store = store\<rparr>"

definition get_health_status ::
    "(gotime \<Rightarrow> string) \<Rightarrow> 's health_service \<Rightarrow> 's world \<Rightarrow> (string \<times> string \<times> go_error option) \<times> 's world" where
  "get_health_status tf s w =
     (let timestamp = tf (now w)
      in case st_ping (hs_store s) (tick w) of
           (Some err, w) \<Rightarrow> ((health_status_unhealthy, timestamp, Some err), w)
         | (None, w) \<Rightarrow> ((health_status_healthy, timestamp, None), w))"

definition health_ping :: "'s health_service \<Rightarrow> 's world \<Rightarrow> go_error option \<times> 's world" where
  "health_ping s w = st_ping (hs_store s) w"

record 's health_check_handler =
  hch_service :: "'s health_service"
  hch_logger :: logger

definition new_health_check_handler :: "'s health_service \<Rightarrow> 's health_check_handler" where
  "new_health_check_handler healthService = \<lparr>hch_service = healthService, hch_logger = NopLogger\<rparr>"

definition new_health_check_handler_with_logger ::
    "'s health_service \<Rightarrow> logger \<Rightarrow> 's health_check_handler" where
  "new_health_check_handler_with_logger healthService logger =
     \<lparr>hch_service = healthService, hch_logger = logger\<rparr>"

text \<open>A map is encoded with its keys in order.\<close>

definition health_check ::
    "(json_error \<Rightarrow> string) \<Rightarrow> (gotime \<Rightarrow> string) \<Rightarrow> 's health_check_handler \<Rightarrow> 's world \<Rightarrow> http_response \<times> 's world" where
  "health_check jt tf h w = (case get_health_status tf (hch_service h) w of
      ((status, timestamp, err), w) \<Rightarrow>
        (let fields = [(''status'', JStr status), (''time'', JStr timestamp)];
             fields = (case err of None \<Rightarrow> fields | Some e \<Rightarrow> (''error'', JStr (error_text jt e)) # fields);
             statusCode = (if err = None then status_ok else status_service_unavailable)
         in (encode (JObj fields)
               (write_header statusCode (header_set ''Content-Type'' ''application/json'' new_response)), w)))"

section \<open>The rate-limit handlers\<close>

record 's rate_limit_handler =
  rlh_service :: "'s rate_limit_service"

definition new_rate_limit_handler :: "'s rate_limit_service \<Rightarrow> 's rate_limit_handler" where
  "new_rate_limit_handler svc = \<lparr>rlh_service = svc\<rparr>"

text \<open>
  Below a handler is given by its service, and returns the service as the request leaves it.
\<close>

definition write_error :: "int \<Rightarrow> string \<Rightarrow> http_response \<Rightarrow> http_response" where
  "write_error statusCode message r = encode (JObj [(''error'', JStr message)])
     (write_header statusCode (header_set ''Content-Type'' ''application/json'' r))"

definition get_status_code_for_error :: "go_error \<Rightarrow> int" where
  "get_status_code_for_error err =
     (if is_not_found err then status_not_found else status_internal_server_error)"

record set_request =
  sr_key :: string
  sr_config :: rate_limit_config

definition set_request_decode :: "set_request decoder" where
  "set_request_decode = decode_struct
     [(''key'', on_field sr_key (\<lambda>x s. s\<lparr>sr_key := x\<rparr>) decode_string),
      (''config'', on_field sr_config (\<lambda>x s. s\<lparr>sr_config := x\<rparr>) config_decode)]"

definition handle_set ::
    "'s rate_limit_service \<Rightarrow> string \<Rightarrow> 's world \<Rightarrow> http_response \<times> 's world" where
  "handle_set s body w =
     (case decode_stream set_request_decode body \<lparr>sr_key = [], sr_config = empty_config\<rparr> of
        (req, Some err) \<Rightarrow> (write_error status_bad_request ''invalid request body'' new_response, w)
      | (req, None) \<Rightarrow> (case set_config s (sr_key req) (sr_config req) w of
            (Some err, w) \<Rightarrow>
              (write_error status_internal_server_error ''failed to save configuration'' new_response, w)
          | (None, w) \<Rightarrow>
              (encode (JObj [(''key'', JStr (sr_key req)), (''message'', JStr ''rate limit configured'')])
                (write_header status_created (header_set ''Content-Type'' ''application/json'' new_response)), w)))"

record check_request =
  cr_key :: string
  cr_algorithm :: string

definition check_request_decode :: "check_request decoder" where
  "check_request_decode = decode_struct
     [(''key'', on_field cr_key (\<lambda>x s. s\<lparr>cr_key := x\<rparr>) decode_string),
      (''algorithm'', on_field cr_algorithm (\<lambda>x s. s\<lparr>cr_algorithm := x\<rparr>) decode_string)]"

definition check_response_json :: "check_limit_response \<Rightarrow> json" where
  "check_response_json r = JObj
     [(''allowed'', JBool (clr_allowed r)), (''remaining'', JNum (format_int (clr_remaining r))),
      (''reset_at'', JNum (format_int (clr_reset_at r))), (''retry_after'', JNum (format_int (clr_retry_after r)))]"

text \<open>The part of \<open>Check\<close> that writes an answer of the service.\<close>

definition write_check_response :: "check_limit_response \<Rightarrow> http_response" where
  "write_check_response r =
     (let h = header_set ''X-RateLimit-Limit'' ''TBD'' new_response;
          h = header_set ''X-RateLimit-Remaining'' (format_int (clr_remaining r)) h;
          h = header_set ''X-RateLimit-Reset'' (format_int (clr_reset_at r)) h;
          h = (if \<not> clr_allowed r
               then header_set ''X-RateLimit-Retry-After'' (format_int (clr_retry_after r)) h else h);
          h = header_set ''Content-Type'' ''application/json'' h;
          h = (if \<not> clr_allowed r then write_header status_too_many_requests h else write_header status_ok h)
      in encode (check_response_json r) h)"

definition handle_check ::
    "(json_error \<Rightarrow> string) \<Rightarrow> 's rate_limit_service \<Rightarrow> string \<Rightarrow> 's world \<Rightarrow>
     http_response outcome \<times> 's rate_limit_service \<times> 's world" where
  "handle_check jt s body w =
     (case decode_stream check_request_decode body \<lparr>cr_key = [], cr_algorithm = []\<rparr> of
        (req, Some err) \<Rightarrow>
          (Returns (write_error status_bad_request ''invalid request body'' new_response), s, w)
      | (req, None) \<Rightarrow>
          if cr_key req = []
          then (Returns (write_error status_bad_request ''key is required'' new_response), s, w)
          else (case check_limit s (cr_key req) w of
              (Panics p, s, w) \<Rightarrow> (Panics p, s, w)
            | (Returns (Inl err), s, w) \<Rightarrow>
                (Returns (write_error (get_status_code_for_error err) (error_text jt err) new_response), s, w)
            | (Returns (Inr limitResp), s, w) \<Rightarrow> (Returns (write_check_response limitResp), s, w)))"

definition status_response_json :: "string \<Rightarrow> get_status_response \<Rightarrow> json" where
  "status_response_json key r = JObj
     [(''key'', JStr key), (''algorithm'', JStr (cfg_algorithm (gsr_config r))),
      (''config'', config_json (gsr_config r)), (''created_at'', JNum (format_int (gsr_created_at r))),
      (''updated_at'', JNum (format_int (gsr_updated_at r))), (''next_reset'', JNum (format_int (gsr_next_reset r)))]"

definition handle_status ::
    "(json_error \<Rightarrow> string) \<Rightarrow> 's rate_limit_service \<Rightarrow> string \<Rightarrow> 's world \<Rightarrow> http_response outcome \<times> 's world" where
  "handle_status jt s key w =
     (if key = [] then (Returns (write_error status_bad_request ''key is required'' new_response), w)
      else (case get_status s key w of
          (Panics p, w) \<Rightarrow> (Panics p, w)
        | (Returns (Inl err), w) \<Rightarrow>
            (Returns (write_error (get_status_code_for_error err) (error_text jt err) new_response), w)
        | (Returns (Inr statusResp), w) \<Rightarrow> (Returns (encode (status_response_json key statusResp)
            (write_header status_ok (header_set ''Content-Type'' ''application/json'' new_response))), w)))"

definition handle_reset ::
    "(json_error \<Rightarrow> string) \<Rightarrow> 's rate_limit_service \<Rightarrow> string \<Rightarrow> 's world \<Rightarrow>
     http_response outcome \<times> 's rate_limit_service \<times> 's world" where
  "handle_reset jt s key w =
     (if key = [] then (Returns (write_error status_bad_request ''key is required'' new_response), s, w)
      else (case reset_limit s key w of
          (Panics p, s, w) \<Rightarrow> (Panics p, s, w)
        | (Returns (Some err), s, w) \<Rightarrow>
            (Returns (write_error (get_status_code_for_error err) (error_text jt err) new_response), s, w)
        | (Returns None, s, w) \<Rightarrow> (Returns
            (encode (JObj [(''key'', JStr key), (''message'', JStr ''rate limit reset'')])
              (write_header status_ok (header_set ''Content-Type'' ''application/json'' new_response))), s, w)))"

end
