(* ===== verification/Transport.thy ===== *)
theory Transport
  imports Handlers
begin

text \<open>
  The transports, \<open>internal/transport\<close>: the messages and the methods of the gRPC services, the
  health watch, the routes of the HTTP server, and how both servers are put together. The
  libraries under them (grpc, \<open>net/http\<close>, the router) are left out: a method is what they call,
  and \<open>Start\<close> and \<open>Stop\<close> are described by the events they wait for.
\<close>

type_synonym int32 = "32 word"

section \<open>Messages\<close>

text \<open>
  A message field is a pointer, which a client may leave out: \<open>None\<close>. A conversion \<open>int(x)\<close>
  extends the sign and \<open>int32(x)\<close> drops the high bits.
\<close>

record pb_rate_limit_config =
  pb_algorithm :: string
  pb_limit :: int64
  pb_window_seconds :: int32
  pb_refill_rate :: int32
  pb_refill_interval :: int32

definition proto_config_to_service :: "pb_rate_limit_config option \<Rightarrow> rate_limit_config outcome" where
  "proto_config_to_service pbConfig = (case pbConfig of
      None \<Rightarrow> Panics NilDereference
    | Some pb \<Rightarrow> Returns
        \<lparr>cfg_algorithm = pb_algorithm pb, cfg_limit = pb_limit pb,
         cfg_window_seconds = scast (pb_window_seconds pb), cfg_refill_rate = scast (pb_refill_rate pb),
         cfg_refill_interval = scast (pb_refill_interval pb)\<rparr>)"

definition service_config_to_proto :: "rate_limit_config \<Rightarrow> pb_rate_limit_config" where
  "service_config_to_proto cfg =
     \<lparr>pb_algorithm = cfg_algorithm cfg, pb_limit = cfg_limit cfg,
      pb_window_seconds = ucast (cfg_window_seconds cfg), pb_refill_rate = ucast (cfg_refill_rate cfg),
      pb_refill_interval = ucast (cfg_refill_interval cfg)\<rparr>"

record pb_set_request =
  psr_key :: string
  psr_config :: "pb_rate_limit_config option"

record pb_message_response =
  pmr_message :: string
  pmr_key :: string

record pb_check_response =
  pcr_allowed :: bool
  pcr_remaining :: int64
  pcr_reset_at :: int64
  pcr_retry_after :: int32

record pb_status_response =
  pst_key :: string
  pst_algorithm :: string
  pst_config :: pb_rate_limit_config
  pst_created_at :: int64
  pst_updated_at :: int64
  pst_next_reset :: int64

section \<open>The rate-limit service\<close>

definition grpc_set ::
    "'s rate_limit_service \<Rightarrow> pb_set_request \<Rightarrow> 's world \<Rightarrow>
     (go_error + pb_message_response) outcome \<times> 's world" where
  "grpc_set s req w = (case proto_config_to_service (psr_config req) of
      Panics p \<Rightarrow> (Panics p, w)
    | Returns config \<Rightarrow> (case set_config s (psr_key req) config w of
          (Some err, w) \<Rightarrow> (Returns (Inl err), w)
        | (None, w) \<Rightarrow> (Returns (Inr
            \<lparr>pmr_message = ''rate limit configured'', pmr_key = psr_key req\<rparr>), w)))"

definition grpc_check ::
    "'s rate_limit_service \<Rightarrow> string \<Rightarrow> 's world \<Rightarrow>
     (go_error + pb_check_response) outcome \<times> 's rate_limit_service \<times> 's world" where
  "grpc_check s key w = (case check_limit s key w of
      (Panics p, s, w) \<Rightarrow> (Panics p, s, w)
    | (Returns (Inl err), s, w) \<Rightarrow> (Returns (Inl err), s, w)
    | (Returns (Inr r), s, w) \<Rightarrow> (Returns (Inr
        \<lparr>pcr_allowed = clr_allowed r, pcr_remaining = clr_remaining r, pcr_reset_at = clr_reset_at r,
         pcr_retry_after = ucast (clr_retry_after r)\<rparr>), s, w))"

definition grpc_status ::
    "'s rate_limit_service \<Rightarrow> string \<Rightarrow> 's world \<Rightarrow> (go_error + pb_status_response) outcome \<times> 's world" where
  "grpc_status s key w = (case get_status s key w of
      (Panics p, w) \<Rightarrow> (Panics p, w)
    | (Returns (Inl err), w) \<Rightarrow> (Returns (Inl err), w)
    | (Returns (Inr r), w) \<Rightarrow> (Returns (Inr
        \<lparr>pst_key = key, pst_algorithm = cfg_algorithm (gsr_config r),
         pst_config = service_config_to_proto (gsr_config r), pst_created_at = gsr_created_at r,
         pst_updated_at = gsr_updated_at r, pst_next_reset = gsr_next_reset r\<rparr>), w))"

definition grpc_reset ::
    "'s rate_limit_service \<Rightarrow> string \<Rightarrow> 's world \<Rightarrow>
     (go_error + pb_message_response) outcome \<times> 's rate_limit_service \<times> 's world" where
  "grpc_reset s key w = (case reset_limit s key w of
      (Panics p, s, w) \<Rightarrow> (Panics p, s, w)
    | (Returns (Some err), s, w) \<Rightarrow> (Returns (Inl err), s, w)
    | (Returns None, s, w) \<Rightarrow> (Returns (Inr \<lparr>pmr_message = ''rate limit reset'', pmr_key = key\<rparr>), s, w))"

section \<open>The health service\<close>

datatype serving_status = UNKNOWN | SERVING | NOT_SERVING | SERVICE_UNKNOWN

definition current_status :: "'s health_service \<Rightarrow> 's world \<Rightarrow> serving_status \<times> 's world" where
  "current_status hs w = (case health_ping hs w of
      (Some err, w) \<Rightarrow> (NOT_SERVING, w)
    | (None, w) \<Rightarrow> (SERVING, w))"

definition health_grpc_check :: "'s health_service \<Rightarrow> 's world \<Rightarrow> (go_error + serving_status) \<times> 's world" where
  "health_grpc_check hs w = (case current_status hs w of (status, w) \<Rightarrow> (Inr status, w))"

text \<open>
  \<open>Watch\<close> waits for the end of its context or the next tick; a run is given by these events,
  each with what happened to the world before it. \<open>send n\<close> is what \<open>stream.Send\<close> returns when \<open>n\<close>
  statuses have been sent. The result is the statuses sent and the error it returned, \<open>None\<close>
  while it still waits.
\<close>

datatype 's watch_event =
    CtxDone "'s world \<Rightarrow> 's world" go_error
  | Tick "'s world \<Rightarrow> 's world"

fun watch_loop ::
    "'s health_service \<Rightarrow> (nat \<Rightarrow> go_error option) \<Rightarrow> serving_status \<Rightarrow> nat \<Rightarrow> 's watch_event list \<Rightarrow>
     's world \<Rightarrow> (serving_status list \<times> go_error option) \<times> 's world" where
  "watch_loop hs send status n [] w = (([], None), w)"
| "watch_loop hs send status n (CtxDone g err # es) w = (([], Some err), g w)"
| "watch_loop hs send status n (Tick g # es) w = (case current_status hs (g w) of
      (nextStatus, w) \<Rightarrow>
        if nextStatus = status then watch_loop hs send status n es w
        else (case send n of
            Some err \<Rightarrow> (([], Some err), w)
          | None \<Rightarrow> (case watch_loop hs send nextStatus (n + 1) es w of
                ((sent, r), w) \<Rightarrow> ((nextStatus # sent, r), w))))"

definition health_watch ::
    "'s health_service \<Rightarrow> (nat \<Rightarrow> go_error option) \<Rightarrow> 's watch_event list \<Rightarrow> 's world \<Rightarrow>
     (serving_status list \<times> go_error option) \<times> 's world" where
  "health_watch hs send es w = (case current_status hs w of
      (status, w) \<Rightarrow> (case send 0 of
          Some err \<Rightarrow> (([], Some err), w)
        | None \<Rightarrow> (case watch_loop hs send status 1 es w of
              ((sent, r), w) \<Rightarrow> ((status # sent, r), w))))"

section \<open>The servers\<close>

record 's server_config =
  scf_address :: string
  scf_store :: "'s store_ops"
  scf_logger :: logger
  scf_read_timeout :: int64
  scf_write_timeout :: int64
  scf_idle_timeout :: int64

definition create_services :: "'s server_config \<Rightarrow> 's health_service \<times> 's rate_limit_service" where
  "create_services cfg = (new_health_service (scf_store cfg), new_rate_limit_service (scf_store cfg))"

record 's service_handlers =
  sh_health_check :: "'s health_check_handler"
  sh_rate_limit :: "'s rate_limit_handler"

definition create_service_handlers ::
    "'s server_config \<Rightarrow> 's health_service \<Rightarrow> 's rate_limit_service \<Rightarrow> 's service_handlers" where
  "create_service_handlers cfg healthService rateLimitService =
     \<lparr>sh_health_check = new_health_check_handler_with_logger healthService (scf_logger cfg),
      sh_rate_limit = new_rate_limit_handler rateLimitService\<rparr>"

text \<open>
  A service is one object that a server points to from several of its fields. The model keeps it
  where requests reach it: in the implementations registered with the gRPC server, and in the
  handlers of the HTTP server. The server's other pointers to it (\<open>healthService\<close>, \<open>rateLimitService\<close>
  and, for gRPC, \<open>handlers\<close>) are not used once the server has been made.
\<close>

record 's health_service_impl =
  hsi_health_service :: "'s health_service"

record 's rate_limit_service_impl =
  rsi_rate_limit_service :: "'s rate_limit_service"

record 's grpc_server =
  gs_address :: string
  gs_logger :: logger
  gs_health :: "'s health_service_impl option"
  gs_rate_limit :: "'s rate_limit_service_impl option"

definition register_services ::
    "'s health_service \<Rightarrow> 's rate_limit_service \<Rightarrow> 's grpc_server \<Rightarrow> 's grpc_server" where
  "register_services healthService rateLimitService gs =
     gs\<lparr>gs_health := Some \<lparr>hsi_health_service = healthService\<rparr>,
        gs_rate_limit := Some \<lparr>rsi_rate_limit_service = rateLimitService\<rparr>\<rparr>"

definition new_grpc_server :: "'s server_config \<Rightarrow> 's grpc_server" where
  "new_grpc_server cfg = (case create_services cfg of (healthService, rateLimitService) \<Rightarrow>
     (let grpcSrv = \<lparr>gs_address = scf_address cfg, gs_logger = scf_logger cfg, gs_health = None, gs_rate_limit = None\<rparr>
      in register_services healthService rateLimitService grpcSrv))"

definition grpc_addr :: "'s grpc_server \<Rightarrow> string" where
  "grpc_addr gs = gs_address gs"

text \<open>
  \<open>Stop\<close> returns when the graceful stop has ended or the context has: what it waits for first,
  and whether it cuts the connections.
\<close>

datatype stop_event = GracefullyStopped | ContextDone go_error

definition grpc_stop :: "stop_event \<Rightarrow> bool \<times> go_error option" where
  "grpc_stop e = (case e of GracefullyStopped \<Rightarrow> (False, None) | ContextDone err \<Rightarrow> (True, Some err))"

text \<open>\<open>Start\<close> fails where the address cannot be listened on.\<close>

definition grpc_start :: "(string \<Rightarrow> go_error option) \<Rightarrow> 's grpc_server \<Rightarrow> go_error option" where
  "grpc_start listen gs = listen (gs_address gs)"

datatype http_handler = HealthCheck | SetLimit | CheckLimit | LimitStatus | ResetLimit

text \<open>The routes: the path, the method and the handler.\<close>

definition http_routes :: "(string \<times> string \<times> http_handler) list" where
  "http_routes =
     [(''/health'', ''GET'', HealthCheck), (''/ratelimit/set'', ''POST'', SetLimit),
      (''/ratelimit/check'', ''POST'', CheckLimit), (''/ratelimit/status/{key}'', ''GET'', LimitStatus),
      (''/ratelimit/reset/{key}'', ''DELETE'', ResetLimit)]"

record 's http_server =
  hts_address :: string
  hts_logger :: logger
  hts_handlers :: "'s service_handlers"
  hts_routes :: "(string \<times> string \<times> http_handler) list"
  hts_read_timeout :: int64
  hts_write_timeout :: int64
  hts_idle_timeout :: int64

definition new_http_server :: "'s server_config \<Rightarrow> 's http_server" where
  "new_http_server cfg = (case create_services cfg of (healthService, rateLimitService) \<Rightarrow>
     \<lparr>hts_address = scf_address cfg, hts_logger = scf_logger cfg,
      hts_handlers = create_service_handlers cfg healthService rateLimitService, hts_routes = http_routes,
      hts_read_timeout = scf_read_timeout cfg * second, hts_write_timeout = scf_write_timeout cfg * second,
      hts_idle_timeout = scf_idle_timeout cfg * second\<rparr>)"

definition http_addr :: "'s http_server \<Rightarrow> string" where
  "http_addr hs = hts_address hs"

text \<open>
  \<open>Start\<close> listens in the background: it never fails, and an error of \<open>ListenAndServe\<close> (the second
  component) is only logged. \<open>Stop\<close> is the server's \<open>Shutdown\<close>, given by what it returns.
\<close>

definition http_start :: "(string \<Rightarrow> go_error option) \<Rightarrow> 's http_server \<Rightarrow> go_error option \<times> go_error option" where
  "http_start listen hs = (None, listen (hts_address hs))"

definition http_stop :: "go_error option \<Rightarrow> go_error option" where
  "http_stop shutdown = shutdown"

text \<open>What a matched route does with the key of its path and the body of the request.\<close>

definition http_service :: "'s http_server \<Rightarrow> 's rate_limit_service" where
  "http_service hs = rlh_service (sh_rate_limit (hts_handlers hs))"

definition set_http_service :: "'s rate_limit_service \<Rightarrow> 's http_server \<Rightarrow> 's http_server" where
  "set_http_service s hs = hs\<lparr>hts_handlers := (hts_handlers hs)\<lparr>sh_rate_limit := \<lparr>rlh_service = s\<rparr>\<rparr>\<rparr>"

definition serve_http ::
    "(json_error \<Rightarrow> string) \<Rightarrow> (gotime \<Rightarrow> string) \<Rightarrow> http_handler \<Rightarrow> string \<Rightarrow> string \<Rightarrow>
     's http_server \<Rightarrow> 's world \<Rightarrow> http_response outcome \<times> 's http_server \<times> 's world" where
  "serve_http jt tf h key body hs w =
     (let s = http_service hs in
      case h of
        HealthCheck \<Rightarrow> (case health_check jt tf (sh_health_check (hts_handlers hs)) w of (r, w) \<Rightarrow> (Returns r, hs, w))
      | SetLimit \<Rightarrow> (case handle_set s body w of (r, w) \<Rightarrow> (Returns r, hs, w))
      | CheckLimit \<Rightarrow> (case handle_check jt s body w of (r, s, w) \<Rightarrow> (r, set_http_service s hs, w))
      | LimitStatus \<Rightarrow> (case handle_status jt s key w of (r, w) \<Rightarrow> (r, hs, w))
      | ResetLimit \<Rightarrow> (case handle_reset jt s key w of (r, s, w) \<Rightarrow> (r, set_http_service s hs, w)))"

section \<open>Calls of the gRPC server\<close>

text \<open>
  The unary methods of the two services with their messages. A call of a service that is not
  registered does not reach the program: grpc answers it.
\<close>

datatype grpc_call =
    HealthCall
  | SetCall pb_set_request
  | CheckCall string
  | StatusCall string
  | ResetCall string

datatype grpc_message =
    HealthMsg serving_status
  | CheckMsg pb_check_response
  | StatusMsg pb_status_response
  | TextMsg pb_message_response

definition unimplemented :: go_error where
  "unimplemented = ErrExternal ''unknown service''"

fun serve_grpc ::
    "grpc_call \<Rightarrow> 's grpc_server \<Rightarrow> 's world \<Rightarrow> (go_error + grpc_message) outcome \<times> 's grpc_server \<times> 's world" where
  "serve_grpc HealthCall gs w = (case gs_health gs of
      None \<Rightarrow> (Returns (Inl unimplemented), gs, w)
    | Some h \<Rightarrow> (case health_grpc_check (hsi_health_service h) w of
          (r, w) \<Rightarrow> (Returns (map_sum id HealthMsg r), gs, w)))"
| "serve_grpc (SetCall m) gs w = (case gs_rate_limit gs of
      None \<Rightarrow> (Returns (Inl unimplemented), gs, w)
    | Some r \<Rightarrow> (case grpc_set (rsi_rate_limit_service r) m w of
          (x, w) \<Rightarrow> (map_outcome (map_sum id TextMsg) x, gs, w)))"
| "serve_grpc (CheckCall key) gs w = (case gs_rate_limit gs of
      None \<Rightarrow> (Returns (Inl unimplemented), gs, w)
    | Some r \<Rightarrow> (case grpc_check (rsi_rate_limit_service r) key w of
          (x, s, w) \<Rightarrow> (map_outcome (map_sum id CheckMsg) x, gs\<lparr>gs_rate_limit := Some \<lparr>rsi_rate_limit_service = s\<rparr>\<rparr>, w)))"
| "serve_grpc (StatusCall key) gs w = (case gs_rate_limit gs of
      None \<Rightarrow> (Returns (Inl unimplemented), gs, w)
    | Some r \<Rightarrow> (case grpc_status (rsi_rate_limit_service r) key w of
          (x, w) \<Rightarrow> (map_outcome (map_sum id StatusMsg) x, gs, w)))"
| "serve_grpc (ResetCall key) gs w = (case gs_rate_limit gs of
      None \<Rightarrow> (Returns (Inl unimplemented), gs, w)
    | Some r \<Rightarrow> (case grpc_reset (rsi_rate_limit_service r) key w of
          (x, s, w) \<Rightarrow> (map_outcome (map_sum id TextMsg) x, gs\<lparr>gs_rate_limit := Some \<lparr>rsi_rate_limit_service = s\<rparr>\<rparr>, w)))"

section \<open>The interface of the servers\<close>

text \<open>
  \<open>transport.Server\<close>: a value of the interface is one of the two servers. \<open>Start\<close> is given what
  listening on an address returns, \<open>Stop\<close> what \<open>Shutdown\<close> returns and what a graceful stop waits for.
\<close>

datatype 's server = HTTPServer "'s http_server" | GRPCServer "'s grpc_server"

fun server_start :: "(string \<Rightarrow> go_error option) \<Rightarrow> 's server \<Rightarrow> go_error option" where
  "server_start listen (HTTPServer hs) = fst (http_start listen hs)"
| "server_start listen (GRPCServer gs) = grpc_start listen gs"

fun server_stop :: "go_error option \<Rightarrow> stop_event \<Rightarrow> 's server \<Rightarrow> go_error option" where
  "server_stop shutdown e (HTTPServer hs) = http_stop shutdown"
| "server_stop shutdown e (GRPCServer gs) = snd (grpc_stop e)"

fun server_addr :: "'s server \<Rightarrow> string" where
  "server_addr (HTTPServer hs) = http_addr hs"
| "server_addr (GRPCServer gs) = grpc_addr gs"

end
