(* ===== verification/Startup.thy ===== *)
theory Startup
  imports AppConfig Transport ServiceNumbers
begin

text \<open>
  The program, \<open>cmd/server/main.go\<close>, from its start to its exit: what it writes to its log, which
  servers it makes and starts, and what it does once a signal has arrived. The libraries are
  the parameters of \<open>main_env\<close>; what the servers do in between is one too.
\<close>

section \<open>The events of a run\<close>

text \<open>
  A log entry has its level, its message and the error it carries; \<open>Stdlog\<close> is the log of the
  standard library, \<open>Stderr\<close> a line on the standard error.
\<close>

datatype log_level = InfoLevel | ErrorLevel | FatalLevel

datatype main_event =
    Logged log_level string "go_error option"
  | Stdlog string go_error
  | Stderr string go_error
  | ShutDownHTTP
  | StoppedGRPC bool
  | ClosedStore
  | SyncedLogger

text \<open>
  What the program is given: whether there is a file \<open>.env\<close> and what \<open>godotenv.Load\<close> does, the two
  calls of the zap library, \<open>redis.NewClient\<close>, what listening on an address returns, and how the
  two servers take to being stopped.
\<close>

record 's main_env =
  me_dotenv :: bool
  me_load :: "environment \<Rightarrow> go_error option \<times> environment"
  me_level :: "string \<Rightarrow> go_error + 8 word"
  me_build :: "zap_config \<Rightarrow> go_error option"
  me_dial :: "redis_options \<Rightarrow> 's redis_client"
  me_listen :: "string \<Rightarrow> go_error option"
  me_shutdown :: "go_error option"
  me_graceful :: stop_event

definition duration_seconds :: "int64 \<Rightarrow> int64" where
  "duration_seconds d = f64_to_i64 (dur_seconds d)"

section \<open>The start\<close>

text \<open>
  Up to the wait for a signal. \<open>Inl\<close> is an exit with status 1: \<open>os.Exit\<close>, or \<open>logger.Fatal\<close>, which
  does not run what was deferred.
\<close>

definition log_info :: "string \<Rightarrow> main_event" where
  "log_info m = Logged InfoLevel m None"

definition log_error :: "string \<Rightarrow> go_error \<Rightarrow> main_event" where
  "log_error m e = Logged ErrorLevel m (Some e)"

definition log_fatal :: "string \<Rightarrow> go_error \<Rightarrow> main_event" where
  "log_fatal m e = Logged FatalLevel m (Some e)"

text \<open>
  What the \<open>Start\<close> methods log: the error of \<open>ListenAndServe\<close> is logged by a goroutine, at some time
  after the start.
\<close>

definition http_start_log :: "(string \<Rightarrow> go_error option) \<Rightarrow> 's http_server \<Rightarrow> main_event list" where
  "http_start_log listen hs = log_info ''Starting HTTP server'' #
     (case snd (http_start listen hs) of None \<Rightarrow> [] | Some err \<Rightarrow> [log_error ''HTTP server error'' err])"

definition grpc_start_log :: "(string \<Rightarrow> go_error option) \<Rightarrow> 's grpc_server \<Rightarrow> main_event list" where
  "grpc_start_log listen gs = (case grpc_start listen gs of
      Some err \<Rightarrow> [log_error ''Failed to listen on address'' err]
    | None \<Rightarrow> [log_info ''Starting gRPC server''])"

text \<open>The configurations the two servers are made from.\<close>

definition http_config :: "app_config \<Rightarrow> 's store_ops \<Rightarrow> logger \<Rightarrow> 's server_config" where
  "http_config cfg store logger =
     \<lparr>scf_address = http_server_addr cfg, scf_store = store, scf_logger = logger,
      scf_read_timeout = duration_seconds (hsc_read_timeout (ac_http_server cfg)),
      scf_write_timeout = duration_seconds (hsc_write_timeout (ac_http_server cfg)),
      scf_idle_timeout = duration_seconds (hsc_idle_timeout (ac_http_server cfg))\<rparr>"

definition grpc_config :: "app_config \<Rightarrow> 's store_ops \<Rightarrow> logger \<Rightarrow> 's server_config" where
  "grpc_config cfg store logger =
     \<lparr>scf_address = grpc_server_addr cfg, scf_store = store, scf_logger = logger,
      scf_read_timeout = 0, scf_write_timeout = 0, scf_idle_timeout = 0\<rparr>"

definition start_servers ::
    "'s main_env \<Rightarrow> environment \<Rightarrow> 's world \<Rightarrow>
     main_event list \<times> (unit + 's redis_client \<times> 's http_server \<times> 's grpc_server) \<times> 's world" where
  "start_servers m env w =
     (let cfg = load_config env in
      case init_logger (me_level m) (me_build m) (lgc_level (ac_log cfg)) (lgc_format (ac_log cfg)) of
        Inl err \<Rightarrow> ([Stderr ''Failed to initialize logger'' err], Inl (), w)
      | Inr logger \<Rightarrow>
          (let started = [log_info ''Starting distributed rate limiter servers''] in
           case new_redis_store (me_dial m) (redis_addr cfg) (rdc_password (ac_redis cfg)) (rdc_db (ac_redis cfg)) w of
             (Inl err, w) \<Rightarrow> (started @ [log_fatal ''Failed to initialize Redis store'' err], Inl (), w)
           | (Inr client, w) \<Rightarrow>
               (let store = redis_ops client;
                    httpSrv = new_http_server (http_config cfg store logger);
                    grpcSrv = new_grpc_server (grpc_config cfg store logger);
                    entries = started @ [log_info ''Connected to Redis''] @ http_start_log (me_listen m) httpSrv
                in case server_start (me_listen m) (HTTPServer httpSrv) of
                     Some err \<Rightarrow> (entries @ [log_fatal ''Failed to start HTTP server'' err], Inl (), w)
                   | None \<Rightarrow> (let entries = entries @ grpc_start_log (me_listen m) grpcSrv
                       in case server_start (me_listen m) (GRPCServer grpcSrv) of
                            Some err \<Rightarrow> (entries @ [log_fatal ''Failed to start gRPC server'' err], Inl (), w)
                          | None \<Rightarrow> (entries, Inr (client, httpSrv, grpcSrv), w)))))"

section \<open>The end\<close>

text \<open>After the signal: both servers are stopped, one after the other, and errors are logged.\<close>

definition stop_servers :: "'s main_env \<Rightarrow> 's http_server \<Rightarrow> 's grpc_server \<Rightarrow> main_event list" where
  "stop_servers m httpSrv grpcSrv =
     [log_info ''Shutting down servers...'', log_info ''Stopping HTTP server'', ShutDownHTTP] @
     (case server_stop (me_shutdown m) (me_graceful m) (HTTPServer httpSrv) of
        None \<Rightarrow> [] | Some err \<Rightarrow> [log_error ''HTTP server forced to shutdown'' err]) @
     [log_info ''Stopping gRPC server'', StoppedGRPC (fst (grpc_stop (me_graceful m)))] @
     (case server_stop (me_shutdown m) (me_graceful m) (GRPCServer grpcSrv) of
        None \<Rightarrow> [] | Some err \<Rightarrow> [log_error ''gRPC server forced to shutdown'' err]) @
     [log_info ''Servers stopped'']"

text \<open>
  \<open>main\<close>: the events, the exit status, and the world it leaves. \<open>serving\<close> is what happens between the
  start of the servers and the signal. On a return the deferred calls run, the last one first;
  the error of \<open>store.Close()\<close> is dropped.
\<close>

definition run_main ::
    "'s main_env \<Rightarrow> ('s http_server \<times> 's grpc_server \<times> 's world \<Rightarrow> 's http_server \<times> 's grpc_server \<times> 's world) \<Rightarrow>
     environment \<Rightarrow> 's world \<Rightarrow> main_event list \<times> int \<times> 's world" where
  "run_main m serving env w =
     (let (warning, env) = load_dot_env (me_dotenv m) (me_load m) env;
          warned = (case warning of None \<Rightarrow> [] | Some err \<Rightarrow> [Stdlog ''warning: could not load .env'' err])
      in case start_servers m env w of
           (entries, Inl u, w) \<Rightarrow> (warned @ entries, 1, w)
         | (entries, Inr (client, httpSrv, grpcSrv), w) \<Rightarrow>
             (case serving (httpSrv, grpcSrv, w) of (httpSrv, grpcSrv, w) \<Rightarrow>
                (let w = snd (rs_close client w)
                 in (warned @ entries @ stop_servers m httpSrv grpcSrv @ [ClosedStore, SyncedLogger], 0, w))))"

section \<open>Timeouts\<close>

text \<open>The seconds of a duration as \<open>main\<close> takes them: nothing is left of less than a second.\<close>

lemma rnd_below_1: "rnd (999999999 / 1000000000) < 1"
proof -
  have e: "(1 :: rat) - 1 / 2 ^ 53 = of_int (2 ^ 53 - 1) * 2 powi (- 53)"
    by (simp add: power_int_def power_divide)
  have "rnd (of_int (2 ^ 53 - 1) * 2 powi (- 53)) = round_pos (of_int (2 ^ 53 - 1) * 2 powi (- 53))"
    by (simp add: rnd_def)
  also have "\<dots> = of_int (2 ^ 53 - 1) * 2 powi (- 53)" by (rule round_pos_exact) simp_all
  finally have r: "rnd (1 - 1 / 2 ^ 53) = (1 - 1 / 2 ^ 53 :: rat)" unfolding e .
  have "rnd (999999999 / 1000000000) \<le> rnd (1 - 1 / 2 ^ 53)" by (rule rnd_mono) simp
  also have "\<dots> < 1" unfolding r by simp
  finally show ?thesis .
qed

lemma secs_below_1: "0 \<le> n \<Longrightarrow> n < 1000000000 \<Longrightarrow> secs n < 1"
proof -
  assume n: "0 \<le> n" "n < 1000000000"
  then have "secs n \<le> secs 999999999" by (intro secs_mono) simp
  also have "\<dots> < 1" using rnd_below_1 by (simp add: secs_def)
  finally show "secs n < 1" .
qed

lemma duration_seconds_times:
  assumes "0 \<le> sint t"
  shows "sint t < 1000000000 \<Longrightarrow> duration_seconds t * second = 0"
    and "sint t mod 1000000000 = 0 \<Longrightarrow> duration_seconds t * second = t"
proof -
  have u: "sint t < 9223372036854775808" using sint_upper [of t] by simp
  have d: "sint (duration_seconds t) = \<lfloor>secs (sint t)\<rfloor>"
    using assms u by (simp add: duration_seconds_def dur_seconds_fl sint_f64_secs)
  show "duration_seconds t * second = 0" if "sint t < 1000000000"
  proof -
    have "\<lfloor>secs (sint t)\<rfloor> = 0" using secs_below_1 [OF assms that] secs_nonneg [of "sint t"] by (simp add: floor_eq_iff)
    then have "duration_seconds t = 0" using d by (simp add: sint_inject_i64 [symmetric])
    then show ?thesis by simp
  qed
  show "duration_seconds t * second = t" if m: "sint t mod 1000000000 = 0"
  proof -
    define k where "k = sint t div 1000000000"
    have t: "sint t = k * 1000000000"
      using m minus_mod_eq_div_mult [of "sint t" 1000000000] by (simp only: k_def diff_zero)
    have "- (- sint t div 1000000000) = k" unfolding t by (simp only: minus_mult_left nonzero_mult_div_cancel_right)
    moreover have "sint t div 1000000000 = k" by (simp only: k_def)
    ultimately have s: "sint (duration_seconds t) = k"
      using secs_floor [OF assms u] d by linarith
    then have "sint (duration_seconds t * second) = sint t"
      using t sint_in_i64 [of t] by (simp add: sint_mult_i64)
    then show ?thesis by (simp add: sint_inject_i64)
  qed
qed


section \<open>Properties\<close>

lemma services_of_servers [simp]:
  "http_service (new_http_server cfg) = new_rate_limit_service (scf_store cfg)"
  "gs_rate_limit (new_grpc_server cfg) = Some \<lparr>rsi_rate_limit_service = new_rate_limit_service (scf_store cfg)\<rparr>"
  "hts_address (new_http_server cfg) = scf_address cfg" "gs_address (new_grpc_server cfg) = scf_address cfg"
  by (simp_all add: new_http_server_def new_grpc_server_def http_service_def create_services_def
      create_service_handlers_def new_rate_limit_handler_def register_services_def Let_def)

lemma http_start_ok [simp]: "fst (http_start listen hs) = None"
  by (simp add: http_start_def)

lemma start_servers_Inr:
  assumes "start_servers m env w = (entries, Inr (client, http, grpc), w')"
  obtains logger where
    "init_logger (me_level m) (me_build m) (lgc_level (ac_log (load_config env))) (lgc_format (ac_log (load_config env))) = Inr logger"
    and "new_redis_store (me_dial m) (redis_addr (load_config env)) (rdc_password (ac_redis (load_config env)))
      (rdc_db (ac_redis (load_config env))) w = (Inr client, w')"
    and "http = new_http_server (http_config (load_config env) (redis_ops client) logger)"
    and "grpc = new_grpc_server (grpc_config (load_config env) (redis_ops client) logger)"
    and "me_listen m (grpc_server_addr (load_config env)) = None"
  using assms
  by (auto simp: start_servers_def Let_def grpc_start_def grpc_config_def split: sum.splits prod.splits option.splits)

text \<open>
  C36: When the program starts, the HTTP server and the gRPC server have the configured addresses and
  each a rate limit service that has cached no limiter yet, on the one Redis client; and of the read,
  the write and the idle timeout of the HTTP server each is the configured one if that is in whole
  seconds, but none at all (0) if it is less than a second.
\<close>

theorem servers_start:
  assumes "start_servers m env w = (entries, Inr (client, http, grpc), w')"
    and "cfg = ac_http_server (load_config env)"
  shows "hts_address http = http_server_addr (load_config env) \<and> gs_address grpc = grpc_server_addr (load_config env) \<and>
    http_service http = new_rate_limit_service (redis_ops client) \<and>
    gs_rate_limit grpc = Some \<lparr>rsi_rate_limit_service = new_rate_limit_service (redis_ops client)\<rparr> \<and>
    (\<forall>(t, u) \<in> {(hsc_read_timeout cfg, hts_read_timeout http), (hsc_write_timeout cfg, hts_write_timeout http),
        (hsc_idle_timeout cfg, hts_idle_timeout http)}.
      (0 \<le> sint t \<and> sint t < 1000000000 \<longrightarrow> u = 0) \<and> (0 \<le> sint t \<and> sint t mod 1000000000 = 0 \<longrightarrow> u = t))"
proof -
  obtain logger where "http = new_http_server (http_config (load_config env) (redis_ops client) logger)"
    "grpc = new_grpc_server (grpc_config (load_config env) (redis_ops client) logger)"
    by (rule start_servers_Inr [OF assms(1)])
  then show ?thesis
    using duration_seconds_times assms(2)
    by (simp add: http_config_def grpc_config_def) (simp add: new_http_server_def create_services_def)
qed

text \<open>
  C37: The exit status is 0 if the logger can be made, Redis answers and the gRPC address can be
  listened on, and 1 if not; whether the HTTP server can listen does not matter.
\<close>

theorem main_status:
  assumes "run_main m serving env w = (es, status, w')"
    and "cfg = load_config (snd (load_dot_env (me_dotenv m) (me_load m) env))"
  shows "status = (if (\<exists>l. init_logger (me_level m) (me_build m) (lgc_level (ac_log cfg)) (lgc_format (ac_log cfg)) = Inr l) \<and>
      (\<exists>c. fst (new_redis_store (me_dial m) (redis_addr cfg) (rdc_password (ac_redis cfg)) (rdc_db (ac_redis cfg)) w) = Inr c) \<and>
      me_listen m (grpc_server_addr cfg) = None then 0 else 1)"
  using assms
  by (auto simp: run_main_def start_servers_def Let_def grpc_start_def grpc_config_def
      split: prod.splits sum.splits option.splits)

text \<open>What a run does to its servers, its store and its logger, without what it writes.\<close>

fun is_action :: "main_event \<Rightarrow> bool" where
  "is_action (Logged l m e) = False"
| "is_action (Stdlog m e) = False"
| "is_action (Stderr m e) = False"
| "is_action _ = True"

text \<open>The last words of a run that fails.\<close>

fun is_fatal :: "main_event \<Rightarrow> bool" where
  "is_fatal (Logged l m e) \<longleftrightarrow> l = FatalLevel \<and> e \<noteq> None"
| "is_fatal (Stderr m e) \<longleftrightarrow> True"
| "is_fatal _ \<longleftrightarrow> False"

lemma start_log_actions [simp]:
  "filter is_action (http_start_log listen hs) = []" "filter is_action (grpc_start_log listen gs) = []"
  by (simp_all add: http_start_log_def grpc_start_log_def log_info_def log_error_def split: option.split)

lemma start_actions:
  "start_servers m env w = (entries, r, w') \<Longrightarrow> filter is_action entries = []"
  by (auto simp: start_servers_def Let_def log_info_def log_error_def log_fatal_def
      split: sum.splits prod.splits option.splits)

lemma start_failed:
  "start_servers m env w = (entries, Inl u, w') \<Longrightarrow>
   entries \<noteq> [] \<and> is_fatal (last entries)"
  by (auto simp: start_servers_def Let_def log_fatal_def split: sum.splits prod.splits option.splits)

lemma stop_actions:
  "filter is_action (stop_servers m http grpc) = [ShutDownHTTP, StoppedGRPC (me_graceful m \<noteq> GracefullyStopped)]"
  by (cases "me_graceful m")
    (simp_all add: stop_servers_def log_info_def log_error_def grpc_stop_def split: option.split)

text \<open>
  C38: After a signal both servers are stopped, the HTTP server first, then the store is closed and
  the logger flushed, whatever errors the stops return, and an error of a stop is logged; the
  gRPC server is cut off only if the context ended first. A run that fails before it serves
  does none of this, and the last thing it writes is the error.
\<close>

theorem main_shutdown:
  assumes "run_main m serving env w = (es, status, w')"
  shows "if status = 0
    then filter is_action es =
        [ShutDownHTTP, StoppedGRPC (me_graceful m \<noteq> GracefullyStopped), ClosedStore, SyncedLogger] \<and>
      (\<forall>e. me_shutdown m = Some e \<longrightarrow> log_error ''HTTP server forced to shutdown'' e \<in> set es) \<and>
      (\<forall>e. me_graceful m = ContextDone e \<longrightarrow> log_error ''gRPC server forced to shutdown'' e \<in> set es)
    else filter is_action es = [] \<and> is_fatal (last es)"
proof -
  obtain warning env' where env: "load_dot_env (me_dotenv m) (me_load m) env = (warning, env')" by fastforce
  obtain entries r w1 where start: "start_servers m env' w = (entries, r, w1)" using prod_cases3 by blast
  have warned: "filter is_action (case warning of None \<Rightarrow> [] | Some err \<Rightarrow> [Stdlog x err]) = []" for x
    by (simp split: option.split)
  show ?thesis
  proof (cases r)
    case (Inl u)
    then show ?thesis
      using assms start_failed [of m env' w entries u w1] start start_actions [OF start] warned
      by (auto simp: run_main_def env)
  next
    case (Inr s)
    obtain client http grpc where s: "s = (client, http, grpc)" using prod_cases3 by blast
    obtain http' grpc' w2 where sv: "serving (http, grpc, w1) = (http', grpc', w2)" using prod_cases3 by blast
    have es: "es = (case warning of None \<Rightarrow> [] | Some err \<Rightarrow> [Stdlog ''warning: could not load .env'' err]) @ entries @
        stop_servers m http' grpc' @ [ClosedStore, SyncedLogger]" "status = 0"
      using assms by (simp_all add: run_main_def env start Inr s sv Let_def)
    have "me_shutdown m = Some e \<Longrightarrow> log_error ''HTTP server forced to shutdown'' e \<in> set (stop_servers m http' grpc')"
      "me_graceful m = ContextDone e \<Longrightarrow> log_error ''gRPC server forced to shutdown'' e \<in> set (stop_servers m http' grpc')" for e
      by (simp_all add: stop_servers_def http_stop_def grpc_stop_def)
    then show ?thesis using start_actions [OF start] warned stop_actions es by simp
  qed
qed

section \<open>Witnesses\<close>

text \<open>
  A run with a \<open>.env\<close> file that cannot be read, in which nothing can listen on the HTTP address and
  the shutdown of the HTTP server times out: it serves over gRPC, and exits with status 0.
\<close>

definition demo_env :: environment where
  "demo_env = [''APP_HTTP_READ_TIMEOUT'' \<mapsto> show_nat 500 @ ''ms'']"

definition demo_main :: "redis_map main_env" where
  "demo_main = \<lparr>me_dotenv = True, me_load = \<lambda>env. (Some (ErrExternal ''unexpected character''), env),
     me_level = \<lambda>l. Inr (- 1), me_build = \<lambda>c. None, me_dial = \<lambda>opts. map_client,
     me_listen = \<lambda>a. if a = ''0.0.0.0:3000'' then Some (ErrExternal ''address already in use'') else None,
     me_shutdown = Some (ErrExternal ''context deadline exceeded''), me_graceful = GracefullyStopped\<rparr>"

lemma demo_start:
  obtains entries http grpc w' where "start_servers demo_main demo_env demo_world = (entries, Inr (map_client, http, grpc), w')"
proof -
  have addr: "grpc_server_addr (load_config demo_env) = ''0.0.0.0:50051''" by code_simp
  show thesis
    by (rule that) (simp add: start_servers_def Let_def demo_main_def init_logger_def new_redis_store_def map_client_def
        grpc_start_def grpc_config_def addr)
qed

text \<open>A read timeout of half a second is none.\<close>

theorem servers_start_witness:
  "\<exists>entries client http grpc w'. start_servers demo_main demo_env demo_world = (entries, Inr (client, http, grpc), w') \<and>
    hts_read_timeout http = 0"
proof -
  have "parse_duration (show_nat 500 @ ''ms'') = Some 500000000"
    using parse_duration_whole [of 500 "''ms''" 1000000] by (simp add: unit_map_def)
  then have "get_env_as_duration demo_env ''APP_HTTP_READ_TIMEOUT'' (10 * second) = 500000000"
    by (simp add: get_env_as_duration_def demo_env_def)
  then have t: "sint (hsc_read_timeout (ac_http_server (load_config demo_env))) = 500000000"
    by (simp add: load_config_def)
  obtain entries http grpc w' where s: "start_servers demo_main demo_env demo_world = (entries, Inr (map_client, http, grpc), w')"
    by (rule demo_start)
  from servers_start [OF s refl] t s show ?thesis by auto
qed

lemma demo_run:
  obtains es w' where "run_main demo_main id demo_env demo_world = (es, 0, w')"
proof -
  obtain entries http grpc w' where s: "start_servers demo_main demo_env demo_world = (entries, Inr (map_client, http, grpc), w')"
    by (rule demo_start)
  have "load_dot_env (me_dotenv demo_main) (me_load demo_main) demo_env = (Some (ErrExternal ''unexpected character''), demo_env)"
    by (simp add: demo_main_def load_dot_env_def)
  then show thesis using that by (simp add: run_main_def s Let_def)
qed

theorem main_status_witness: "fst (snd (run_main demo_main id demo_env demo_world)) = 0"
proof -
  obtain es w' where r: "run_main demo_main id demo_env demo_world = (es, 0, w')" by (rule demo_run)
  from main_status [OF r refl] show ?thesis by (simp add: r split: if_splits)
qed

theorem main_shutdown_witness:
  "filter is_action (fst (run_main demo_main id demo_env demo_world)) =
    [ShutDownHTTP, StoppedGRPC False, ClosedStore, SyncedLogger]"
proof -
  obtain es w' where r: "run_main demo_main id demo_env demo_world = (es, 0, w')" by (rule demo_run)
  have "me_graceful demo_main = GracefullyStopped" by (simp add: demo_main_def)
  with main_shutdown [OF r] show ?thesis by (simp add: r)
qed

end
