(* ===== verification/Endpoints.thy ===== *)
theory Endpoints
  imports Transport ServiceRuns
begin

text \<open>
  What a client sees at the end points: which status and headers the HTTP handlers answer with,
  that the HTTP and the gRPC method of an operation agree, that a configuration survives the way
  through JSON, the store and the messages, and what the health watch sends.
\<close>

section \<open>Responses\<close>

lemma header_names [simp]:
  "canonical_from True ''Content-Type'' = ''Content-Type''"
  "canonical_from True ''X-RateLimit-Limit'' = ''X-Ratelimit-Limit''"
  "canonical_from True ''X-RateLimit-Remaining'' = ''X-Ratelimit-Remaining''"
  "canonical_from True ''X-RateLimit-Reset'' = ''X-Ratelimit-Reset''"
  "canonical_from True ''X-RateLimit-Retry-After'' = ''X-Ratelimit-Retry-After''"
  by code_simp+

declare canonical_from.simps [simp del]

lemmas response_defs = new_response_def header_set_def write_header_def encode_def Let_def
  status_ok_def status_created_def status_bad_request_def status_not_found_def
  status_too_many_requests_def status_internal_server_error_def status_service_unavailable_def

lemma write_error_status [simp]: "hr_status (write_error code m new_response) = Some code"
  and write_error_header [simp]: "hr_header (write_error code m new_response) = [''Content-Type'' \<mapsto> ''application/json'']"
  and write_error_body: "hr_body (write_error code m new_response) = json_print (JObj [(''error'', JStr m)]) @ [CHR 0x0A]"
  by (simp_all add: write_error_def response_defs)

lemma write_check_status [simp]:
  "hr_status (write_check_response r) = Some (if clr_allowed r then 200 else 429)"
  by (simp add: write_check_response_def response_defs)

lemma write_check_header:
  "hr_header (write_check_response r) ''X-Ratelimit-Remaining'' = Some (format_int (clr_remaining r))"
  "hr_header (write_check_response r) ''X-Ratelimit-Reset'' = Some (format_int (clr_reset_at r))"
  "hr_header (write_check_response r) ''X-Ratelimit-Retry-After'' =
    (if clr_allowed r then None else Some (format_int (clr_retry_after r)))"
  by (simp_all add: write_check_response_def response_defs)

lemma write_check_body:
  "hr_body (write_check_response r) = json_print (check_response_json r) @ [CHR 0x0A]"
  by (simp add: write_check_response_def response_defs)

text \<open>The body of a request whose key is plain text, and of one with a configuration.\<close>

lemma json_decode_print:
  assumes "json_ok 0 (JObj ms)"
  shows "json_decode (json_print (JObj ms)) = Some (JObj ms)"
  using parse_print [OF assms, of "json_fuel (json_print (JObj ms))" "[]"]
  by (simp add: json_decode_def json_fuel_def stops_def del: json_print.simps)

lemma decode_stream_print:
  "json_ok 0 (JObj ms) \<Longrightarrow> dec (JObj ms) s = (s', True) \<Longrightarrow> decode_stream dec (json_print (JObj ms)) s = (s', None)"
  by (simp add: decode_stream_def json_decode_print del: json_print.simps)

definition check_body :: "string \<Rightarrow> string" where
  "check_body key = json_print (JObj [(''key'', JStr key)])"

definition set_body :: "string \<Rightarrow> rate_limit_config \<Rightarrow> string" where
  "set_body key cfg = json_print (JObj [(''key'', JStr key), (''config'', config_json cfg)])"

lemma decode_check_body:
  assumes "list_all plain key"
  shows "decode_stream check_request_decode (check_body key) z = (z\<lparr>cr_key := key\<rparr>, None)"
  unfolding check_body_def
  by (rule decode_stream_print)
    (use assms in \<open>simp_all add: max_depth_def plain_def check_request_decode_def find_field_def on_field_def\<close>)

lemma decode_set_body:
  assumes "list_all plain key" and "list_all plain (cfg_algorithm cfg)"
  shows "decode_stream set_request_decode (set_body key cfg) z = (\<lparr>sr_key = key, sr_config = cfg\<rparr>, None)"
  unfolding set_body_def
  by (rule decode_stream_print)
    (use assms in \<open>simp_all add: max_depth_def plain_def set_request_decode_def config_decode_def config_json_def
      find_field_def on_field_def\<close>)

section \<open>Statuses and agreement of the two transports\<close>

text \<open>What the handlers make of an answer of the service.\<close>

definition http_answer ::
    "(json_error \<Rightarrow> string) \<Rightarrow> (go_error + check_limit_response) outcome \<Rightarrow> http_response outcome" where
  "http_answer jt r = (case r of
      Panics p \<Rightarrow> Panics p
    | Returns (Inl e) \<Rightarrow> Returns (write_error (get_status_code_for_error e) (error_text jt e) new_response)
    | Returns (Inr resp) \<Rightarrow> Returns (write_check_response resp))"

definition grpc_answer :: "(go_error + check_limit_response) outcome \<Rightarrow> (go_error + pb_check_response) outcome" where
  "grpc_answer r = (case r of
      Panics p \<Rightarrow> Panics p
    | Returns (Inl e) \<Rightarrow> Returns (Inl e)
    | Returns (Inr c) \<Rightarrow> Returns (Inr \<lparr>pcr_allowed = clr_allowed c, pcr_remaining = clr_remaining c,
        pcr_reset_at = clr_reset_at c, pcr_retry_after = ucast (clr_retry_after c)\<rparr>))"

lemma handle_check_body:
  assumes "list_all plain key" and "key \<noteq> []"
  shows "handle_check jt s (check_body key) w = apfst (http_answer jt) (check_limit s key w)"
  using assms by (simp add: handle_check_def decode_check_body http_answer_def split_beta apfst_def
      map_prod_def split: outcome.split sum.split)

lemma grpc_check_answer: "grpc_check s key w = apfst grpc_answer (check_limit s key w)"
  by (simp add: grpc_check_def grpc_answer_def split_beta apfst_def map_prod_def split: outcome.split sum.split)

text \<open>
  C29: Whatever the body, a \<open>POST /ratelimit/check\<close> that does not panic is answered with 400 if it
  has no key or is not such an object, else with 404 if the key has no configuration, 500 on
  any other error, and 429 or 200 as the service refuses or allows; only a 429 has the header
  that says when to retry.
\<close>

theorem check_statuses:
  assumes "handle_check jt s body w = (Returns h, s', w')"
    and "decode_stream check_request_decode body \<lparr>cr_key = [], cr_algorithm = []\<rparr> = (req, err)"
  shows "hr_status h = Some (if err \<noteq> None \<or> cr_key req = [] then 400
      else case fst (check_limit s (cr_key req) w) of
          Returns (Inl e) \<Rightarrow> if is_not_found e then 404 else 500
        | Returns (Inr r) \<Rightarrow> if clr_allowed r then 200 else 429
        | Panics p \<Rightarrow> 0) \<and>
    (hr_header h ''X-Ratelimit-Retry-After'' \<noteq> None \<longleftrightarrow> hr_status h = Some 429)"
proof (cases "err \<noteq> None \<or> cr_key req = []")
  case True
  with assms show ?thesis
    by (auto simp: handle_check_def status_bad_request_def split: option.splits)
next
  case False
  obtain r s1 w1 where c: "check_limit s (cr_key req) w = (r, s1, w1)" using prod_cases3 by blast
  show ?thesis
  proof (cases r)
    case (Returns x)
    then show ?thesis
      using assms False c write_check_header(3)
      by (cases x) (auto simp: handle_check_def get_status_code_for_error_def status_not_found_def
          status_internal_server_error_def)
  qed (use assms False c in \<open>simp add: handle_check_def\<close>)
qed

text \<open>Nothing has been configured: 404.\<close>

lemma demo_not_found: "fst (check_limit demo_service key demo_world) = Returns (Inl ErrNotFound)"
proof -
  obtain n where "get_config demo_service key demo_world = (Inl ErrNotFound, skip n demo_world)"
    by (rule redis_map.get_config_absent [OF demo_world_simps(3) holds_now [OF demo_nothing]])
  then show ?thesis by (simp add: check_limit_def)
qed

lemma plain_u [simp]: "list_all plain ''u''"
  by (simp add: plain_def)

theorem check_statuses_witness:
  "\<exists>h. fst (handle_check (\<lambda>e. []) demo_service (check_body ''u'') demo_world) = Returns h \<and> hr_status h = Some 404"
proof -
  obtain r s' w' where c: "check_limit demo_service ''u'' demo_world = (r, s', w')" using prod_cases3 by blast
  then have r: "r = Returns (Inl ErrNotFound)" using demo_not_found [of "''u''"] by simp
  have "handle_check (\<lambda>e. []) demo_service (check_body ''u'') demo_world =
      (Returns (write_error 404 ''configuration not found'' new_response), s', w')"
    using handle_check_body [OF plain_u, of "\<lambda>e. []" demo_service demo_world]
    by (simp add: c r http_answer_def get_status_code_for_error_def status_not_found_def)
  with check_statuses [OF this decode_check_body [OF plain_u]] show ?thesis by (simp add: c r)
qed


text \<open>
  C28: For a key that is not empty and that JSON writes without an escape, the HTTP and the gRPC method
  of a check agree (for an empty key HTTP answers 400 and gRPC asks the service): on the same service
  and world both leave the same service and world behind, panic on the same calls, and a gRPC error is
  the HTTP status and message of that error; where gRPC answers, the HTTP status is 200 or 429 as it
  allows or refuses, the headers carry its \<open>remaining\<close> and \<open>reset_at\<close>, and a 429 carries a \<open>retry_after\<close>
  of which gRPC's is the lower 32 bits.
\<close>

theorem transports_agree:
  assumes "list_all plain key" and "key \<noteq> []"
    and "handle_check jt s (check_body key) w = (h, s1, w1)" and "grpc_check s key w = (g, s2, w2)"
  shows "s1 = s2 \<and> w1 = w2 \<and> (case g of
      Panics p \<Rightarrow> h = Panics p
    | Returns (Inl e) \<Rightarrow> h = Returns (write_error (get_status_code_for_error e) (error_text jt e) new_response)
    | Returns (Inr m) \<Rightarrow> (\<exists>r retry. h = Returns r \<and> hr_status r = Some (if pcr_allowed m then 200 else 429) \<and>
        hr_header r ''X-Ratelimit-Remaining'' = Some (format_int (pcr_remaining m)) \<and>
        hr_header r ''X-Ratelimit-Reset'' = Some (format_int (pcr_reset_at m)) \<and>
        hr_header r ''X-Ratelimit-Retry-After'' = (if pcr_allowed m then None else Some (format_int retry)) \<and>
        pcr_retry_after m = ucast retry))"
proof -
  obtain r s' w' where c: "check_limit s key w = (r, s', w')" using prod_cases3 by blast
  have "h = http_answer jt r" "s1 = s'" "w1 = w'" "g = grpc_answer r" "s2 = s'" "w2 = w'"
    using assms(3,4) handle_check_body [OF assms(1,2), of jt s w] by (simp_all add: grpc_check_answer c)
  then show ?thesis
    using write_check_header by (cases r) (auto simp: http_answer_def grpc_answer_def split: sum.split)
qed

theorem transports_agree_witness:
  "snd (handle_check (\<lambda>e. []) demo_service (check_body ''u'') demo_world) = snd (grpc_check demo_service ''u'' demo_world)"
proof -
  obtain h s1 w1 where h: "handle_check (\<lambda>e. []) demo_service (check_body ''u'') demo_world = (h, s1, w1)"
    using prod_cases3 by blast
  obtain g s2 w2 where g: "grpc_check demo_service ''u'' demo_world = (g, s2, w2)" using prod_cases3 by blast
  from transports_agree [OF plain_u _ h g] show ?thesis by (simp add: h g)
qed


section \<open>Configurations across the transports\<close>

definition int32_ok :: "int64 \<Rightarrow> bool" where
  "int32_ok x \<longleftrightarrow> - (2 ^ 31) \<le> sint x \<and> sint x < 2 ^ 31"

lemma sint_ucast32: "sint (ucast (x :: int64) :: int32) = signed_take_bit 31 (sint x)"
proof -
  have "sint x = signed_take_bit 63 (uint x)" by (simp add: sint_uint)
  moreover have "sint (ucast x :: int32) = signed_take_bit 31 (uint x)" by (simp add: signed_ucast_eq)
  ultimately show ?thesis by (simp add: signed_take_bit_signed_take_bit)
qed

lemma ucast_scast32 [simp]: "ucast (scast (x :: int32) :: int64) = x"
  by (rule bit_word_eqI) (auto simp: bit_simps)

lemma scast_ucast32: "(scast (ucast x :: int32) :: int64) = x \<longleftrightarrow> int32_ok x"
proof -
  have "sint (scast (ucast x :: int32) :: int64) = sint (ucast x :: int32)"
    using sint_greater_eq [of "ucast x :: int32"] sint_less [of "ucast x :: int32"]
    by (simp add: signed_scast_eq signed_take_bit_int_eq_self)
  then have "(scast (ucast x :: int32) :: int64) = x \<longleftrightarrow> signed_take_bit 31 (sint x) = sint x"
    by (simp add: sint_inject_i64 [symmetric] sint_ucast32)
  also have "\<dots> \<longleftrightarrow> int32_ok x" by (simp add: signed_take_bit_int_eq_self_iff int32_ok_def)
  finally show ?thesis .
qed

text \<open>
  C31: A configuration sent as a message arrives as it is, and one of the service is sent without
  loss if and only if its window and its refill fit in 32 bits; a missing message panics.
\<close>

theorem proto_config_roundtrip:
  "(\<exists>cfg. proto_config_to_service (Some pb) = Returns cfg \<and> service_config_to_proto cfg = pb) \<and>
   (proto_config_to_service (Some (service_config_to_proto cfg)) = Returns cfg \<longleftrightarrow>
     int32_ok (cfg_window_seconds cfg) \<and> int32_ok (cfg_refill_rate cfg) \<and> int32_ok (cfg_refill_interval cfg)) \<and>
   proto_config_to_service None = Panics NilDereference"
  by (cases cfg) (auto simp: proto_config_to_service_def service_config_to_proto_def scast_ucast32)

text \<open>
  C30: A well-formed configuration posted to \<open>/ratelimit/set\<close> as JSON is answered with 201, and the
  gRPC \<open>Status\<close> of any server on the same Redis then returns it, as a message, with the second of
  the post as its time; any other configuration is answered with 500.
\<close>

theorem posted_config_status:
  assumes "redis_serves c lookup alive" and "rls_store s = redis_ops c" and "rls_store s' = redis_ops c"
    and "list_all plain key" and "list_all plain (cfg_algorithm cfg)" and "steady (w_clock w)"
    and "quiet lookup (config_key key) g" and "quiet lookup (metadata_key key) g"
    and "handle_set s (set_body key cfg) w = (h, w')"
  shows "if well_configured cfg
    then hr_status h = Some 201 \<and> (\<exists>t w''. grpc_status s' key (g w') = (Returns (Inr
        \<lparr>pst_key = key, pst_algorithm = cfg_algorithm cfg, pst_config = service_config_to_proto cfg,
         pst_created_at = unix_sec (now w), pst_updated_at = unix_sec (now w), pst_next_reset = t\<rparr>), w''))
    else hr_status h = Some 500 \<and> w' = w"
proof (cases "well_configured cfg")
  case True
  note ds = redis_durable_store [OF assms(1)] and ss = redis_string_store [OF assms(1)]
  obtain w1 where set: "set_config s key cfg w = (None, w1)"
    by (rule durable_store.set_config_accepts [OF ds assms(2) True])
  then have h: "hr_status h = Some 201" "w' = w1"
    using assms(9) decode_set_body [OF assms(4,5)] by (auto simp: handle_set_def response_defs)
  note sc = set_config_world [OF assms(1,2) set]
  have c: "steady (w_clock w1)" using assms(6) sc(1) by simp
  have valid: "cfg_algorithm cfg \<in> set valid_algorithms" "cfg_window_seconds cfg \<noteq> 0"
    using True by (auto simp: well_configured_def)
  obtain t w'' where "get_status s' key (g w1) = (Returns (Inr \<lparr>gsr_config = cfg,
      gsr_created_at = md_created_at \<lparr>md_created_at = unix_sec (now w), md_updated_at = unix_sec (now w)\<rparr>,
      gsr_updated_at = md_updated_at \<lparr>md_created_at = unix_sec (now w), md_updated_at = unix_sec (now w)\<rparr>,
      gsr_next_reset = t\<rparr>), w'')"
    by (rule string_store.get_status_held [OF ss assms(3) quiet_holds [OF assms(7) c sc(3)] valid
          quiet_holds [OF assms(8) c durable_store.set_config_metadata [OF ds assms(2) set]]])
  then show ?thesis using True h by (simp add: grpc_status_def)
next
  case False
  then obtain e where "set_config s key cfg w = (Some e, w)"
    using durable_store.set_config_rejects [OF redis_durable_store [OF assms(1)]] by blast
  with assms(9) decode_set_body [OF assms(4,5)] False show ?thesis
    by (auto simp: handle_set_def status_internal_server_error_def)
qed

theorem posted_config_status_witness:
  "hr_status (fst (handle_set demo_service (set_body ''u'' (demo_config algorithm_token_bucket)) demo_world)) = Some 201"
proof -
  obtain h w' where h: "handle_set demo_service (set_body ''u'' (demo_config algorithm_token_bucket)) demo_world = (h, w')"
    by fastforce
  have "list_all plain algorithm_token_bucket" by (simp add: algorithm_token_bucket_def plain_def)
  with posted_config_status [OF map_client_serves demo_world_simps(3) demo_world_simps(3) plain_u _ _ quiet_id quiet_id h]
  show ?thesis using demo_valid [of algorithm_token_bucket] by (simp add: h)
qed


section \<open>The health watch\<close>

text \<open>The statuses a watch sees: the first, and one at each tick until its context is done.\<close>

fun observed :: "'s health_service \<Rightarrow> 's watch_event list \<Rightarrow> 's world \<Rightarrow> serving_status list" where
  "observed hs [] w = []"
| "observed hs (CtxDone g err # es) w = []"
| "observed hs (Tick g # es) w = (case current_status hs (g w) of (status, w) \<Rightarrow> status # observed hs es w)"

lemma watch_loop_changes:
  assumes "\<And>i. send i = None"
  shows "status # fst (fst (watch_loop hs send status n es w)) = remdups_adj (status # observed hs es w)"
proof (induction es arbitrary: status n w)
  case (Cons e es)
  then show ?case
    using assms by (cases e) (auto simp: split_beta split: if_splits)
qed simp

text \<open>
  C32: While its sends succeed, a health watch sends the status it finds first and then each status
  that differs from the one before: what it has sent is what it has seen without the
  repetitions, at whatever instants it looked, so no two consecutive ones are equal.
\<close>

theorem watch_sends_changes:
  assumes "\<And>i. send i = None" and "current_status hs w = (status, w')"
  shows "fst (fst (health_watch hs send es w)) = remdups_adj (status # observed hs es w') \<and>
    distinct_adj (fst (fst (health_watch hs send es w)))"
  using watch_loop_changes [of send status hs 1 es w', OF assms(1)] assms
  by (simp add: health_watch_def split_beta)

text \<open>A store that stops answering: it is seen four times, and two statuses are sent.\<close>

theorem watch_sends_changes_witness:
  "fst (fst (health_watch
      \<lparr>hs_store = down_ops\<lparr>st_ping := \<lambda>w. (if w_reads w < 2 then None else Some (ErrNew ''down''), w)\<rparr>\<rparr>
      (\<lambda>i. None) [Tick (skip 1), Tick (skip 1), Tick (skip 1)] \<lparr>w_store = (), w_clock = ramp_clock 0 1, w_reads = 0\<rparr>)) =
    [SERVING, NOT_SERVING]"
proof -
  let ?hs = "\<lparr>hs_store = down_ops\<lparr>st_ping := \<lambda>w. (if w_reads w < 2 then None else Some (ErrNew ''down''), w)\<rparr>\<rparr>"
  let ?w = "\<lparr>w_store = (), w_clock = ramp_clock 0 1, w_reads = 0\<rparr>"
  have "current_status ?hs ?w = (SERVING, ?w)" by (simp add: current_status_def health_ping_def)
  from watch_sends_changes [of "\<lambda>i. None", OF refl this, of "[Tick (skip 1), Tick (skip 1), Tick (skip 1)]"]
  show ?thesis by (simp add: current_status_def health_ping_def)
qed

lemma watch_loop_returns:
  assumes "CtxDone g e \<in> set es"
  shows "\<exists>err. snd (fst (watch_loop hs send status n es w)) = Some err \<and>
    ((\<exists>g. CtxDone g err \<in> set es) \<or> (\<exists>i. send i = Some err))"
  using assms
proof (induction es arbitrary: status n w)
  case (Cons x es)
  show ?case
  proof (cases x)
    case (Tick h)
    then have *: "CtxDone g e \<in> set es" using Cons.prems by simp
    obtain s w1 where c: "current_status hs (h w) = (s, w1)" by fastforce
    show ?thesis
      using Cons.IH [OF * , of status n w1] Cons.IH [OF *, of s "n + 1" w1]
      by (cases "send n") (auto simp: Tick c split_beta)
  qed auto
qed simp

text \<open>
  C33: A health watch whose context ends returns, at that event at the latest, with the error of a
  context or of a send; it never ends without an error.
\<close>

theorem watch_returns:
  assumes "CtxDone g e \<in> set es"
  shows "\<exists>err. snd (fst (health_watch hs send es w)) = Some err \<and>
    ((\<exists>g. CtxDone g err \<in> set es) \<or> (\<exists>i. send i = Some err))"
proof -
  obtain s w1 where c: "current_status hs w = (s, w1)" by fastforce
  show ?thesis
    using watch_loop_returns [OF assms, of hs send s 1 w1]
    by (cases "send 0") (auto simp: health_watch_def c split_beta)
qed

theorem watch_returns_witness:
  "\<exists>err. snd (fst (health_watch \<lparr>hs_store = down_ops\<rparr> (\<lambda>i. None) [Tick (skip 1), CtxDone (skip 1) (ErrNew ''context canceled'')]
    \<lparr>w_store = (), w_clock = ramp_clock 0 1, w_reads = 0\<rparr>)) = Some err \<and> err = ErrNew ''context canceled''"
  using watch_returns [of "skip 1" "ErrNew ''context canceled''"
      "[Tick (skip 1), CtxDone (skip 1) (ErrNew ''context canceled'')]" "\<lparr>hs_store = down_ops\<rparr>" "\<lambda>i. None"
      "\<lparr>w_store = (), w_clock = ramp_clock 0 1, w_reads = 0\<rparr>"] by auto

end
