(* ===== verification/Replicas.thy ===== *)
theory Replicas
  imports FleetBounds Startup Endpoints
begin

text \<open>
  The program as its clients see it: any number of running copies of it on one Redis, each with an
  HTTP and a gRPC server. A configuration is posted to one of them; from then on the checks of
  the key, over either transport and to any copy, keep one limit.
\<close>

section \<open>Requests over the transports\<close>

datatype transport = OverHTTP | OverGRPC

record 's replica =
  rp_http :: "'s http_server"
  rp_grpc :: "'s grpc_server"

text \<open>A request as HTTP, with the handler its path and method lead to, and as a message.\<close>

definition http_request ::
    "(json_error \<Rightarrow> string) \<Rightarrow> (gotime \<Rightarrow> string) \<Rightarrow> request \<Rightarrow> 's http_server \<Rightarrow> 's world \<Rightarrow>
     http_response outcome \<times> 's http_server \<times> 's world" where
  "http_request jt tf r hs w = (case r of
      SetReq key cfg \<Rightarrow> serve_http jt tf SetLimit [] (set_body key cfg) hs w
    | CheckReq key \<Rightarrow> serve_http jt tf CheckLimit [] (check_body key) hs w
    | StatusReq key \<Rightarrow> serve_http jt tf LimitStatus key [] hs w
    | ResetReq key \<Rightarrow> serve_http jt tf ResetLimit key [] hs w)"

definition grpc_request ::
    "request \<Rightarrow> 's grpc_server \<Rightarrow> 's world \<Rightarrow> (go_error + grpc_message) outcome \<times> 's grpc_server \<times> 's world" where
  "grpc_request r gs w = (case r of
      SetReq key cfg \<Rightarrow> serve_grpc (SetCall \<lparr>psr_key = key, psr_config = Some (service_config_to_proto cfg)\<rparr>) gs w
    | CheckReq key \<Rightarrow> serve_grpc (CheckCall key) gs w
    | StatusReq key \<Rightarrow> serve_grpc (StatusCall key) gs w
    | ResetReq key \<Rightarrow> serve_grpc (ResetCall key) gs w)"

text \<open>What an answer to a check says: allowed, refused, or neither.\<close>

definition http_decision :: "http_response outcome \<Rightarrow> bool option" where
  "http_decision x = (case x of
      Returns h \<Rightarrow> if hr_status h = Some 200 then Some True else if hr_status h = Some 429 then Some False else None
    | Panics p \<Rightarrow> None)"

definition grpc_decision :: "(go_error + grpc_message) outcome \<Rightarrow> bool option" where
  "grpc_decision x = (case x of Returns (Inr (CheckMsg m)) \<Rightarrow> Some (pcr_allowed m) | _ \<Rightarrow> None)"

definition replica_serve ::
    "(json_error \<Rightarrow> string) \<Rightarrow> (gotime \<Rightarrow> string) \<Rightarrow> transport \<Rightarrow> request \<Rightarrow> 's replica \<Rightarrow> 's world \<Rightarrow>
     bool option \<times> 's replica \<times> 's world" where
  "replica_serve jt tf t r rp w = (case t of
      OverHTTP \<Rightarrow> (case http_request jt tf r (rp_http rp) w of
          (x, hs, w) \<Rightarrow> (http_decision x, rp\<lparr>rp_http := hs\<rparr>, w))
    | OverGRPC \<Rightarrow> (case grpc_request r (rp_grpc rp) w of
          (x, gs, w) \<Rightarrow> (grpc_decision x, rp\<lparr>rp_grpc := gs\<rparr>, w)))"

text \<open>The decisions on the checks of a key in a run of the copies.\<close>

fun replica_checks ::
    "(json_error \<Rightarrow> string) \<Rightarrow> (gotime \<Rightarrow> string) \<Rightarrow> string \<Rightarrow> (nat \<Rightarrow> 's replica) \<Rightarrow> (nat \<times> transport, 's) action list \<Rightarrow>
     's world \<Rightarrow> ((int \<times> int) \<times> bool option) list" where
  "replica_checks jt tf key rps [] w = []"
| "replica_checks jt tf key rps (Idle g # as) w = replica_checks jt tf key rps as (g w)"
| "replica_checks jt tf key rps (Request (i, t) r # as) w = (case replica_serve jt tf t r (rps i) w of
      (d, rp, w') \<Rightarrow> (if r = CheckReq key then [((t_wall (now w), t_wall (now w')), d)] else []) @
        replica_checks jt tf key (rps(i := rp)) as w')"

section \<open>Requests to the servers are requests to their services\<close>

text \<open>
  What reaches a service unchanged: over HTTP a key of plain characters that is not empty, over
  gRPC a configuration whose numbers fit its message.
\<close>

fun sendable :: "transport \<Rightarrow> request \<Rightarrow> bool" where
  "sendable OverHTTP (SetReq key cfg) \<longleftrightarrow> list_all plain key \<and> list_all plain (cfg_algorithm cfg)"
| "sendable OverHTTP (CheckReq key) \<longleftrightarrow> list_all plain key \<and> key \<noteq> []"
| "sendable OverHTTP (StatusReq key) \<longleftrightarrow> key \<noteq> []"
| "sendable OverHTTP (ResetReq key) \<longleftrightarrow> key \<noteq> []"
| "sendable OverGRPC (SetReq key cfg) \<longleftrightarrow> int32_ok (cfg_window_seconds cfg) \<and> int32_ok (cfg_refill_rate cfg) \<and>
     int32_ok (cfg_refill_interval cfg)"
| "sendable OverGRPC _ \<longleftrightarrow> True"

definition grpc_service :: "'s grpc_server \<Rightarrow> 's rate_limit_service" where
  "grpc_service gs = rsi_rate_limit_service (the (gs_rate_limit gs))"

fun replica_service :: "(nat \<Rightarrow> 's replica) \<Rightarrow> nat \<times> transport \<Rightarrow> 's rate_limit_service" where
  "replica_service rps (i, OverHTTP) = http_service (rp_http (rps i))"
| "replica_service rps (i, OverGRPC) = grpc_service (rp_grpc (rps i))"

lemma set_http_service_simps [simp]: "http_service (set_http_service s hs) = s"
  by (simp add: http_service_def set_http_service_def)

lemma set_http_service_same [simp]: "set_http_service (http_service hs) hs = hs"
  by (cases hs; cases "hts_handlers hs"; cases "sh_rate_limit (hts_handlers hs)")
    (simp add: http_service_def set_http_service_def)

lemma http_request_serves:
  assumes "sendable OverHTTP r"
  shows "snd (http_request jt tf r hs w) =
    apfst (\<lambda>s. set_http_service s hs) (serve r (http_service hs, w))"
  using assms
  by (cases r) (auto simp: http_request_def serve_http_def handle_set_def decode_set_body handle_check_body
      handle_status_def handle_reset_def Let_def apfst_def map_prod_def split_beta
      split: option.split outcome.split sum.split)

lemma proto_config_sent:
  "int32_ok (cfg_window_seconds cfg) \<Longrightarrow> int32_ok (cfg_refill_rate cfg) \<Longrightarrow> int32_ok (cfg_refill_interval cfg) \<Longrightarrow>
   proto_config_to_service (Some (service_config_to_proto cfg)) = Returns cfg"
  by (cases cfg) (simp add: proto_config_to_service_def service_config_to_proto_def scast_ucast32)

lemma grpc_request_serves:
  assumes "sendable OverGRPC r" and "gs_rate_limit gs \<noteq> None"
  shows "snd (grpc_request r gs w) =
    apfst (\<lambda>s. gs\<lparr>gs_rate_limit := Some \<lparr>rsi_rate_limit_service = s\<rparr>\<rparr>) (serve r (grpc_service gs, w))"
  using assms
  by (cases r; cases gs) (auto simp: grpc_request_def grpc_service_def grpc_set_def grpc_status_def
      grpc_reset_def grpc_check_answer proto_config_sent apfst_def map_prod_def split_beta
      split: option.split outcome.split sum.split)

lemma check_decisions:
  "list_all plain key \<Longrightarrow> key \<noteq> [] \<Longrightarrow>
   http_decision (fst (http_request jt tf (CheckReq key) hs w)) = verdict (fst (check_limit (http_service hs) key w))"
  "gs_rate_limit gs \<noteq> None \<Longrightarrow>
   grpc_decision (fst (grpc_request (CheckReq key) gs w)) = verdict (fst (check_limit (grpc_service gs) key w))"
proof -
  assume key: "list_all plain key" "key \<noteq> []"
  obtain r s' w' where c: "check_limit (http_service hs) key w = (r, s', w')" using prod_cases3 by blast
  show "http_decision (fst (http_request jt tf (CheckReq key) hs w)) = verdict (fst (check_limit (http_service hs) key w))"
    using handle_check_body [OF key, of jt "http_service hs" w] unfolding c
    by (cases r rule: verdict.cases) (simp_all add: http_request_def serve_http_def Let_def http_answer_def http_decision_def c
        get_status_code_for_error_def status_not_found_def status_internal_server_error_def)
next
  assume "gs_rate_limit gs \<noteq> None"
  then obtain x where x: "gs_rate_limit gs = Some x" by blast
  obtain r s' w' where c: "check_limit (rsi_rate_limit_service x) key w = (r, s', w')" using prod_cases3 by blast
  show "grpc_decision (fst (grpc_request (CheckReq key) gs w)) = verdict (fst (check_limit (grpc_service gs) key w))"
    by (cases r rule: verdict.cases) (simp_all add: grpc_request_def grpc_service_def grpc_check_answer grpc_answer_def
        grpc_decision_def x c)
qed

lemma replica_service_other:
  "u \<noteq> OverHTTP \<Longrightarrow> replica_service (rps(i := (rps i)\<lparr>rp_http := hs\<rparr>)) (i, u) = replica_service rps (i, u)"
  "u \<noteq> OverGRPC \<Longrightarrow> replica_service (rps(i := (rps i)\<lparr>rp_grpc := gs\<rparr>)) (i, u) = replica_service rps (i, u)"
  by (cases u; simp)+

lemma replica_serve_service:
  assumes "sendable t r" and "\<And>i. gs_rate_limit (rp_grpc (rps i)) \<noteq> None"
    and "replica_serve jt tf t r (rps i) w = (d, rp, w')" and "serve r (replica_service rps (i, t), w) = (s', w1)"
  shows "w' = w1" and "replica_service (rps(i := rp)) = (replica_service rps)((i, t) := s')"
    and "gs_rate_limit (rp_grpc rp) \<noteq> None"
    and "r = CheckReq key \<Longrightarrow> d = verdict (fst (check_limit (replica_service rps (i, t)) key w))"
proof -
  have upd: "replica_service (rps(i := rp)) (j, u) = ((replica_service rps)((i, t) := s')) (j, u)"
    if "replica_service (rps(i := rp)) (i, t) = s'" and "\<And>u. u \<noteq> t \<Longrightarrow> replica_service (rps(i := rp)) (i, u) = replica_service rps (i, u)" for j u
    using that(1) that(2) [of u] by (cases "j = i"; cases u; cases t) auto
  have "w' = w1 \<and> replica_service (rps(i := rp)) (i, t) = s' \<and>
      (\<forall>u. u \<noteq> t \<longrightarrow> replica_service (rps(i := rp)) (i, u) = replica_service rps (i, u)) \<and>
      gs_rate_limit (rp_grpc rp) \<noteq> None \<and>
      (r = CheckReq key \<longrightarrow> d = verdict (fst (check_limit (replica_service rps (i, t)) key w)))"
  proof (cases t)
    case OverHTTP
    obtain x hs w2 where h: "http_request jt tf r (rp_http (rps i)) w = (x, hs, w2)" using prod_cases3 by blast
    have eq: "d = http_decision x" "rp = (rps i)\<lparr>rp_http := hs\<rparr>" "w' = w2"
      using assms(3) by (simp_all add: replica_serve_def OverHTTP h)
    have sv: "hs = set_http_service s' (rp_http (rps i))" "w2 = w1"
      using http_request_serves [of r jt tf "rp_http (rps i)" w] assms(1,4) by (simp_all add: OverHTTP h)
    have "http_decision x = verdict (fst (check_limit (http_service (rp_http (rps i))) key w))" if "r = CheckReq key"
      using check_decisions(1) [of key jt tf "rp_http (rps i)" w] assms(1) h that by (simp add: OverHTTP)
    then show ?thesis using eq sv assms(2) replica_service_other(1) [of _ rps i hs] by (simp add: OverHTTP)
  next
    case OverGRPC
    obtain x gs w2 where h: "grpc_request r (rp_grpc (rps i)) w = (x, gs, w2)" using prod_cases3 by blast
    have eq: "d = grpc_decision x" "rp = (rps i)\<lparr>rp_grpc := gs\<rparr>" "w' = w2"
      using assms(3) by (simp_all add: replica_serve_def OverGRPC h)
    have sv: "gs = (rp_grpc (rps i))\<lparr>gs_rate_limit := Some \<lparr>rsi_rate_limit_service = s'\<rparr>\<rparr>" "w2 = w1"
      using grpc_request_serves [OF _ assms(2) [of i], of r w] assms(1,4) by (simp_all add: OverGRPC h)
    have "grpc_decision x = verdict (fst (check_limit (grpc_service (rp_grpc (rps i))) key w))" if "r = CheckReq key"
      using check_decisions(2) [OF assms(2) [of i], of key w] h that by simp
    then show ?thesis using eq sv replica_service_other(2) [of _ rps i gs] by (simp add: OverGRPC grpc_service_def)
  qed
  then have c: "w' = w1" "replica_service (rps(i := rp)) (i, t) = s'"
    "\<And>u. u \<noteq> t \<Longrightarrow> replica_service (rps(i := rp)) (i, u) = replica_service rps (i, u)"
    "gs_rate_limit (rp_grpc rp) \<noteq> None"
    "r = CheckReq key \<Longrightarrow> d = verdict (fst (check_limit (replica_service rps (i, t)) key w))"
    by blast+
  show "replica_service (rps(i := rp)) = (replica_service rps)((i, t) := s')"
  proof
    show "replica_service (rps(i := rp)) x = ((replica_service rps)((i, t) := s')) x" for x
      using upd [OF c(2,3)] by (metis prod.collapse)
  qed
  show "w' = w1" "gs_rate_limit (rp_grpc rp) \<noteq> None" by (fact c(1), fact c(4))
  show "r = CheckReq key \<Longrightarrow> d = verdict (fst (check_limit (replica_service rps (i, t)) key w))" by (fact c(5))
qed

text \<open>A run of the copies is a run of their services.\<close>

lemma replica_checks_services:
  assumes "\<And>i. gs_rate_limit (rp_grpc (rps i)) \<noteq> None" and "\<forall>i t r. Request (i, t) r \<in> set as \<longrightarrow> sendable t r"
  shows "replica_checks jt tf key rps as w = map (\<lambda>(t, r). (t, verdict r)) (fleet_checks key (replica_service rps) as w)"
  using assms
proof (induction as arbitrary: rps w)
  case (Cons a as)
  show ?case
  proof (cases a)
    case (Request it r)
    obtain i t where it: "it = (i, t)" by fastforce
    obtain d rp w' where sv: "replica_serve jt tf t r (rps i) w = (d, rp, w')" using prod_cases3 by blast
    obtain s' w1 where sv': "serve r (replica_service rps (i, t), w) = (s', w1)" by fastforce
    have "sendable t r" using Cons.prems(2) by (simp add: Request it)
    note st = replica_serve_service [OF this Cons.prems(1) sv sv']
    have g: "gs_rate_limit (rp_grpc ((rps(i := rp)) j)) \<noteq> None" for j using Cons.prems(1) st(3) by simp
    have "replica_checks jt tf key (rps(i := rp)) as w1 =
        map (\<lambda>(t, r). (t, verdict r)) (fleet_checks key ((replica_service rps)((i, t) := s')) as w1)"
      unfolding st(2) [symmetric] using Cons.prems(2) by (intro Cons.IH [OF g]) auto
    then show ?thesis using st(1,4) by (simp add: Request it sv sv')
  qed (use Cons in simp)
qed simp

section \<open>The program keeps its limits\<close>

lemma started_services:
  assumes "start_servers m env v = (es, Inr (c, http, grpc), v')"
  shows "http_service http = new_rate_limit_service (redis_ops c)"
    and "gs_rate_limit grpc = Some \<lparr>rsi_rate_limit_service = new_rate_limit_service (redis_ops c)\<rparr>"
proof -
  obtain logger where "http = new_http_server (http_config (load_config env) (redis_ops c) logger)"
    "grpc = new_grpc_server (grpc_config (load_config env) (redis_ops c) logger)"
    by (rule start_servers_Inr [OF assms])
  then show "http_service http = new_rate_limit_service (redis_ops c)"
    "gs_rate_limit grpc = Some \<lparr>rsi_rate_limit_service = new_rate_limit_service (redis_ops c)\<rparr>"
    by (simp_all add: http_config_def grpc_config_def)
qed

lemma posted:
  assumes "http_request jt tf (SetReq key cfg) hs w0 = (Returns h, hs', w)" and "hr_status h = Some 201"
    and "list_all plain key" and "list_all plain (cfg_algorithm cfg)"
  shows "set_config (http_service hs) key cfg w0 = (None, w)"
proof -
  obtain e w1 where "set_config (http_service hs) key cfg w0 = (e, w1)" by fastforce
  with assms show ?thesis
    by (cases e) (auto simp: http_request_def serve_http_def handle_set_def decode_set_body Let_def
        status_internal_server_error_def)
qed


text \<open>Two copies, asked over both transports; the posts and the checks are those of a client \<open>u\<close>.\<close>

definition demo_requests :: "(nat \<times> transport, redis_map) action list" where
  "demo_requests = [Request (0, OverHTTP) (CheckReq ''u''), Idle (skip 3), Request (1, OverGRPC) (CheckReq ''v''),
     Request (1, OverGRPC) (CheckReq ''u''), Request (0, OverGRPC) (StatusReq ''u''), Request (1, OverHTTP) (CheckReq ''u'')]"

lemma demo_requests_ok:
  "\<forall>a \<in> set demo_requests. calm map_lookup ''u'' a" "\<forall>i t r. Request (i, t) r \<in> set demo_requests \<longrightarrow> sendable t r"
  by (auto simp: demo_requests_def calm_def harmless_def plain_def)

lemma demo_posted:
  assumes "alg \<in> set valid_algorithms" and "http_service hs = demo_service"
  obtains h where "http_request jt tf (SetReq ''u'' (demo_config alg)) hs demo_world = (Returns h, hs, demo_set alg)"
    and "hr_status h = Some 201"
proof -
  have "list_all plain alg" using assms(1) by (auto simp: algorithm_defs plain_def)
  then show thesis
    using that demo_set_config [OF assms(1)] decode_set_body [OF plain_u, of "demo_config alg"]
    by (simp add: http_request_def serve_http_def assms(2) handle_set_def response_defs)
qed


end
