(* ===== verification/Interleaving.thy ===== *)
theory Interleaving
  imports FleetBounds
begin

text \<open>
  Calls that overlap. A client makes one call of \<open>Allow\<close>, in two turns: it reads the state of the
  key from the store, and it writes the new state. Clients of any limiters take their turns in
  any order, with other activity in between. As long as the turns of the clients of one key come
  in pairs, their decisions are those of the specification, whatever the clients of other keys do
  in the middle of a call; and when they do not, every limit can be exceeded.
\<close>

section \<open>Clients and their turns\<close>

text \<open>
  Where a client is: before its call, within it, or after it. The pair of integers is the wall
  clock before and after the first half of the call.
\<close>

datatype 's client =
    Waiting
  | Within "int \<times> int" bool "'s open_call"
  | Answered "int \<times> int" bool "go_error option"
  | Crashed panic

definition client_turn ::
    "(nat \<Rightarrow> 's rate_limiter \<times> string) \<Rightarrow> nat \<Rightarrow> 's world \<times> (nat \<Rightarrow> 's client) \<Rightarrow> 's world \<times> (nat \<Rightarrow> 's client)" where
  "client_turn jobs i x = (case x of (w, pc) \<Rightarrow> (case pc i of
      Waiting \<Rightarrow> (case lim_read (fst (jobs i)) (snd (jobs i)) w of
          (Panics p, w') \<Rightarrow> (w', pc(i := Crashed p))
        | (Returns (Inl err), w') \<Rightarrow> (w', pc(i := Answered (t_wall (now w), t_wall (now w')) True (Some err)))
        | (Returns (Inr (ok, c)), w') \<Rightarrow> (w', pc(i := Within (t_wall (now w), t_wall (now w')) ok c)))
    | Within t ok c \<Rightarrow> (case lim_write ok c w of
          ((ok', err), w') \<Rightarrow> (w', pc(i := Answered t ok' err)))
    | _ \<Rightarrow> (w, pc)))"

datatype 's turn = Turn nat | Meanwhile "'s world \<Rightarrow> 's world"

fun take_turns ::
    "(nat \<Rightarrow> 's rate_limiter \<times> string) \<Rightarrow> 's turn list \<Rightarrow> 's world \<times> (nat \<Rightarrow> 's client) \<Rightarrow>
     's world \<times> (nat \<Rightarrow> 's client)" where
  "take_turns jobs [] x = x"
| "take_turns jobs (Turn i # ts) x = take_turns jobs ts (client_turn jobs i x)"
| "take_turns jobs (Meanwhile g # ts) (w, pc) = take_turns jobs ts (g w, pc)"

lemma take_turns_append: "take_turns jobs (ts @ us) x = take_turns jobs us (take_turns jobs ts x)"
  by (induction jobs ts x rule: take_turns.induct) simp_all

text \<open>The turns of some clients in a schedule, and a schedule in which nobody comes in between.\<close>

fun turns_of :: "(nat \<Rightarrow> bool) \<Rightarrow> 's turn list \<Rightarrow> nat list" where
  "turns_of P [] = []"
| "turns_of P (Turn i # ts) = (if P i then i # turns_of P ts else turns_of P ts)"
| "turns_of P (Meanwhile g # ts) = turns_of P ts"

definition in_pairs :: "nat list \<Rightarrow> nat list" where
  "in_pairs is = concat (map (\<lambda>i. [i, i]) is)"

lemma in_pairs_simps [simp]: "in_pairs [] = []" "in_pairs (i # is) = i # i # in_pairs is"
  by (simp_all add: in_pairs_def)

fun decision :: "'s client \<Rightarrow> (int \<times> int) \<times> (bool \<times> go_error option) option" where
  "decision (Answered t ok err) = (t, Some (ok, err))"
| "decision _ = ((0, 0), None)"

text \<open>A call by itself is a call of \<open>Allow\<close>.\<close>

lemma client_call:
  assumes "pc i = Waiting" and "lim_allow (fst (jobs i)) (snd (jobs i)) w = (Returns (ok, err), w')"
  shows "\<exists>t pc'. take_turns jobs [Turn i, Turn i] (w, pc) = (w', pc') \<and> pc' i = Answered t ok err"
  using assms by (auto simp: client_turn_def lim_allow_steps split: prod.splits sum.splits outcome.splits)

text \<open>One that has its answer keeps it.\<close>

lemma client_turn_other [simp]: "i \<noteq> j \<Longrightarrow> snd (client_turn jobs j x) i = snd x i"
  by (auto simp: client_turn_def split: prod.split client.split sum.split outcome.split)

lemma answered_turn [simp]: "snd x i = Answered t ok err \<Longrightarrow> client_turn jobs i x = x"
  by (simp add: client_turn_def split_beta)

lemma answered_stays: "snd x i = Answered t ok err \<Longrightarrow> snd (take_turns jobs ts x) i = Answered t ok err"
proof (induction jobs ts x rule: take_turns.induct)
  case (2 jobs j ts x)
  then show ?case by (cases "i = j") simp_all
qed simp_all

text \<open>A client within a call is within a call of its own limiter and key.\<close>

definition framed :: "(nat \<Rightarrow> 's rate_limiter \<times> string) \<Rightarrow> (nat \<Rightarrow> 's client) \<Rightarrow> bool" where
  "framed jobs pc \<longleftrightarrow> (\<forall>i t ok c. pc i = Within t ok c \<longrightarrow>
     call_store c = lim_store (fst (jobs i)) \<and> call_key c = lim_state_key (fst (jobs i)) (snd (jobs i)))"

lemma framed_turn: "framed jobs pc \<Longrightarrow> framed jobs (snd (client_turn jobs i (w, pc)))"
  using lim_read_call [of "fst (jobs i)" "snd (jobs i)" w]
  by (auto simp: framed_def client_turn_def split: client.split prod.split sum.split outcome.split)

lemma framed_waiting [simp]: "framed jobs (\<lambda>i. Waiting)"
  by (simp add: framed_def)

context string_store
begin

lemma turn_undisturbed:
  assumes "framed jobs pc" and "lim_store (fst (jobs i)) = st" and "k \<noteq> lim_state_key (fst (jobs i)) (snd (jobs i))"
  shows "undisturbed lookup k w (fst (client_turn jobs i (w, pc)))"
proof (cases "pc i")
  case Waiting
  with lim_read_undisturbed [OF assms(2), of k w "snd (jobs i)"] show ?thesis
    by (auto simp: client_turn_def split: prod.split sum.split outcome.split)
next
  case (Within t ok c)
  then have "call_store c = st" "k \<noteq> call_key c"
    using assms unfolding framed_def by metis+
  from lim_write_undisturbed [OF this, of w ok] Within show ?thesis
    by (auto simp: client_turn_def split: prod.split)
qed (simp_all add: client_turn_def)

end
section \<open>The clients of one key\<close>

context specified_limiter
begin

text \<open>
  The clients in \<open>K\<close> call one limiter with one key; the others are clients of the same store, of
  other keys or with other limiters.
\<close>

definition sharing :: "'p \<Rightarrow> string \<Rightarrow> (nat \<Rightarrow> bool) \<Rightarrow> (nat \<Rightarrow> 's rate_limiter \<times> string) \<Rightarrow> bool" where
  "sharing p key K jobs \<longleftrightarrow> (\<forall>i. if K i then jobs i = (limiter p, key)
     else lim_store (fst (jobs i)) = st \<and> lim_state_key (fst (jobs i)) (snd (jobs i)) \<noteq> lim_state_key (limiter p) key)"

lemma sharing_turn:
  assumes "sharing p key K jobs" and "\<not> K i" and "framed jobs pc"
  shows "quiet lookup (lim_state_key (limiter p) key) (\<lambda>w. fst (client_turn jobs i (w, pc)))"
  using assms unfolding sharing_def by (intro quietI turn_undisturbed) metis+

text \<open>The first turn of a client of the key, and the second.\<close>

lemma first_turn:
  assumes "rel p key w s" and "jobs i = (limiter p, key)" and "pc i = Waiting"
  obtains t w' c where "t_wall (now w) \<le> t" and "t \<le> t_wall (now w')"
    and "client_turn jobs i (w, pc) =
      (w', pc(i := Within (t_wall (now w), t_wall (now w')) (fst (step p t s)) c))"
    and "due p key w' (snd (step p t s)) c"
proof -
  obtain t w' c where "t_wall (now w) \<le> t" "t \<le> t_wall (now w')"
      "lim_read (limiter p) key w = (Returns (Inr (fst (step p t s), c)), w')" "due p key w' (snd (step p t s)) c"
    using read_due [OF assms(1)] by blast
  then show thesis using that assms(2,3) by (simp add: client_turn_def)
qed

lemma second_turn:
  assumes "due p key w s c" and "pc i = Within t ok c"
  obtains w' where "client_turn jobs i (w, pc) = (w', pc(i := Answered t ok None))" and "rel p key w' s"
    and "t_wall (now w) \<le> t_wall (now w')"
proof -
  obtain w' where w': "lim_write ok c w = ((ok, None), w')" "rel p key w' s"
      "w_clock w' = w_clock w" "w_reads w \<le> w_reads w'"
    using write_due [OF assms(1)] by blast
  have "t_wall (now w) \<le> t_wall (now w')"
    using rel_steady [OF w'(2)] w'(3,4) by (simp add: now_def steady_mono)
  with w' show thesis using that assms(2) by (simp add: client_turn_def)
qed

text \<open>
  What is to be answered from the state \<open>s\<close> of the specification on, each answer at an instant
  within its interval; \<open>f\<close> is how a decision is reported.
\<close>

definition answers :: "(bool \<Rightarrow> 'r) \<Rightarrow> 'p \<Rightarrow> 's world \<Rightarrow> 'a \<Rightarrow> ((int \<times> int) \<times> 'r) list \<Rightarrow> bool" where
  "answers f p w s ds \<longleftrightarrow> (\<exists>us. sorted us \<and> (\<forall>u \<in> set us. t_wall (now w) \<le> u) \<and> inside ds us \<and>
     map snd ds = map (f \<circ> snd) (spec_seq (step p) s us))"

lemma answers_Nil [simp]: "answers f p w s []"
  by (auto simp: answers_def intro: exI [of _ "[]"])

lemma answers_later: "answers f p w' s ds \<Longrightarrow> t_wall (now w) \<le> t_wall (now w') \<Longrightarrow> answers f p w s ds"
  unfolding answers_def by (meson order_trans)

lemma answers_Cons:
  assumes "answers f p w' (snd (step p t s)) ds" and "t_wall (now w) \<le> t" and "t \<le> t_wall (now w')"
    and "a \<le> t" and "t \<le> b"
  shows "answers f p w s (((a, b), f (fst (step p t s))) # ds)"
proof -
  obtain us where us: "sorted us" "\<forall>u \<in> set us. t_wall (now w') \<le> u" "inside ds us"
    "map snd ds = map (f \<circ> snd) (spec_seq (step p) (snd (step p t s)) us)"
    using assms(1) by (auto simp: answers_def)
  have "sorted (t # us)" "\<forall>u \<in> set (t # us). t_wall (now w) \<le> u" using us(1,2) assms(2,3) by force+
  then show ?thesis
    using us(3,4) assms(4,5) unfolding answers_def by (intro exI [of _ "t # us"]) simp
qed

abbreviation "calls_answered \<equiv> answers (\<lambda>ok. Some (ok, None :: go_error option))"

lemma due_steady: "due p key w s c \<Longrightarrow> steady (w_clock w)"
  using write_due rel_steady by metis

text \<open>A turn of another client, or other activity, as one step that is quiet for the key.\<close>

lemma other_turn:
  assumes "sharing p key K jobs" and "framed jobs pc"
    and "case a of Turn j \<Rightarrow> \<not> K j | Meanwhile g \<Rightarrow> quiet lookup (lim_state_key (limiter p) key) g"
  obtains g pc' where "quiet lookup (lim_state_key (limiter p) key) g"
    and "take_turns jobs (a # ts) (w, pc) = take_turns jobs ts (g w, pc')" and "framed jobs pc'"
    and "\<And>i. K i \<Longrightarrow> pc' i = pc i" and "turns_of K (a # ts) = turns_of K ts"
proof (cases a)
  case (Turn j)
  let ?x = "client_turn jobs j (w, pc)"
  have K: "\<not> K j" using assms(3) Turn by simp
  then have "snd ?x i = pc i" if "K i" for i using that by (cases "i = j") simp_all
  with Turn K framed_turn [OF assms(2)] show thesis
    by (intro that [OF sharing_turn [OF assms(1) K assms(2)], of "snd ?x"]) simp_all
next
  case (Meanwhile g)
  with assms show thesis by (intro that [of g pc]) simp_all
qed

lemma serial_turns:
  assumes "sharing p key K jobs"
    and "\<And>g. Meanwhile g \<in> set ts \<Longrightarrow> quiet lookup (lim_state_key (limiter p) key) g" and "framed jobs pc"
    and "turns_of K ts = (case x of None \<Rightarrow> in_pairs cs | Some i \<Rightarrow> i # in_pairs cs)"
    and "distinct (case x of None \<Rightarrow> cs | Some i \<Rightarrow> i # cs)" and "\<And>j. j \<in> set cs \<Longrightarrow> pc j = Waiting"
    and "case x of None \<Rightarrow> rel p key w s | Some i \<Rightarrow> pc i = Within t ok c \<and> due p key w s c"
  shows "calls_answered p w s (map (decision \<circ> snd (take_turns jobs ts (w, pc))) cs) \<and>
    (case x of None \<Rightarrow> True | Some i \<Rightarrow> snd (take_turns jobs ts (w, pc)) i = Answered t ok None)"
  using assms(2-)
proof (induction ts arbitrary: w pc s x cs t ok c)
  case Nil
  then show ?case by (cases x; cases cs) simp_all
next
  case (Cons a ts)
  let ?k = "lim_state_key (limiter p) key"
  have IH: "calls_answered p w s (map (decision \<circ> snd (take_turns jobs ts (w, pc))) cs) \<and>
      (case x of None \<Rightarrow> True | Some i \<Rightarrow> snd (take_turns jobs ts (w, pc)) i = Answered t ok None)"
    if "framed jobs pc" "turns_of K ts = (case x of None \<Rightarrow> in_pairs cs | Some i \<Rightarrow> i # in_pairs cs)"
      "distinct (case x of None \<Rightarrow> cs | Some i \<Rightarrow> i # cs)" "\<And>j. j \<in> set cs \<Longrightarrow> pc j = Waiting"
      "case x of None \<Rightarrow> rel p key w s | Some i \<Rightarrow> pc i = Within t ok c \<and> due p key w s c" for x cs t ok c w s pc
    using Cons.prems(1) by (intro Cons.IH [OF _ that]) simp
  have K: "K i" if "i \<in> set (turns_of K us)" for i and us :: "'s turn list"
    using that by (induction K us rule: turns_of.induct) (auto split: if_splits)
  show ?case
  proof (cases "case a of Turn j \<Rightarrow> \<not> K j | Meanwhile g \<Rightarrow> True")
    case True
    then have "case a of Turn j \<Rightarrow> \<not> K j | Meanwhile g \<Rightarrow> quiet lookup ?k g"
      using Cons.prems(1) by (auto split: turn.splits)
    from other_turn [OF assms(1) Cons.prems(2) this, of ts w]
    obtain g pc' where g: "quiet lookup ?k g"
      and run: "take_turns jobs (a # ts) (w, pc) = take_turns jobs ts (g w, pc')" and pc': "framed jobs pc'"
      and same: "\<And>i. K i \<Longrightarrow> pc' i = pc i" and turns: "turns_of K (a # ts) = turns_of K ts" by metis
    have mine: "K j" if "j \<in> set cs \<or> x = Some j" for j
      using K [of j "a # ts"] that Cons.prems(3) by (auto simp: in_pairs_def split: option.splits)
    have st: "steady (w_clock w)" using Cons.prems(6) rel_steady due_steady by (auto split: option.splits)
    note gw = quiet_world [OF g st]
    have le: "t_wall (now w) \<le> t_wall (now (g w))" using gw st by (simp add: now_def steady_mono)
    have "case x of None \<Rightarrow> rel p key (g w) s | Some i \<Rightarrow> pc' i = Within t ok c \<and> due p key (g w) s c"
      using Cons.prems(6) rel_quiet [OF g] due_later gw same mine by (auto split: option.splits)
    then have "calls_answered p (g w) s (map (decision \<circ> snd (take_turns jobs ts (g w, pc'))) cs) \<and>
        (case x of None \<Rightarrow> True | Some i \<Rightarrow> snd (take_turns jobs ts (g w, pc')) i = Answered t ok None)"
      using Cons.prems(3-5) same mine turns by (intro IH [OF pc']) auto
    with answers_later [OF _ le] show ?thesis unfolding run by blast
  next
    case False
    then obtain j where a: "a = Turn j" "K j" by (cases a) simp_all
    have jobs: "jobs j = (limiter p, key)" using assms(1) a(2) by (simp add: sharing_def)
    show ?thesis
    proof (cases x)
      case None
      then obtain js where js: "cs = j # js" "turns_of K ts = j # in_pairs js"
        using Cons.prems(3) a by (cases cs) auto
      have rel: "rel p key w s" and "pc j = Waiting" using Cons.prems(5,6) None js(1) by simp_all
      obtain u w' c' where u: "t_wall (now w) \<le> u" "u \<le> t_wall (now w')"
        and turn: "client_turn jobs j (w, pc) =
          (w', pc(j := Within (t_wall (now w), t_wall (now w')) (fst (step p u s)) c'))"
        and due: "due p key w' (snd (step p u s)) c'"
        by (rule first_turn [where jobs = jobs and i = j and pc = pc, OF rel jobs \<open>pc j = Waiting\<close>])
      let ?pc = "pc(j := Within (t_wall (now w), t_wall (now w')) (fst (step p u s)) c')"
      have fr: "framed jobs ?pc" using framed_turn [OF Cons.prems(2), of j w] by (simp add: turn)
      have d: "distinct (j # js)" using Cons.prems(4) None js(1) by simp
      have wait: "?pc i = Waiting" if "i \<in> set js" for i using that d Cons.prems(5) js(1) by auto
      have "calls_answered p w' (snd (step p u s)) (map (decision \<circ> snd (take_turns jobs ts (w', ?pc))) js) \<and>
          snd (take_turns jobs ts (w', ?pc)) j = Answered (t_wall (now w), t_wall (now w')) (fst (step p u s)) None"
        using IH [OF fr, of js "Some j" w' "snd (step p u s)" "(t_wall (now w), t_wall (now w'))" "fst (step p u s)" c',
            OF _ _ wait] js d due by simp
      then show ?thesis
        using answers_Cons [where f = "\<lambda>ok. Some (ok, None :: go_error option)"
            and a = "t_wall (now w)" and b = "t_wall (now w')", OF _ u u]
        by (simp add: None js(1) a(1) turn o_def)
    next
      case (Some i)
      then have ij: "i = j" and turns: "turns_of K ts = in_pairs cs" and d: "distinct (j # cs)"
        using Cons.prems(3,4) a by auto
      have inside: "pc j = Within t ok c" and due: "due p key w s c" using Cons.prems(6) Some ij by simp_all
      obtain w' where turn: "client_turn jobs j (w, pc) = (w', pc(j := Answered t ok None))"
        and rel: "rel p key w' s" and le: "t_wall (now w) \<le> t_wall (now w')"
        by (rule second_turn [where pc = pc and i = j, OF due inside])
      let ?pc = "pc(j := Answered t ok None)"
      have fr: "framed jobs ?pc" using framed_turn [OF Cons.prems(2), of j w] by (simp add: turn)
      have wait: "?pc i = Waiting" if "i \<in> set cs" for i using that d Cons.prems(5) by auto
      have "calls_answered p w' s (map (decision \<circ> snd (take_turns jobs ts (w', ?pc))) cs)"
        using IH [OF fr, of cs None w' s, OF _ _ wait] turns d rel by simp
      moreover have "snd (take_turns jobs ts (w', ?pc)) j = Answered t ok None" by (rule answered_stays) simp
      ultimately show ?thesis using answers_later [OF _ le] by (simp add: Some ij a(1) turn o_def)
    qed
  qed
qed

lemma serial_answers:
  assumes "\<forall>i. if K i then jobs i = (limiter p, key)
      else lim_store (fst (jobs i)) = st \<and> lim_state_key (fst (jobs i)) (snd (jobs i)) \<noteq> lim_state_key (limiter p) key"
    and "\<forall>g. Meanwhile g \<in> set ts \<longrightarrow> quiet lookup (lim_state_key (limiter p) key) g"
    and "turns_of K ts = in_pairs cs" and "distinct cs"
    and "ds = map (decision \<circ> snd (take_turns jobs ts (w, \<lambda>i. Waiting))) cs"
    and "rel p key w s" and "\<And>us. run us = map snd (spec_seq (step p) s us)"
  shows "\<exists>us. sorted us \<and> inside ds us \<and> map snd ds = map (\<lambda>ok. Some (ok, None)) (run us)"
proof -
  have "calls_answered p w s (map (decision \<circ> snd (take_turns jobs ts (w, \<lambda>i. Waiting))) cs)"
    using assms serial_turns [of p key K jobs ts "\<lambda>i. Waiting" cs None w s] by (simp add: sharing_def)
  then show ?thesis by (auto simp: answers_def assms(5,7) o_def)
qed

text \<open>Calls of which all have read before the first one writes.\<close>

lemma all_read:
  assumes "rel p key w s" and "\<And>u. t_wall (now w) \<le> u \<Longrightarrow> fst (step p u s)" and "\<And>i. i < n \<Longrightarrow> jobs i = (limiter p, key)"
  obtains w' pc where "take_turns jobs (map Turn [0..<n]) (w, \<lambda>i. Waiting) = (w', pc)"
    and "rel p key w' s" and "t_wall (now w) \<le> t_wall (now w')"
    and "\<And>i. i < n \<Longrightarrow> \<exists>t s' c. pc i = Within t True c \<and> due p key w' s' c" and "\<And>i. n \<le> i \<Longrightarrow> pc i = Waiting"
  using assms(3)
proof (induction n arbitrary: thesis)
  case 0
  then show ?case using assms(1) by simp
next
  case (Suc n)
  obtain w1 pc where IH: "take_turns jobs (map Turn [0..<n]) (w, \<lambda>i. Waiting) = (w1, pc)" "rel p key w1 s"
    "t_wall (now w) \<le> t_wall (now w1)" "\<And>i. i < n \<Longrightarrow> \<exists>t s' c. pc i = Within t True c \<and> due p key w1 s' c"
    "\<And>i. n \<le> i \<Longrightarrow> pc i = Waiting"
    using Suc.IH Suc.prems(2) by (metis less_SucI)
  obtain u w2 c where u: "t_wall (now w1) \<le> u" "u \<le> t_wall (now w2)"
    and turn: "client_turn jobs n (w1, pc) =
      (w2, pc(n := Within (t_wall (now w1), t_wall (now w2)) (fst (step p u s)) c))"
    and due: "due p key w2 (snd (step p u s)) c"
    by (rule first_turn [where jobs = jobs and i = n and pc = pc, OF IH(2) Suc.prems(2) [of n] IH(5)]) simp_all
  let ?pc = "pc(n := Within (t_wall (now w1), t_wall (now w2)) (fst (step p u s)) c)"
  have ok: "fst (step p u s)" using assms(2) IH(3) u(1) by simp
  have w2: "snd (lim_read (limiter p) key w1) = w2"
    using turn IH(5) [of n] Suc.prems(2) [of n]
    by (auto simp: client_turn_def split: prod.splits sum.splits outcome.splits)
  have und: "undisturbed lookup k w1 w2" for k
    using lim_read_undisturbed [OF on_store, of k w1 p key] by (simp add: w2)
  have "quiet lookup (lim_state_key (limiter p) key) (\<lambda>w. snd (lim_read (limiter p) key w))"
    by (intro quietI lim_read_undisturbed on_store)
  from rel_quiet [OF this IH(2)] have "rel p key w2 s" by (simp add: w2)
  moreover have later: "due p key w2 s' c'" if "due p key w1 s' c'" for s' c'
    using due_later [OF that] und by (simp add: undisturbed_def)
  have "\<exists>t s' c'. ?pc i = Within t True c' \<and> due p key w2 s' c'" if i: "i < Suc n" for i
  proof (cases "i = n")
    case True
    then show ?thesis using due ok by auto
  next
    case False
    then obtain t s' c' where "pc i = Within t True c'" "due p key w1 s' c'" using IH(4) [of i] i by auto
    with False later show ?thesis by (intro exI [of _ t] exI [of _ s'] exI [of _ c']) simp
  qed
  moreover have "t_wall (now w) \<le> t_wall (now w2)" using IH(3) u by simp
  ultimately show ?case
    using IH(1,5) turn by (intro Suc.prems(1) [of w2 ?pc]) (simp_all add: take_turns_append fun_eq_iff)
qed

lemma all_write:
  assumes "\<And>i. i < n \<Longrightarrow> \<exists>t s' c. pc i = Within t True c \<and> due p key w s' c"
  obtains w' pc' where "take_turns jobs (map Turn [0..<n]) (w, pc) = (w', pc')"
    and "w_clock w' = w_clock w" and "w_reads w \<le> w_reads w'"
    and "\<And>i. i < n \<Longrightarrow> \<exists>t. pc' i = Answered t True None" and "\<And>i. n \<le> i \<Longrightarrow> pc' i = pc i"
  using assms
proof (induction n arbitrary: thesis)
  case 0
  then show ?case by simp
next
  case (Suc n)
  obtain w1 pc1 where IH: "take_turns jobs (map Turn [0..<n]) (w, pc) = (w1, pc1)"
    "w_clock w1 = w_clock w" "w_reads w \<le> w_reads w1"
    "\<And>i. i < n \<Longrightarrow> \<exists>t. pc1 i = Answered t True None" "\<And>i. n \<le> i \<Longrightarrow> pc1 i = pc i"
    using Suc.IH Suc.prems(2) by (metis less_SucI)
  obtain t s' c where "pc n = Within t True c" "due p key w s' c" using Suc.prems(2) [of n] by blast
  then have c: "pc1 n = Within t True c" "due p key w1 s' c" using IH(5) [of n] due_later [OF _ IH(2,3)] by simp_all
  obtain w2 where w2: "lim_write True c w1 = ((True, None), w2)" "w_clock w2 = w_clock w1" "w_reads w1 \<le> w_reads w2"
    using write_due [OF c(2)] by blast
  have "client_turn jobs n (w1, pc1) = (w2, pc1(n := Answered t True None))"
    using w2(1) c(1) by (simp add: client_turn_def)
  moreover have "\<exists>t'. (pc1(n := Answered t True None)) i = Answered t' True None" if "i < Suc n" for i
    using that IH(4) [of i] by (cases "i = n") (auto simp: less_Suc_eq)
  ultimately show ?case
    using IH(1-3,5) w2(2,3) by (intro Suc.prems(1) [of w2 "pc1(n := Answered t True None)"]) (simp_all add: take_turns_append fun_eq_iff)
qed

lemma all_allowed:
  assumes "rel p key w s" and "\<And>u. t_wall (now w) \<le> u \<Longrightarrow> fst (step p u s)" and "i < n"
  shows "\<exists>t. snd (take_turns (\<lambda>i. (limiter p, key)) (map Turn ([0..<n] @ [0..<n])) (w, \<lambda>i. Waiting)) i =
    Answered t True None"
proof -
  let ?run = "take_turns (\<lambda>i. (limiter p, key)) (map Turn [0..<n])"
  obtain w1 pc1 where read: "?run (w, \<lambda>i. Waiting) = (w1, pc1)"
    "\<And>i. i < n \<Longrightarrow> \<exists>t s' c. pc1 i = Within t True c \<and> due p key w1 s' c"
    by (rule all_read [where n = n and jobs = "\<lambda>i. (limiter p, key)", OF assms(1,2)]) simp_all
  obtain w2 pc2 where "?run (w1, pc1) = (w2, pc2)" "\<And>i. i < n \<Longrightarrow> \<exists>t. pc2 i = Answered t True None"
    by (rule all_write [where n = n and jobs = "\<lambda>i. (limiter p, key)", OF read(2)]) blast+
  with read(1) assms(3) show ?thesis by (simp add: take_turns_append)
qed

end

section \<open>The clients of a configuration\<close>

text \<open>The buckets allow the first call.\<close>

lemma lb_fresh_allows:
  assumes "0 < sint m" and "lb_rel lookup m r d key w (0, t_wall (w_clock w 0))" and "t_wall (now w) \<le> u"
  shows "fst (leak_step (sint m) (sint r) (sint d) u (0, t_wall (w_clock w 0)))"
proof -
  have rng: "lb_range (w_clock w) m r d" using assms(2) by (simp add: lb_rel_def)
  have "t_wall (w_clock w 0) \<le> t_wall (now w)" using lb_rangeD(8) [OF rng] by (simp add: now_def)
  then show ?thesis
    using assms(1,3) lb_rangeD(3,4) [OF rng] by (simp add: leak_step_def Let_def pos_imp_zdiv_nonneg_iff)
qed

lemma tb_fresh_allows:
  assumes "1 \<le> m" and "tb_rel lookup m r d key w (m, v)"
  shows "fst (token_step m r (sint d) u (m, v))"
proof -
  have "token_param m" "0 \<le> r" using assms(2) tb_rangeD(2,3) by (auto simp: tb_rel_def token_param_def)
  then show ?thesis using assms(1) by (simp add: token_step_def Let_def tb_fresh_refill)
qed

context string_store
begin

lemma serial_calls:
  assumes "well_configured cfg" and "config_range cfg (w_clock w)"
    and "\<forall>j \<in> client_keys key. holds lookup w j []" and "make_limiter st cfg = Inr l"
    and "\<forall>i. if K i then jobs i = (l, key)
      else lim_store (fst (jobs i)) = st \<and> lim_state_key (fst (jobs i)) (snd (jobs i)) \<noteq> lim_state_key l key"
    and "\<forall>g. Meanwhile g \<in> set ts \<longrightarrow> quiet lookup (lim_state_key l key) g"
    and "turns_of K ts = in_pairs cs" and "distinct cs"
    and "ds = map (decision \<circ> snd (take_turns jobs ts (w, \<lambda>i. Waiting))) cs"
  shows "\<exists>us. sorted us \<and> inside ds us \<and>
    map snd ds = map (\<lambda>ok. Some (ok, None)) (config_run cfg (t_wall (w_clock w 0)) us)"
proof -
  have start: "holds lookup w (lim_state_key l key) []" for l :: "'a rate_limiter"
    using assms(3) client_keysI(3) by blast
  show ?thesis
    using assms(1,2) start
  proof (cases rule: config_start)
    case (fixed m d)
    then have l: "l = (case (m, d) of (m, d) \<Rightarrow> FixedWindow (new_fixed_window st m d))" using assms(4) by simp
    show ?thesis by (rule fws.serial_answers [OF assms(5-9) [unfolded l]]) (use fixed in simp_all)
  next
    case (sliding m d)
    then have l: "l = (case (m, d) of (m, d) \<Rightarrow> SlidingWindow (new_sliding_window st m d))" using assms(4) by simp
    show ?thesis by (rule sws.serial_answers [OF assms(5-9) [unfolded l]]) (use sliding in simp_all)
  next
    case (leaky m r d)
    then have l: "l = (case (m, r, d) of (m, r, d) \<Rightarrow> LeakyBucket (new_leaky_bucket st m r d))" using assms(4) by simp
    show ?thesis by (rule lbs.serial_answers [OF assms(5-9) [unfolded l]]) (use leaky in simp_all)
  next
    case (token m r d)
    then have l: "l = (case (m, r, d) of (m, r, d) \<Rightarrow> TokenBucket (tb_of st r d m))" using assms(4) by simp
    show ?thesis by (rule tbs.serial_answers [OF assms(5-9) [unfolded l]]) (use token in simp_all)
  qed
qed

text \<open>In a world in which the key has not been used, every one of the four allows the next call.\<close>

lemma overlapping_calls:
  assumes "well_configured cfg" and "config_range cfg (w_clock w)"
    and "\<forall>j \<in> client_keys key. holds lookup w j []" and "make_limiter st cfg = Inr l" and "i < n"
  shows "\<exists>t. snd (take_turns (\<lambda>i. (l, key)) (map Turn ([0..<n] @ [0..<n])) (w, \<lambda>i. Waiting)) i = Answered t True None"
proof -
  have start: "holds lookup w (lim_state_key l key) []" for l :: "'a rate_limiter"
    using assms(3) client_keysI(3) by blast
  show ?thesis
    using assms(1,2) start
  proof (cases rule: config_start)
    case (fixed m d)
    have "fst (window_step (sint m) (sint d) u (0, 0))" for u using fixed(2) by (cases "0 \<le> u") simp_all
    then show ?thesis
      using fws.all_allowed [of "(m, d)" key w "(0, 0)" i n] fixed assms(4,5) by simp
  next
    case (sliding m d)
    have "fst (log_step (sint m) (sint d) u [])" for u using sliding(2) by (simp add: log_step_fst)
    then show ?thesis
      using sws.all_allowed [of "(m, d)" key w "[]" i n] sliding assms(4,5) by simp
  next
    case (leaky m r d)
    then show ?thesis
      using lbs.all_allowed [of "(m, r, d)" key w "(0, t_wall (w_clock w 0))" i n] lb_fresh_allows [OF leaky(2,3)]
        assms(4,5) by simp
  next
    case (token m r d)
    then show ?thesis
      using tbs.all_allowed [of "(m, r, d)" key w "(m, t_wall (w_clock w 0))" i n] tb_fresh_allows [OF token(2,3)]
        assms(4,5) by simp
  qed
qed

end

section \<open>Properties\<close>

text \<open>
  Clients that call \<open>Allow\<close> of the limiter of a configuration with one key, in whatever servers
  they are, on one Redis: if each finishes its call before the next begins, their decisions are
  those of the specification of the algorithm, each at an instant within its call, with no error.
  What clients of other keys and other algorithms do, calls in the middle of these calls
  included, changes nothing.
\<close>

theorem serial_calls_keep_limit:
  assumes "redis_serves c lookup alive" and "well_configured cfg" and "config_range cfg (w_clock w)"
    and "\<forall>j \<in> client_keys key. holds lookup w j []" and "make_limiter (redis_ops c) cfg = Inr l"
    and "\<forall>i. if K i then jobs i = (l, key)
      else lim_store (fst (jobs i)) = redis_ops c \<and>
        lim_state_key (fst (jobs i)) (snd (jobs i)) \<noteq> lim_state_key l key"
    and "\<forall>g. Meanwhile g \<in> set ts \<longrightarrow> quiet lookup (lim_state_key l key) g"
    and "turns_of K ts = in_pairs cs" and "distinct cs"
    and "ds = map (decision \<circ> snd (take_turns jobs ts (w, \<lambda>i. Waiting))) cs"
  shows "\<exists>us. sorted us \<and> inside ds us \<and>
    map snd ds = map (\<lambda>ok. Some (ok, None)) (config_run cfg (t_wall (w_clock w 0)) us)"
  by (rule string_store.serial_calls [OF redis_string_store [OF assms(1)] assms(2-)])

text \<open>Three clients of \<open>u\<close> and one of \<open>v\<close>, whose two turns are within the calls of two others.\<close>

definition demo_jobs :: "nat \<Rightarrow> redis_map rate_limiter \<times> string" where
  "demo_jobs i = (demo_limiter, if i < 3 then ''u'' else ''v'')"

definition demo_turns :: "redis_map turn list" where
  "demo_turns = [Turn 0, Turn 3, Turn 0, Turn 1, Meanwhile (skip 5), Turn 3, Turn 1, Turn 2, Turn 2]"

theorem serial_calls_keep_limit_witness:
  "\<exists>us. length us = 3 \<and> sorted us \<and>
    map (snd \<circ> decision \<circ> snd (take_turns demo_jobs demo_turns (demo_world, \<lambda>i. Waiting))) [0, 1, 2] =
      map (\<lambda>ok. Some (ok, None)) (config_run (demo_config algorithm_fixed_window) 0 us)"
proof -
  let ?ds = "map (decision \<circ> snd (take_turns demo_jobs demo_turns (demo_world, \<lambda>i. Waiting))) [0, 1, 2]"
  have "\<exists>us. sorted us \<and> inside ?ds us \<and> map snd ?ds =
      map (\<lambda>ok. Some (ok, None)) (config_run (demo_config algorithm_fixed_window) (t_wall (w_clock demo_world 0)) us)"
  proof (rule serial_calls_keep_limit [OF map_client_serves])
    show "well_configured (demo_config algorithm_fixed_window)" by (rule demo_valid) simp
    show "config_range (demo_config algorithm_fixed_window) (w_clock demo_world)" by (simp add: demo_ranges)
    show "\<forall>j \<in> client_keys ''u''. holds map_lookup demo_world j []" using demo_nothing by blast
    show "make_limiter (redis_ops map_client) (demo_config algorithm_fixed_window) = Inr demo_limiter" by (rule demo_limiter)
    show "\<forall>i. if i < 3 then demo_jobs i = (demo_limiter, ''u'')
        else lim_store (fst (demo_jobs i)) = redis_ops map_client \<and>
          lim_state_key (fst (demo_jobs i)) (snd (demo_jobs i)) \<noteq> lim_state_key demo_limiter ''u''"
      by (simp add: demo_jobs_def fw_state_key_def)
    show "\<forall>g. Meanwhile g \<in> set demo_turns \<longrightarrow> quiet map_lookup (lim_state_key demo_limiter ''u'') g"
      by (simp add: demo_turns_def)
    show "turns_of (\<lambda>i. i < 3) demo_turns = in_pairs [0, 1, 2]" by (simp add: demo_turns_def)
  qed simp_all
  then obtain us where us: "sorted us" "inside ?ds us" "map snd ?ds =
      map (\<lambda>ok. Some (ok, None)) (config_run (demo_config algorithm_fixed_window) 0 us)"
    by (auto simp: demo_clock_def ramp_clock_def)
  have "length us = 3" using inside_length [OF us(2)] by simp
  with us(1,3) show ?thesis by (intro exI [of _ us]) (simp add: comp_assoc)
qed

text \<open>
  Any number of clients can be allowed at once, without an error, by a limiter of any of the four
  algorithms on a key that has not been used, whatever the limit: each reads the state before any of
  them writes it, and no turn of anybody takes an answer back.
\<close>

theorem overlapping_calls_exceed:
  assumes "redis_serves c lookup alive" and "well_configured cfg" and "config_range cfg (w_clock w)"
    and "\<forall>j \<in> client_keys key. holds lookup w j []" and "make_limiter (redis_ops c) cfg = Inr l" and "i < n"
  shows "\<exists>t. \<forall>ts. snd (take_turns (\<lambda>i. (l, key)) (map Turn ([0..<n] @ [0..<n]) @ ts) (w, \<lambda>i. Waiting)) i =
    Answered t True None"
proof -
  obtain t where "snd (take_turns (\<lambda>i. (l, key)) (map Turn ([0..<n] @ [0..<n])) (w, \<lambda>i. Waiting)) i = Answered t True None"
    using string_store.overlapping_calls [OF redis_string_store [OF assms(1)] assms(2-6)] by blast
  then show ?thesis by (intro exI [of _ t]) (simp add: take_turns_append answered_stays)
qed

text \<open>A token bucket with two tokens, and six clients.\<close>

theorem overlapping_calls_exceed_witness:
  "\<exists>l. make_limiter (redis_ops map_client) (demo_config algorithm_token_bucket) = Inr l \<and>
    (\<forall>i < 6. snd (decision (snd (take_turns (\<lambda>i. (l, ''u'')) (map Turn ([0..<6] @ [0..<6])) (demo_world, \<lambda>i. Waiting)) i)) =
      Some (True, None))"
proof -
  obtain l where l: "make_limiter (redis_ops map_client) (demo_config algorithm_token_bucket) = Inr l"
    by (simp add: make_limiter_def Let_def algorithm_defs)
  have w: "well_configured (demo_config algorithm_token_bucket)" by (rule demo_valid) simp
  have c: "config_range (demo_config algorithm_token_bucket) (w_clock demo_world)" by (simp add: demo_ranges)
  have h: "\<forall>j \<in> client_keys ''u''. holds map_lookup demo_world j []" using demo_nothing by blast
  have "snd (decision (snd (take_turns (\<lambda>i. (l, ''u'')) (map Turn ([0..<6] @ [0..<6])) (demo_world, \<lambda>i. Waiting)) i)) =
      Some (True, None)" if i: "i < 6" for i
  proof -
    obtain t where "\<forall>ts. snd (take_turns (\<lambda>i. (l, ''u'')) (map Turn ([0..<6] @ [0..<6]) @ ts) (demo_world, \<lambda>i. Waiting)) i =
        Answered t True None"
      using overlapping_calls_exceed [OF map_client_serves w c h l i] by blast
    from spec [OF this, of "[]"] show ?thesis by (cases t) simp
  qed
  with l show ?thesis by blast
qed

end
