(* ===== verification/ServiceTurns.thy ===== *)
theory ServiceTurns
  imports Interleaving
begin

text \<open>
  \<open>CheckLimit\<close> of servers that work on many requests at once. A check is divided into three turns:
  it reads the configuration and finds the limiter; the limiter reads the state of the key; the
  limiter writes it back, and the response is computed. The turns of any number of checks, on any
  number of servers with one store, come in any order, with other requests and other activity
  in between.
\<close>

section \<open>A check in three turns\<close>

definition check_begin ::
    "'s rate_limit_service \<Rightarrow> string \<Rightarrow> 's world \<Rightarrow>
     (go_error + rate_limit_config \<times> 's rate_limiter) outcome \<times> 's rate_limit_service \<times> 's world" where
  "check_begin s key w = (case get_config s key w of
      (Inl err, w) \<Rightarrow> (Returns (Inl err), s, w)
    | (Inr config, w) \<Rightarrow>
        (case get_or_create_limiter s (limiter_key key (cfg_algorithm config)) config of
           (Panics p, s) \<Rightarrow> (Panics p, s, w)
         | (Returns (Inl err), s) \<Rightarrow> (Returns (Inl err), s, w)
         | (Returns (Inr rl), s) \<Rightarrow> (Returns (Inr (config, rl)), s, w)))"

definition check_end :: "rate_limit_config \<Rightarrow> bool \<Rightarrow> 's open_call \<Rightarrow> 's world \<Rightarrow> check_result \<times> 's world" where
  "check_end config ok c w = (case lim_write ok c w of
      ((allowed, err), w) \<Rightarrow> limit_response config allowed err w)"

lemma check_limit_turns:
  "check_limit s key w = (case check_begin s key w of
      (Panics p, s, w) \<Rightarrow> (Panics p, s, w)
    | (Returns (Inl err), s, w) \<Rightarrow> (Returns (Inl err), s, w)
    | (Returns (Inr (config, rl)), s, w) \<Rightarrow> (case lim_read rl key w of
          (Panics p, w) \<Rightarrow> (Panics p, s, w)
        | (Returns (Inl err), w) \<Rightarrow> (case limit_response config True (Some err) w of (r, w) \<Rightarrow> (r, s, w))
        | (Returns (Inr (ok, c)), w) \<Rightarrow> (case check_end config ok c w of (r, w) \<Rightarrow> (r, s, w))))"
  by (simp add: check_limit_def check_begin_def check_end_def lim_allow_steps
      split: prod.split sum.split outcome.split)

text \<open>
  Where a check is; the pair of integers is the wall clock before and after the turn in which the
  limiter reads.
\<close>

datatype 's check =
    Received
  | Configured rate_limit_config "'s rate_limiter"
  | Decided "int \<times> int" rate_limit_config bool "'s open_call"
  | Replied "int \<times> int" check_result

type_synonym ('i, 's) servers = "('i \<Rightarrow> 's rate_limit_service) \<times> 's world \<times> (nat \<Rightarrow> 's check)"

text \<open>The check with the number \<open>j\<close> is one of the server \<open>fst (jobs j)\<close> for the key \<open>snd (jobs j)\<close>.\<close>

definition check_turn :: "(nat \<Rightarrow> 'i \<times> string) \<Rightarrow> nat \<Rightarrow> ('i, 's) servers \<Rightarrow> ('i, 's) servers" where
  "check_turn jobs j x = (case x of (ss, w, pc) \<Rightarrow> (case pc j of
      Received \<Rightarrow> (case check_begin (ss (fst (jobs j))) (snd (jobs j)) w of (r, s', w') \<Rightarrow>
        (ss(fst (jobs j) := s'), w', pc(j := (case r of
            Panics p \<Rightarrow> Replied (t_wall (now w), t_wall (now w')) (Panics p)
          | Returns (Inl err) \<Rightarrow> Replied (t_wall (now w), t_wall (now w')) (Returns (Inl err))
          | Returns (Inr (cfg, rl)) \<Rightarrow> Configured cfg rl))))
    | Configured cfg rl \<Rightarrow> (case lim_read rl (snd (jobs j)) w of
          (Panics p, w') \<Rightarrow> (ss, w', pc(j := Replied (t_wall (now w), t_wall (now w')) (Panics p)))
        | (Returns (Inl err), w') \<Rightarrow> (case limit_response cfg True (Some err) w' of
              (r, w'') \<Rightarrow> (ss, w'', pc(j := Replied (t_wall (now w), t_wall (now w')) r)))
        | (Returns (Inr (ok, c)), w') \<Rightarrow>
            (ss, w', pc(j := Decided (t_wall (now w), t_wall (now w')) cfg ok c)))
    | Decided t cfg ok c \<Rightarrow> (case check_end cfg ok c w of (r, w') \<Rightarrow> (ss, w', pc(j := Replied t r)))
    | Replied t r \<Rightarrow> (ss, w, pc)))"

text \<open>What happens: a turn of a check, a request served as a whole, or anything else.\<close>

datatype ('i, 's) event = CheckTurn nat | Whole 'i request | Elapse "'s world \<Rightarrow> 's world"

fun happen :: "(nat \<Rightarrow> 'i \<times> string) \<Rightarrow> ('i, 's) event \<Rightarrow> ('i, 's) servers \<Rightarrow> ('i, 's) servers" where
  "happen jobs (CheckTurn j) x = check_turn jobs j x"
| "happen jobs (Whole i r) (ss, w, pc) = (case serve r (ss i, w) of (s', w') \<Rightarrow> (ss(i := s'), w', pc))"
| "happen jobs (Elapse g) (ss, w, pc) = (ss, g w, pc)"

abbreviation happens :: "(nat \<Rightarrow> 'i \<times> string) \<Rightarrow> ('i, 's) event list \<Rightarrow> ('i, 's) servers \<Rightarrow> ('i, 's) servers" where
  "happens jobs \<equiv> fold (happen jobs)"

abbreviation check_at :: "('i, 's) servers \<Rightarrow> nat \<Rightarrow> 's check" where
  "check_at x \<equiv> snd (snd x)"

text \<open>The turns of some of the checks, and turns that come in threes.\<close>

fun turns_among :: "(nat \<Rightarrow> bool) \<Rightarrow> ('i, 's) event list \<Rightarrow> nat list" where
  "turns_among P [] = []"
| "turns_among P (CheckTurn j # es) = (if P j then j # turns_among P es else turns_among P es)"
| "turns_among P (_ # es) = turns_among P es"

definition in_threes :: "nat list \<Rightarrow> nat list" where
  "in_threes js = concat (map (\<lambda>j. [j, j, j]) js)"

lemma in_threes_simps [simp]: "in_threes [] = []" "in_threes (j # js) = j # j # j # in_threes js"
  by (simp_all add: in_threes_def)

fun reply :: "'s check \<Rightarrow> (int \<times> int) \<times> bool option" where
  "reply (Replied t r) = (t, verdict r)"
| "reply _ = ((0, 0), None)"

text \<open>A check of which nothing else happens in the middle is \<open>CheckLimit\<close>.\<close>

lemma check_alone:
  assumes "pc j = Received" and "check_limit (ss (fst (jobs j))) (snd (jobs j)) w = (r, s', w')"
  shows "\<exists>t pc'. happens jobs [CheckTurn j, CheckTurn j, CheckTurn j] (ss, w, pc) = (ss(fst (jobs j) := s'), w', pc') \<and>
    pc' j = Replied t r"
  using assms by (auto simp: check_turn_def check_limit_turns split: prod.splits sum.splits outcome.splits)

lemma check_turn_other [simp]: "i \<noteq> j \<Longrightarrow> check_at (check_turn jobs j x) i = check_at x i"
  by (auto simp: check_turn_def split: prod.split check.split sum.split outcome.split)

lemma replied_turn [simp]: "check_at x j = Replied t r \<Longrightarrow> check_turn jobs j x = x"
  by (simp add: check_turn_def split_beta)

lemma replied_happens: "check_at x j = Replied t r \<Longrightarrow> check_at (happens jobs es x) j = Replied t r"
proof (induction es arbitrary: x)
  case (Cons e es)
  have "check_at (happen jobs e x) j = Replied t r"
  proof (cases e)
    case (CheckTurn i)
    then show ?thesis using Cons.prems by (cases "i = j") simp_all
  qed (use Cons.prems in \<open>cases x; simp split: prod.split\<close>)+
  then show ?case using Cons.IH by simp
qed simp

section \<open>What the turns of a check keep\<close>

lemma check_begin_service:
  assumes "sound_service s" and "check_begin s key w = (r, s', w')"
  shows "sound_service s' \<and> rls_store s' = rls_store s \<and>
    (\<forall>cfg l. r = Returns (Inr (cfg, l)) \<longrightarrow> lim_store l = rls_store s)"
  using assms get_or_create_sound [OF assms(1)]
  by (auto simp: check_begin_def split: prod.splits sum.splits outcome.splits)

lemma check_begin_uses:
  assumes "check_begin s k w = (r, s', w')" and "k \<noteq> key" and "cfg_algorithm cfg \<in> set valid_algorithms"
    and "uses s key cfg l"
  shows "uses s' key cfg l"
  using assms cached_uses [of s k _ _ _ key cfg l]
  by (auto simp: check_begin_def split: prod.splits sum.splits outcome.splits)

lemma check_begin_world: "snd (snd (check_begin s key w)) = snd (get_config s key w)"
  by (simp add: check_begin_def split: prod.split sum.split outcome.split)

lemma check_turn_service:
  assumes "sound_service (ss (fst (jobs j)))"
  shows "sound_service (fst (check_turn jobs j (ss, w, pc)) (fst (jobs j))) \<and>
    rls_store (fst (check_turn jobs j (ss, w, pc)) (fst (jobs j))) = rls_store (ss (fst (jobs j)))"
  using assms check_begin_service [OF assms]
  by (auto simp: check_turn_def split: prod.split check.split sum.split outcome.split)

lemma check_turn_others: "i \<noteq> fst (jobs j) \<Longrightarrow> fst (check_turn jobs j (ss, w, pc)) i = ss i"
  by (auto simp: check_turn_def split: prod.split check.split sum.split outcome.split)

lemma check_turn_uses:
  assumes "snd (jobs j) \<noteq> key" and "cfg_algorithm cfg \<in> set valid_algorithms"
    and "uses (ss (fst (jobs j))) key cfg l"
  shows "uses (fst (check_turn jobs j (ss, w, pc)) (fst (jobs j))) key cfg l"
  using assms check_begin_uses [OF _ assms]
  by (auto simp: check_turn_def split: prod.split check.split sum.split outcome.split)

lemma call_key_not_config: "call_key c \<noteq> config_key key"
  by (cases c) (simp_all add: tb_state_key_def sw_state_key_def fw_state_key_def lb_state_key_def config_key_def)

text \<open>In the middle of a check, its limiter and its open call are on the store and for its key.\<close>

definition own_calls :: "'s store_ops \<Rightarrow> (nat \<Rightarrow> 'i \<times> string) \<Rightarrow> (nat \<Rightarrow> 's check) \<Rightarrow> bool" where
  "own_calls st jobs pc \<longleftrightarrow> (\<forall>j. case pc j of
      Configured cfg l \<Rightarrow> lim_store l = st
    | Decided t cfg ok c \<Rightarrow> call_store c = st \<and> call_key c \<in> client_keys (snd (jobs j))
    | _ \<Rightarrow> True)"

lemma own_calls_start [simp]: "own_calls st jobs (\<lambda>j. Received)"
  by (simp add: own_calls_def)

lemma own_calls_update:
  assumes "own_calls st jobs pc" and "case x of Configured cfg l \<Rightarrow> lim_store l = st
    | Decided t cfg ok c \<Rightarrow> call_store c = st \<and> call_key c \<in> client_keys (snd (jobs j)) | _ \<Rightarrow> True"
  shows "own_calls st jobs (pc(j := x))"
  using assms by (simp add: own_calls_def)

lemma own_calls_turn:
  assumes "own_calls st jobs pc" and "sound_service (ss (fst (jobs j)))" and "rls_store (ss (fst (jobs j))) = st"
  shows "own_calls st jobs (check_at (check_turn jobs j (ss, w, pc)))"
proof (cases "pc j")
  case Received
  obtain r s' w' where b: "check_begin (ss (fst (jobs j))) (snd (jobs j)) w = (r, s', w')" using prod_cases3 by blast
  have "lim_store l = st" if "r = Returns (Inr (cfg, l))" for cfg l
    using check_begin_service [OF assms(2) b] assms(3) that by blast
  then show ?thesis
    unfolding check_turn_def prod.case Received check.case b snd_conv
    by (intro own_calls_update [OF assms(1)]) (auto split: outcome.split sum.split)
next
  case (Configured cfg l)
  then have l: "lim_store l = st" using assms(1) by (auto simp: own_calls_def dest: spec [of _ j])
  obtain r w' where rd: "lim_read l (snd (jobs j)) w = (r, w')" by fastforce
  have "call_store c = st \<and> call_key c \<in> client_keys (snd (jobs j))" if "r = Returns (Inr (ok, c))" for ok c
    using lim_read_call [of l "snd (jobs j)" w ok c w'] rd that l by simp
  then show ?thesis
    using assms(1) by (auto simp: check_turn_def Configured rd intro!: own_calls_update split: outcome.split sum.split prod.split)
next
  case (Decided t cfg ok c)
  then show ?thesis using assms(1) by (auto simp: check_turn_def intro!: own_calls_update split: prod.split)
qed (use assms(1) in \<open>simp add: check_turn_def\<close>)

context string_store
begin

lemma check_end_undisturbed:
  assumes "call_store c = st" and "k \<noteq> call_key c"
  shows "undisturbed lookup k w (snd (check_end cfg ok c w))"
  using undisturbed_trans [OF lim_write_undisturbed [OF assms] limit_response_undisturbed]
  by (simp add: check_end_def split_beta)

lemma check_turn_undisturbed:
  assumes "own_calls st jobs pc" and "rls_store (ss (fst (jobs j))) = st" and "k \<notin> client_keys (snd (jobs j))"
  shows "undisturbed lookup k w (fst (snd (check_turn jobs j (ss, w, pc))))"
proof (cases "pc j")
  case Received
  have "undisturbed lookup k w (snd (snd (check_begin (ss (fst (jobs j))) (snd (jobs j)) w)))"
    using get_config_undisturbed [OF assms(2)] by (simp add: check_begin_world)
  with Received show ?thesis by (auto simp: check_turn_def split: prod.split)
next
  case (Configured cfg l)
  then have "lim_store l = st" using assms(1) by (auto simp: own_calls_def dest: spec [of _ j])
  note u = lim_read_undisturbed [OF this, of k w "snd (jobs j)"]
  with undisturbed_trans [OF u limit_response_undisturbed] Configured show ?thesis
    by (auto simp: check_turn_def split_beta split: prod.split sum.split outcome.split)
next
  case (Decided t cfg ok c)
  then have "call_store c = st" "k \<noteq> call_key c" using assms by (auto simp: own_calls_def dest: spec [of _ j])
  from check_end_undisturbed [OF this] Decided show ?thesis by (simp add: check_turn_def split_beta)
qed (simp add: check_turn_def)

end

section \<open>The checks of one key\<close>

text \<open>Between two checks of the key, after the first turn of one, or after the second.\<close>

datatype 's phase = AtRest | Begun nat | Halfway nat "int \<times> int" bool "'s open_call"

fun turns_left :: "'s phase \<Rightarrow> nat list \<Rightarrow> nat list" where
  "turns_left AtRest js = in_threes js"
| "turns_left (Begun j) js = j # j # in_threes js"
| "turns_left (Halfway j t ok c) js = j # in_threes js"

fun in_progress :: "'s phase \<Rightarrow> nat list" where
  "in_progress AtRest = []"
| "in_progress (Begun j) = [j]"
| "in_progress (Halfway j t ok c) = [j]"

fun undecided :: "'s phase \<Rightarrow> nat list" where
  "undecided (Begun j) = [j]"
| "undecided _ = []"

lemma turns_among_in: "j \<in> set (turns_among P es) \<Longrightarrow> P j"
  by (induction P es rule: turns_among.induct) (auto split: if_splits)

lemma set_turns_left: "set (turns_left x js) = set (in_progress x) \<union> set js"
  by (cases x) (auto simp: in_threes_def)

text \<open>
  What may happen beside the turns of the checks of a key: turns of other checks, whole requests
  about other keys, status requests, and what is quiet for the key.
\<close>

definition aside :: "('s \<Rightarrow> gotime \<Rightarrow> string \<Rightarrow> string) \<Rightarrow> string \<Rightarrow> ('i, 's) event \<Rightarrow> bool" where
  "aside lookup key e \<longleftrightarrow> (case e of
      CheckTurn j \<Rightarrow> True
    | Whole i r \<Rightarrow> r = StatusReq key \<or> request_key r \<noteq> key
    | Elapse g \<Rightarrow> \<forall>k \<in> client_keys key. quiet lookup k g)"

text \<open>
  A schedule with resets of the key, each while a check of the key has read and not yet written: \<open>n\<close>
  turns of a check of the key have been taken, and \<open>c\<close> says whether the key has its configuration. It
  is set again, as it was, before the next check of the key or the next reset.
\<close>

fun resets_inside ::
    "('s \<Rightarrow> gotime \<Rightarrow> string \<Rightarrow> string) \<Rightarrow> string \<Rightarrow> rate_limit_config \<Rightarrow> (nat \<Rightarrow> 'i \<times> string) \<Rightarrow> nat \<Rightarrow> bool \<Rightarrow>
     ('i, 's) event list \<Rightarrow> bool" where
  "resets_inside lookup key cfg jobs n c [] \<longleftrightarrow> True"
| "resets_inside lookup key cfg jobs n c (CheckTurn j # es) \<longleftrightarrow>
     (if snd (jobs j) = key then (n = 0 \<longrightarrow> c) \<and> resets_inside lookup key cfg jobs (if n = 2 then 0 else Suc n) c es
      else resets_inside lookup key cfg jobs n c es)"
| "resets_inside lookup key cfg jobs n c (Whole i r # es) \<longleftrightarrow>
     (if r = ResetReq key then n = 2 \<and> c \<and> resets_inside lookup key cfg jobs n False es
      else if r = SetReq key cfg then resets_inside lookup key cfg jobs n True es
      else aside lookup key (Whole i r :: ('i, 's) event) \<and> resets_inside lookup key cfg jobs n c es)"
| "resets_inside lookup key cfg jobs n c (Elapse g # es) \<longleftrightarrow>
     aside lookup key (Elapse g :: ('i, 's) event) \<and> resets_inside lookup key cfg jobs n c es"

text \<open>What the resets of the key return.\<close>

fun reset_answers :: "(nat \<Rightarrow> 'i \<times> string) \<Rightarrow> string \<Rightarrow> ('i, 's) event list \<Rightarrow> ('i, 's) servers \<Rightarrow> go_error option outcome list" where
  "reset_answers jobs key [] x = []"
| "reset_answers jobs key (e # es) x = (case e of
      Whole i r \<Rightarrow> if r = ResetReq key then [fst (reset_limit (fst x i) key (fst (snd x)))] else []
    | _ \<Rightarrow> []) @ reset_answers jobs key es (happen jobs e x)"

lemma aside_resets_inside: "\<forall>e \<in> set es. aside lookup key e \<Longrightarrow> resets_inside lookup key cfg jobs n True es"
proof (induction es arbitrary: n)
  case (Cons e es)
  then show ?case by (cases e) (auto simp: aside_def)
qed simp

fun turns_taken :: "'s phase \<Rightarrow> nat" where
  "turns_taken AtRest = 0"
| "turns_taken (Begun j) = 1"
| "turns_taken (Halfway j t ok c) = 2"

text \<open>A check that has decided to allow does allow, whatever happens until its last turn.\<close>

lemma lim_write_allowed: "\<exists>err w'. lim_write True c w = ((True, err), w')"
  by (cases c) (auto simp: tb_write_def sw_write_def fw_write_def lb_write_def split: prod.split sum.split option.split)

lemma decided_turn:
  assumes "pc j = Decided t cfg True c" and "cfg_window_seconds cfg \<noteq> 0"
  shows "\<exists>resp. check_at (check_turn jobs j (ss, w, pc)) j = Replied t (Returns (Inr resp)) \<and> clr_allowed resp"
proof -
  obtain err w' where "lim_write True c w = ((True, err), w')" using lim_write_allowed by blast
  then show ?thesis by (simp add: check_turn_def assms(1) check_end_def limit_response_eq [OF assms(2)])
qed

lemma decided_allowed:
  assumes "check_at x j = Decided t cfg True c" and "cfg_window_seconds cfg \<noteq> 0" and "CheckTurn j \<in> set es"
  shows "\<exists>resp. check_at (happens jobs es x) j = Replied t (Returns (Inr resp)) \<and> clr_allowed resp"
  using assms(1,3)
proof (induction es arbitrary: x)
  case (Cons e es)
  show ?case
  proof (cases "e = CheckTurn j")
    case True
    obtain ss w pc where x: "x = (ss, w, pc)" using prod_cases3 by blast
    obtain resp where "check_at (happen jobs e x) j = Replied t (Returns (Inr resp))" "clr_allowed resp"
      using decided_turn [of pc j t cfg c jobs ss w] Cons.prems(1) assms(2) x True by auto
    then show ?thesis using replied_happens [of "happen jobs e x" j t] by auto
  next
    case False
    then have "check_at (happen jobs e x) j = Decided t cfg True c"
      using Cons.prems(1) by (cases e; cases x) (auto split: prod.split)
    with Cons.IH Cons.prems(2) False show ?thesis by auto
  qed
qed simp

context specified_limiter
begin

definition serving :: "'p \<Rightarrow> string \<Rightarrow> rate_limit_config \<Rightarrow> ('i \<Rightarrow> 's rate_limit_service) \<Rightarrow> bool" where
  "serving p key cfg ss \<longleftrightarrow> (\<forall>i. sound_service (ss i) \<and> rls_store (ss i) = st \<and> uses (ss i) key cfg (limiter p))"

definition ready :: "'p \<Rightarrow> string \<Rightarrow> rate_limit_config \<Rightarrow> ('i \<Rightarrow> 's rate_limit_service) \<Rightarrow> 's world \<Rightarrow> bool" where
  "ready p key cfg ss w \<longleftrightarrow> holds lookup w (config_key key) (json_print (config_json cfg)) \<and>
     serving p key cfg ss"

lemma running_ready: "running p key cfg ss w s \<longleftrightarrow> rel p key w s \<and> ready p key cfg ss w"
  by (simp add: running_def ready_def serving_def)

lemma ready_later: "ready p key cfg ss w \<Longrightarrow> undisturbed lookup (config_key key) w w' \<Longrightarrow> ready p key cfg ss w'"
  by (simp add: ready_def undisturbed_holds)

lemma rel_undisturbed:
  assumes "rel p key w s" and "undisturbed lookup (lim_state_key (limiter p) key) w w'"
  shows "rel p key w' s"
proof -
  let ?g = "\<lambda>v. if v = w then w' else v"
  have "quiet lookup (lim_state_key (limiter p) key) ?g" using assms(2) by (intro quietI) simp
  from rel_quiet [OF this assms(1)] show ?thesis by simp
qed

lemma aside_keeps:
  assumes "serving p key cfg ss" and "cfg_algorithm cfg \<in> set valid_algorithms" and "own_calls st jobs pc"
    and "steady (w_clock w)" and "aside lookup key e" and "\<And>j. e = CheckTurn j \<Longrightarrow> snd (jobs j) \<noteq> key"
  obtains ss' w' pc' where "happen jobs e (ss, w, pc) = (ss', w', pc')" and "own_calls st jobs pc'"
    and "serving p key cfg ss'" and "\<And>k. k \<in> client_keys key \<Longrightarrow> undisturbed lookup k w w'"
    and "\<And>j. snd (jobs j) = key \<Longrightarrow> pc' j = pc j"
proof (cases e)
  case (CheckTurn j)
  obtain ss' w' pc' where x: "check_turn jobs j (ss, w, pc) = (ss', w', pc')" using prod_cases3 by blast
  have k: "snd (jobs j) \<noteq> key" using assms(6) CheckTurn by simp
  have srv: "sound_service (ss (fst (jobs j)))" "rls_store (ss (fst (jobs j))) = st" "uses (ss (fst (jobs j))) key cfg (limiter p)"
    using assms(1) by (simp_all add: serving_def)
  have und: "undisturbed lookup k w w'" if "k \<in> client_keys key" for k
    using check_turn_undisturbed [where ss = ss and jobs = jobs and j = j, OF assms(3) srv(2), of k w] client_keys_apart that k by (fastforce simp: x)
  have "sound_service (ss' i) \<and> rls_store (ss' i) = st \<and> uses (ss' i) key cfg (limiter p)" for i
  proof (cases "i = fst (jobs j)")
    case True
    then show ?thesis
      using check_turn_service [where ss = ss and jobs = jobs and j = j and w = w and pc = pc, OF srv(1)] srv(2)
        check_turn_uses [where ss = ss and jobs = jobs and j = j and w = w and pc = pc, OF k assms(2) srv(3)] by (simp add: x)
  next
    case False
    then have "ss' i = ss i" using check_turn_others [where ss = ss and jobs = jobs and j = j and w = w and pc = pc, OF False] by (simp add: x)
    then show ?thesis using assms(1) by (simp add: serving_def)
  qed
  then have "serving p key cfg ss'" by (simp add: serving_def)
  moreover have "own_calls st jobs pc'" using own_calls_turn [where ss = ss and j = j and w = w, OF assms(3) srv(1,2)] by (simp add: x)
  moreover have "pc' i = pc i" if "snd (jobs i) = key" for i
    using check_turn_other [of i j jobs "(ss, w, pc)"] that k by (cases "i = j") (simp_all add: x)
  ultimately show thesis using that und CheckTurn x by simp
next
  case (Whole i r)
  obtain s' w' where sv: "serve r (ss i, w) = (s', w')" by fastforce
  have r: "r = StatusReq key \<or> request_key r \<noteq> key" using assms(5) Whole by (simp add: aside_def)
  have srv: "sound_service (ss i)" "rls_store (ss i) = st" "uses (ss i) key cfg (limiter p)"
    using assms(1) by (simp_all add: serving_def)
  have und: "undisturbed lookup k w w'" if "k \<in> client_keys key" for k
  proof (cases "r = StatusReq key")
    case True
    then show ?thesis using get_status_undisturbed [OF srv(2), of k w key] sv by auto
  next
    case False
    then have "k \<notin> client_keys (request_key r)" using that r client_keys_apart by blast
    from serve_undisturbed [OF srv(1,2) this, of w] sv show ?thesis by simp
  qed
  have "sound_service s'" "rls_store s' = st" "uses s' key cfg (limiter p)"
    using serve_sound [of "(ss i, w)" r] serve_uses [OF srv(3) assms(2) r, of w] srv(1,2) sv by simp_all
  then have "serving p key cfg (ss(i := s'))" using assms(1) by (simp add: serving_def)
  then show thesis using that und assms(3) Whole sv by simp
next
  case (Elapse g)
  have und: "undisturbed lookup k w (g w)" if "k \<in> client_keys key" for k
    using assms(4,5) that Elapse by (auto simp: aside_def quiet_def undisturbed_def)
  then show thesis
    using that [of ss "g w" pc] Elapse assms(1,3) by simp
qed

text \<open>The three turns of a check of the key.\<close>

lemma turn_begins:
  assumes "running p key cfg ss w s" and "cfg_algorithm cfg \<in> set valid_algorithms"
    and "snd (jobs j) = key" and "pc j = Received"
  obtains ss' w' where "check_turn jobs j (ss, w, pc) = (ss', w', pc(j := Configured cfg (limiter p)))"
    and "running p key cfg ss' w' s" and "t_wall (now w) \<le> t_wall (now w')"
proof -
  let ?s = "ss (fst (jobs j))"
  have srv: "rls_store ?s = st" "uses ?s key cfg (limiter p)" "sound_service ?s"
    and held: "holds lookup w (config_key key) (json_print (config_json cfg))" and rel: "rel p key w s"
    using assms(1) by (simp_all add: running_def)
  obtain n where get: "get_config ?s key w = (Inr cfg, skip n w)" by (rule get_config_held [OF srv(1) held assms(2)])
  obtain s' where lim: "get_or_create_limiter ?s (limiter_key key (cfg_algorithm cfg)) cfg = (Returns (Inr (limiter p)), s')"
    "rls_store s' = rls_store ?s" "uses s' key cfg (limiter p)"
    using uses_limiter [OF srv(2)] by metis
  have "sound_service s'" using get_or_create_sound [OF srv(3) lim(1)] by simp
  then have "running p key cfg (ss(fst (jobs j) := s')) (skip n w) s"
    using assms(1) running_quiet(1) [OF assms(1), of "skip n"] lim(2,3) srv(1) by (simp add: running_def)
  moreover have "check_turn jobs j (ss, w, pc) =
      (ss(fst (jobs j) := s'), skip n w, pc(j := Configured cfg (limiter p)))"
    using assms(3,4) by (simp add: check_turn_def check_begin_def get lim(1))
  moreover have "t_wall (now w) \<le> t_wall (now (skip n w))" using running_quiet(2) [OF assms(1), of "skip n"] by simp
  ultimately show thesis using that by blast
qed

lemma turn_reads:
  assumes "rel p key w s" and "snd (jobs j) = key" and "pc j = Configured cfg (limiter p)"
  obtains t w' c where "t_wall (now w) \<le> t" and "t \<le> t_wall (now w')"
    and "check_turn jobs j (ss, w, pc) =
      (ss, w', pc(j := Decided (t_wall (now w), t_wall (now w')) cfg (fst (step p t s)) c))"
    and "due p key w' (snd (step p t s)) c" and "\<And>k. undisturbed lookup k w w'"
proof -
  obtain t w' c where t: "t_wall (now w) \<le> t" "t \<le> t_wall (now w')"
      "lim_read (limiter p) key w = (Returns (Inr (fst (step p t s), c)), w')" "due p key w' (snd (step p t s)) c"
    using read_due [OF assms(1)] by blast
  have und: "undisturbed lookup k w w'" for k using lim_read_undisturbed [OF on_store, of k w p key] t(3) by simp
  show thesis
    using that [OF t(1,2) _ t(4) und] t(3) assms(2,3) by (simp add: check_turn_def)
qed

lemma turn_writes:
  assumes "due p key w s c" and "cfg_window_seconds cfg \<noteq> 0" and "call_store c = st" and "pc j = Decided t cfg ok c"
  obtains w' resp where "check_turn jobs j (ss, w, pc) = (ss, w', pc(j := Replied t (Returns (Inr resp))))"
    and "clr_allowed resp = ok" and "rel p key w' s" and "undisturbed lookup (config_key key) w w'"
proof -
  obtain w1 where w1: "lim_write ok c w = ((ok, None), w1)" "rel p key w1 s"
    using write_due [OF assms(1)] by blast
  have turn: "check_turn jobs j (ss, w, pc) =
      (ss, skip 3 w1, pc(j := Replied t (Returns (Inr (response_of cfg ok (w_clock w1) (w_reads w1))))))"
    by (simp add: check_turn_def assms(4) check_end_def w1(1) limit_response_eq [OF assms(2)])
  have "rel p key (skip 3 w1) s" by (rule rel_quiet [OF quiet_skip w1(2)])
  moreover have "undisturbed lookup (config_key key) w w1"
    using lim_write_undisturbed [where w = w and ok = ok, OF assms(3) call_key_not_config [symmetric]] w1(1) by simp
  then have "undisturbed lookup (config_key key) w (skip 3 w1)" by (simp add: undisturbed_def)
  ultimately show thesis using that [OF turn] by simp
qed

lemma due_mono: "due p key w s c \<Longrightarrow> undisturbed lookup k w w' \<Longrightarrow> t_wall (now w) \<le> t_wall (now w')"
  using due_steady [of p key w s c] by (simp add: undisturbed_def now_def steady_mono)

definition at_phase ::
    "'p \<Rightarrow> string \<Rightarrow> rate_limit_config \<Rightarrow> (nat \<Rightarrow> 'i \<times> string) \<Rightarrow> bool \<Rightarrow> ('i, 's) servers \<Rightarrow> 'a \<Rightarrow> 's phase \<Rightarrow> bool" where
  "at_phase p key cfg jobs configured z s x \<longleftrightarrow> (case z of (ss, w, pc) \<Rightarrow> serving p key cfg ss \<and> own_calls st jobs pc \<and>
     (configured \<longrightarrow> holds lookup w (config_key key) (json_print (config_json cfg))) \<and> (case x of
      AtRest \<Rightarrow> rel p key w s
    | Begun j \<Rightarrow> rel p key w s \<and> pc j = Configured cfg (limiter p)
    | Halfway j t ok c \<Rightarrow> due p key w s c \<and> pc j = Decided t cfg ok c))"

lemma at_phase_steady: "at_phase p key cfg jobs b (ss, w, pc) s x \<Longrightarrow> steady (w_clock w)"
  by (cases x) (auto simp: at_phase_def rel_steady due_steady)

lemma at_phase_later:
  assumes "at_phase p key cfg jobs b (ss, w, pc) s x" and "serving p key cfg ss'" and "own_calls st jobs pc'"
    and "undisturbed lookup (lim_state_key (limiter p) key) w w'" and "\<And>j. j \<in> set (in_progress x) \<Longrightarrow> pc' j = pc j"
    and "b' \<Longrightarrow> holds lookup w' (config_key key) (json_print (config_json cfg))"
  shows "at_phase p key cfg jobs b' (ss', w', pc') s x" and "t_wall (now w) \<le> t_wall (now w')"
proof -
  have st: "steady (w_clock w)" using assms(1) by (rule at_phase_steady)
  have c: "w_clock w' = w_clock w" "w_reads w \<le> w_reads w'" using assms(4) by (simp_all add: undisturbed_def)
  then show "t_wall (now w) \<le> t_wall (now w')" using st by (simp add: now_def steady_mono)
  show "at_phase p key cfg jobs b' (ss', w', pc') s x"
    using assms(1-3,5,6) rel_undisturbed [OF _ assms(4)] due_later [OF _ c]
    by (cases x) (auto simp: at_phase_def)
qed

text \<open>What happens aside leaves the phase as it is.\<close>

lemma aside_phase:
  assumes "at_phase p key cfg jobs b (ss, w, pc) s x" and "cfg_algorithm cfg \<in> set valid_algorithms"
    and "aside lookup key e" and "\<And>j. e = CheckTurn j \<Longrightarrow> snd (jobs j) \<noteq> key"
    and "\<And>j. j \<in> set (in_progress x) \<Longrightarrow> snd (jobs j) = key"
  obtains ss' w' pc' where "happen jobs e (ss, w, pc) = (ss', w', pc')"
    and "at_phase p key cfg jobs b (ss', w', pc') s x" and "t_wall (now w) \<le> t_wall (now w')"
    and "\<And>j. snd (jobs j) = key \<Longrightarrow> pc' j = pc j"
proof -
  have st: "steady (w_clock w)" using assms(1) by (rule at_phase_steady)
  have h: "serving p key cfg ss" "own_calls st jobs pc" using assms(1) by (simp_all add: at_phase_def)
  obtain ss' w' pc' where z: "happen jobs e (ss, w, pc) = (ss', w', pc')" "own_calls st jobs pc'"
    "serving p key cfg ss'" "\<And>k. k \<in> client_keys key \<Longrightarrow> undisturbed lookup k w w'"
    "\<And>j. snd (jobs j) = key \<Longrightarrow> pc' j = pc j"
    using aside_keeps [OF h(1) assms(2) h(2) st assms(3,4)] by blast
  have u: "undisturbed lookup (lim_state_key (limiter p) key) w w'" and v: "undisturbed lookup (config_key key) w w'"
    using z(4) by simp_all
  have cfg: "holds lookup w' (config_key key) (json_print (config_json cfg))" if b
    using assms(1) that undisturbed_holds [OF v] by (simp add: at_phase_def)
  have pc: "pc' j = pc j" if "j \<in> set (in_progress x)" for j using z(5) assms(5) that by blast
  show thesis
    using that [OF z(1) at_phase_later [OF assms(1) z(3,2) u pc cfg]] z(5) by blast
qed

text \<open>So does setting the configuration as it was, and a reset halfway through a check.\<close>

definition settable :: "'p \<Rightarrow> string \<Rightarrow> rate_limit_config \<Rightarrow> bool" where
  "settable p key cfg \<longleftrightarrow> (\<forall>s w. rls_store s = st \<longrightarrow> (\<exists>w'. set_config s key cfg w = (None, w') \<and>
     holds lookup w' (config_key key) (json_print (config_json cfg)) \<and>
     undisturbed lookup (lim_state_key (limiter p) key) w w'))"

lemma set_phase:
  assumes "at_phase p key cfg jobs b (ss, w, pc) s x" and "settable p key cfg"
  obtains w' where "happen jobs (Whole i (SetReq key cfg)) (ss, w, pc) = (ss, w', pc)"
    and "at_phase p key cfg jobs True (ss, w', pc) s x" and "t_wall (now w) \<le> t_wall (now w')"
proof -
  have h: "serving p key cfg ss" "own_calls st jobs pc" using assms(1) by (simp_all add: at_phase_def)
  then have "rls_store (ss i) = st" by (simp add: serving_def)
  then obtain w' where w': "set_config (ss i) key cfg w = (None, w')"
      "holds lookup w' (config_key key) (json_print (config_json cfg))" "undisturbed lookup (lim_state_key (limiter p) key) w w'"
    using assms(2) unfolding settable_def by blast
  have "happen jobs (Whole i (SetReq key cfg)) (ss, w, pc) = (ss, w', pc)" by (simp add: w'(1))
  then show thesis using that at_phase_later [OF assms(1) h w'(3) refl w'(2)] by blast
qed

lemma reset_phase:
  assumes "at_phase p key cfg jobs True (ss, w, pc) s (Halfway j t ok c)" and "cfg_algorithm cfg \<in> set valid_algorithms"
  obtains ss' w' where "happen jobs (Whole i (ResetReq key)) (ss, w, pc) = (ss', w', pc)"
    and "fst (reset_limit (ss i) key w) = Returns None"
    and "at_phase p key cfg jobs False (ss', w', pc) s (Halfway j t ok c)" and "t_wall (now w) \<le> t_wall (now w')"
proof -
  have srv: "rls_store (ss i) = st" "uses (ss i) key cfg (limiter p)" "sound_service (ss i)" and all: "serving p key cfg ss"
    and held: "holds lookup w (config_key key) (json_print (config_json cfg))"
    and due: "due p key w s c" and pc: "own_calls st jobs pc" "pc j = Decided t cfg ok c"
    using assms(1) by (simp_all add: at_phase_def serving_def)
  obtain n where get: "get_config (ss i) key w = (Inr cfg, skip n w)" by (rule get_config_held [OF srv(1) held assms(2)])
  obtain s' where lim: "get_or_create_limiter (ss i) (limiter_key key (cfg_algorithm cfg)) cfg = (Returns (Inr (limiter p)), s')"
    "rls_store s' = rls_store (ss i)" "uses s' key cfg (limiter p)"
    using uses_limiter [OF srv(2)] by metis
  obtain w1 where "lim_reset (limiter p) key (skip n w) = (None, w1)"
    using lim_reset_clears [OF on_store] by metis
  then obtain w' where r: "reset_limit (ss i) key w = (Returns None, s', w')"
    by (simp add: reset_limit_def get lim(1) split_beta Let_def)
  have other: "config_key (CHR ''x'' # key) \<notin> client_keys key"
    using client_keys_apart [OF client_keysI(1)] by (metis not_Cons_self2)
  have und: "undisturbed lookup (config_key (CHR ''x'' # key)) w w'"
    using reset_limit_undisturbed [OF srv(3,1) other, of w] by (simp add: r)
  have "due p key w' s c" by (rule due_later [OF due]) (use und in \<open>simp_all add: undisturbed_def\<close>)
  moreover have "sound_service s'" using reset_limit_service [OF srv(3), of key w] by (simp add: r)
  then have "serving p key cfg (ss(i := s'))" using all lim(2,3) srv(1) by (simp add: serving_def)
  ultimately have "at_phase p key cfg jobs False (ss(i := s'), w', pc) s (Halfway j t ok c)"
    using pc by (simp add: at_phase_def)
  moreover have "happen jobs (Whole i (ResetReq key)) (ss, w, pc) = (ss(i := s'), w', pc)" by (simp add: r)
  ultimately show thesis using that due_mono [OF due und] r by simp
qed

text \<open>
  A schedule in which the turns of the checks of the key come in threes: every check answers what
  the specification decides at an instant while its limiter reads, and every reset succeeds.
\<close>

definition going_well ::
    "'p \<Rightarrow> string \<Rightarrow> (nat \<Rightarrow> 'i \<times> string) \<Rightarrow> ('i, 's) event list \<Rightarrow> ('i, 's) servers \<Rightarrow> 'a \<Rightarrow> 's phase \<Rightarrow> nat list \<Rightarrow> bool" where
  "going_well p key jobs es z s x js \<longleftrightarrow>
     answers Some p (fst (snd z)) s (map (reply \<circ> check_at (happens jobs es z)) (undecided x @ js)) \<and>
     (case x of Halfway j t ok c \<Rightarrow> reply (check_at (happens jobs es z) j) = (t, Some ok) | _ \<Rightarrow> True) \<and>
     list_all (\<lambda>a. a = Returns None) (reset_answers jobs key es z)"

lemma going_on:
  assumes "going_well p key jobs es (happen jobs e (ss, w, pc)) s x js"
    and "t_wall (now w) \<le> t_wall (now (fst (snd (happen jobs e (ss, w, pc)))))"
    and "\<And>i. e = Whole i (ResetReq key) \<Longrightarrow> fst (reset_limit (ss i) key w) = Returns None"
  shows "going_well p key jobs (e # es) (ss, w, pc) s x js"
proof -
  let ?z = "happen jobs e (ss, w, pc)"
  have run: "happens jobs (e # es) (ss, w, pc) = happens jobs es ?z" by simp
  have "list_all (\<lambda>a. a = Returns None) (reset_answers jobs key (e # es) (ss, w, pc))"
    using assms(1,3) by (cases e) (auto simp: going_well_def simp del: happen.simps)
  with assms(1) answers_later [OF _ assms(2)] show ?thesis unfolding going_well_def run fst_conv snd_conv by blast
qed

lemma serial_turn:
  assumes "cfg_algorithm cfg \<in> set valid_algorithms" and "cfg_window_seconds cfg \<noteq> 0"
    and at: "at_phase p key cfg jobs b (ss, w, pc) s x" and j: "snd (jobs j) = key"
    and "j # ts = turns_left x js" and "distinct (in_progress x @ js)" and "\<And>i. i \<in> set js \<Longrightarrow> pc i = Received"
    and "turns_taken x = 0 \<Longrightarrow> b"
    and on: "\<And>ss' w' pc' s' x' js'. ts = turns_left x' js' \<Longrightarrow> distinct (in_progress x' @ js') \<Longrightarrow>
      (\<And>i. i \<in> set js' \<Longrightarrow> pc' i = Received) \<Longrightarrow> at_phase p key cfg jobs b (ss', w', pc') s' x' \<Longrightarrow>
      turns_taken x' = (if turns_taken x = 2 then 0 else Suc (turns_taken x)) \<Longrightarrow>
      check_turn jobs j (ss, w, pc) = (ss', w', pc') \<Longrightarrow> going_well p key jobs es (ss', w', pc') s' x' js'"
  shows "going_well p key jobs (CheckTurn j # es) (ss, w, pc) s x js"
proof -
  have own: "own_calls st jobs pc" and srv: "serving p key cfg ss" using at by (simp_all add: at_phase_def)
  have own': "own_calls st jobs (check_at (check_turn jobs j (ss, w, pc)))"
    using srv own_calls_turn [where ss = ss and j = j and w = w, OF own] by (simp add: serving_def)
  have cfg: "holds lookup w (config_key key) (json_print (config_json cfg))" if b
    using at that by (simp add: at_phase_def)
  show ?thesis
  proof (cases x)
    case AtRest
    then obtain js' where js: "js = j # js'" "ts = turns_left (Begun j) js'" using assms(5) by (cases js) simp_all
    have run: "running p key cfg ss w s" "pc j = Received"
      using at assms(7,8) cfg js(1) AtRest by (simp_all add: at_phase_def running_ready ready_def)
    obtain ss' w' where turn: "check_turn jobs j (ss, w, pc) = (ss', w', pc(j := Configured cfg (limiter p)))"
      and z: "running p key cfg ss' w' s" "t_wall (now w) \<le> t_wall (now w')"
      by (rule turn_begins [where jobs = jobs and pc = pc and j = j, OF run(1) assms(1) j run(2)])
    let ?pc = "pc(j := Configured cfg (limiter p))"
    have "at_phase p key cfg jobs b (ss', w', ?pc) s (Begun j)"
      using z(1) own' by (simp add: at_phase_def running_ready ready_def turn)
    then have "going_well p key jobs es (ss', w', ?pc) s (Begun j) js'"
      by (intro on) (use assms(6,7) js turn AtRest in auto)
    then show ?thesis
      using answers_later [where f = Some, OF _ z(2)] by (simp add: going_well_def turn AtRest js(1))
  next
    case (Begun i)
    then have i: "i = j" and ts: "ts = j # in_threes js" using assms(5) by simp_all
    have at1: "rel p key w s" "pc j = Configured cfg (limiter p)" using at Begun i by (simp_all add: at_phase_def)
    obtain u w' c where u: "t_wall (now w) \<le> u" "u \<le> t_wall (now w')"
      and turn: "check_turn jobs j (ss, w, pc) =
        (ss, w', pc(j := Decided (t_wall (now w), t_wall (now w')) cfg (fst (step p u s)) c))"
      and z: "due p key w' (snd (step p u s)) c" "\<And>k. undisturbed lookup k w w'"
      using turn_reads [where ss = ss and jobs = jobs and pc = pc and j = j, OF at1(1) j at1(2)] by blast
    let ?t = "(t_wall (now w), t_wall (now w'))" and ?ok = "fst (step p u s)"
    let ?pc = "pc(j := Decided ?t cfg ?ok c)"
    have "at_phase p key cfg jobs b (ss, w', ?pc) (snd (step p u s)) (Halfway j ?t ?ok c)"
      using z own' srv cfg undisturbed_holds [OF z(2)] by (simp add: at_phase_def turn)
    then have "going_well p key jobs es (ss, w', ?pc) (snd (step p u s)) (Halfway j ?t ?ok c) js"
      by (intro on) (use assms(6,7) ts i turn Begun in auto)
    then show ?thesis
      using answers_Cons [where f = Some and a = "t_wall (now w)" and b = "t_wall (now w')", OF _ u u]
      by (simp add: going_well_def turn Begun i)
  next
    case (Halfway i t ok c)
    then have i: "i = j" and ts: "ts = in_threes js" using assms(5) by simp_all
    have at2: "due p key w s c" "pc j = Decided t cfg ok c" using at Halfway i by (simp_all add: at_phase_def)
    have c: "call_store c = st" using own at2(2) by (auto simp: own_calls_def dest: spec [of _ j])
    obtain w' resp where turn: "check_turn jobs j (ss, w, pc) = (ss, w', pc(j := Replied t (Returns (Inr resp))))"
      and ok: "clr_allowed resp = ok" and z: "rel p key w' s" "undisturbed lookup (config_key key) w w'"
      by (rule turn_writes [where jobs = jobs and ss = ss and pc = pc and j = j, OF at2(1) assms(2) c at2(2)])
    let ?pc = "pc(j := Replied t (Returns (Inr resp)))"
    have "at_phase p key cfg jobs b (ss, w', ?pc) s AtRest"
      using z(1) own' srv cfg undisturbed_holds [OF z(2)] by (simp add: at_phase_def turn)
    then have "going_well p key jobs es (ss, w', ?pc) s AtRest js"
      by (intro on) (use assms(6,7) ts i turn Halfway in auto)
    moreover have "check_at (happens jobs es (ss, w', ?pc)) j = Replied t (Returns (Inr resp))"
      by (rule replied_happens) simp
    ultimately show ?thesis
      using answers_later [where f = Some, OF _ due_mono [OF at2(1) z(2)]] ok by (simp add: going_well_def turn Halfway i)
  qed
qed

lemma serial_checks:
  assumes "cfg_algorithm cfg \<in> set valid_algorithms" and "cfg_window_seconds cfg \<noteq> 0" and "settable p key cfg"
    and "resets_inside lookup key cfg jobs (turns_taken x) b es"
    and "turns_among (\<lambda>j. snd (jobs j) = key) es = turns_left x js"
    and "distinct (in_progress x @ js)" and "\<And>j. j \<in> set js \<Longrightarrow> pc j = Received"
    and "at_phase p key cfg jobs b (ss, w, pc) s x"
  shows "going_well p key jobs es (ss, w, pc) s x js"
  using assms(4-)
proof (induction es arbitrary: ss w pc s x js b)
  case Nil
  then show ?case by (cases x; cases js) (simp_all add: going_well_def)
next
  case (Cons e es)
  note at = Cons.prems(5)
  have mine: "snd (jobs j) = key" if "j \<in> set (in_progress x) \<union> set js" for j
    using that turns_among_in [of j "\<lambda>j. snd (jobs j) = key" "e # es"] Cons.prems(2) by (simp add: set_turns_left)
  have beside: ?case
    if e: "aside lookup key e" "\<And>j. e = CheckTurn j \<Longrightarrow> snd (jobs j) \<noteq> key"
      and rest: "resets_inside lookup key cfg jobs (turns_taken x) b es"
        "turns_among (\<lambda>j. snd (jobs j) = key) es = turns_left x js"
  proof -
    obtain ss' w' pc' where z: "happen jobs e (ss, w, pc) = (ss', w', pc')" "at_phase p key cfg jobs b (ss', w', pc') s x"
      "t_wall (now w) \<le> t_wall (now w')" "\<And>j. snd (jobs j) = key \<Longrightarrow> pc' j = pc j"
      using aside_phase [OF at assms(1) e] mine by blast
    have "going_well p key jobs es (ss', w', pc') s x js"
      by (rule Cons.IH [OF rest Cons.prems(3) _ z(2)]) (use z(4) mine Cons.prems(4) in auto)
    then show ?case by (intro going_on) (use z e(1) in \<open>auto simp: aside_def\<close>)
  qed
  show ?case
  proof (cases e)
    case (CheckTurn j)
    show ?thesis
    proof (cases "snd (jobs j) = key")
      case False
      then show ?thesis using beside Cons.prems(1,2) by (simp add: CheckTurn aside_def)
    next
      case True
      show ?thesis
        unfolding CheckTurn
      proof (rule serial_turn [OF assms(1,2) at True _ Cons.prems(3,4)])
        show "j # turns_among (\<lambda>j. snd (jobs j) = key) es = turns_left x js"
          using Cons.prems(2) CheckTurn True by simp
        show "turns_taken x = 0 \<Longrightarrow> b" using Cons.prems(1) CheckTurn True by simp
      next
        fix ss' w' pc' s' x' js'
        assume ts: "turns_among (\<lambda>j. snd (jobs j) = key) es = turns_left x' js'" "distinct (in_progress x' @ js')"
          and wait: "\<And>i. i \<in> set js' \<Longrightarrow> pc' i = Received"
          and at': "at_phase p key cfg jobs b (ss', w', pc') s' x'"
          and n: "turns_taken x' = (if turns_taken x = 2 then 0 else Suc (turns_taken x))"
        have "resets_inside lookup key cfg jobs (turns_taken x') b es" using Cons.prems(1) CheckTurn True n by simp
        from Cons.IH [OF this ts wait at'] show "going_well p key jobs es (ss', w', pc') s' x' js'" .
      qed
    qed
  next
    case (Whole i r)
    consider "r = ResetReq key" | "r = SetReq key cfg" | "r \<noteq> ResetReq key" "r \<noteq> SetReq key cfg" by blast
    then show ?thesis
    proof cases
      case 1
      then have "turns_taken x = 2 \<and> b \<and> resets_inside lookup key cfg jobs (turns_taken x) False es"
        using Cons.prems(1) Whole by auto
      then have n: "turns_taken x = 2" b "resets_inside lookup key cfg jobs (turns_taken x) False es" by blast+
      then obtain j t ok c where x: "x = Halfway j t ok c" by (cases x) simp_all
      have at': "at_phase p key cfg jobs True (ss, w, pc) s (Halfway j t ok c)" using at n(2) x by simp
      obtain ss' w' where z: "happen jobs (Whole i (ResetReq key)) (ss, w, pc) = (ss', w', pc)"
        "fst (reset_limit (ss i) key w) = Returns None" "at_phase p key cfg jobs False (ss', w', pc) s (Halfway j t ok c)"
        "t_wall (now w) \<le> t_wall (now w')"
        by (rule reset_phase [where i = i, OF at' assms(1)])
      have "going_well p key jobs es (ss', w', pc) s x js"
        by (rule Cons.IH [OF n(3)]) (use Cons.prems Whole z(3) x in simp_all)
      then show ?thesis by (intro going_on) (use z Whole 1 in simp_all)
    next
      case 2
      then have n: "resets_inside lookup key cfg jobs (turns_taken x) True es" using Cons.prems(1) Whole by simp
      obtain w' where z: "happen jobs (Whole i (SetReq key cfg)) (ss, w, pc) = (ss, w', pc)"
        "at_phase p key cfg jobs True (ss, w', pc) s x" "t_wall (now w) \<le> t_wall (now w')"
        by (rule set_phase [where i = i, OF at assms(3)])
      have "going_well p key jobs es (ss, w', pc) s x js"
        by (rule Cons.IH [OF n]) (use Cons.prems Whole z(2) in simp_all)
      then show ?thesis by (intro going_on) (use z Whole 2 in simp_all)
    next
      case 3
      then show ?thesis using beside Cons.prems(1,2) by (simp add: Whole)
    qed
  next
    case (Elapse g)
    then show ?thesis using beside Cons.prems(1,2) by simp
  qed
qed

lemma serial_replies:
  assumes "running p key cfg ss w s" and "cfg_algorithm cfg \<in> set valid_algorithms" and "cfg_window_seconds cfg \<noteq> 0"
    and "\<And>us. run us = map snd (spec_seq (step p) s us)" and "settable p key cfg"
    and "resets_inside lookup key cfg jobs 0 True es"
    and "turns_among (\<lambda>j. snd (jobs j) = key) es = in_threes js" and "distinct js"
    and "ds = map (reply \<circ> check_at (happens jobs es (ss, w, \<lambda>j. Received))) js"
  shows "list_all (\<lambda>a. a = Returns None) (reset_answers jobs key es (ss, w, \<lambda>j. Received)) \<and>
    (\<exists>us. sorted us \<and> inside ds us \<and> map snd ds = map Some (run us))"
proof -
  have "at_phase p key cfg jobs True (ss, w, \<lambda>j. Received) s AtRest"
    using assms(1) by (simp add: at_phase_def running_ready ready_def)
  then have "going_well p key jobs es (ss, w, \<lambda>j. Received) s AtRest js"
    by (intro serial_checks [OF assms(2,3,5)]) (use assms(6-8) in simp_all)
  then show ?thesis by (auto simp: going_well_def assms(4,9) answers_def)
qed

text \<open>
  Checks that take no more than two turns each: nothing is written, and who has taken two has read
  the state of the beginning.
\<close>

definition reading ::
    "'p \<Rightarrow> string \<Rightarrow> rate_limit_config \<Rightarrow> (nat \<Rightarrow> 'i \<times> string) \<Rightarrow> int \<Rightarrow> 'a \<Rightarrow> nat list \<Rightarrow> ('i, 's) servers \<Rightarrow> bool" where
  "reading p key cfg jobs t s ns z \<longleftrightarrow> (case z of (ss, w, pc) \<Rightarrow> running p key cfg ss w s \<and> own_calls st jobs pc \<and>
     t \<le> t_wall (now w) \<and> (\<forall>j. snd (jobs j) = key \<longrightarrow>
       (count_list ns j = 0 \<longrightarrow> pc j = Received) \<and> (count_list ns j = 1 \<longrightarrow> pc j = Configured cfg (limiter p)) \<and>
       (count_list ns j = 2 \<longrightarrow> (\<exists>t c. pc j = Decided t cfg True c))))"

lemma own_calls_ready:
  "own_calls st jobs pc \<Longrightarrow> ready p key cfg ss w \<Longrightarrow> own_calls st jobs (check_at (check_turn jobs j (ss, w, pc)))"
  by (simp add: own_calls_turn ready_def serving_def)

lemma reading_turn:
  assumes "reading p key cfg jobs t s ns (ss, w, pc)" and "cfg_algorithm cfg \<in> set valid_algorithms"
    and "snd (jobs j) = key" and "count_list ns j \<le> 1" and "\<And>u. t \<le> u \<Longrightarrow> fst (step p u s)"
  shows "reading p key cfg jobs t s (ns @ [j]) (check_turn jobs j (ss, w, pc))"
proof -
  have run: "running p key cfg ss w s" and own: "own_calls st jobs pc" and le: "t \<le> t_wall (now w)"
    and pcs: "\<And>i. snd (jobs i) = key \<Longrightarrow> (count_list ns i = 0 \<longrightarrow> pc i = Received) \<and>
      (count_list ns i = 1 \<longrightarrow> pc i = Configured cfg (limiter p)) \<and> (count_list ns i = 2 \<longrightarrow> (\<exists>t c. pc i = Decided t cfg True c))"
    using assms(1) by (simp_all add: reading_def)
  have own': "own_calls st jobs (check_at (check_turn jobs j (ss, w, pc)))"
    using own_calls_ready [OF own, of p key cfg ss w j] run by (simp add: running_ready)
  consider "count_list ns j = 0" | "count_list ns j = 1" using assms(4) by linarith
  then show ?thesis
  proof cases
    case 1
    have pc: "pc j = Received" using pcs [OF assms(3)] 1 by simp
    obtain ss' w' where turn: "check_turn jobs j (ss, w, pc) = (ss', w', pc(j := Configured cfg (limiter p)))"
      and "running p key cfg ss' w' s" "t_wall (now w) \<le> t_wall (now w')"
      by (rule turn_begins [where jobs = jobs and pc = pc and j = j, OF run assms(2,3) pc])
    then show ?thesis using own' le pcs 1 by (simp add: reading_def)
  next
    case 2
    have pc: "pc j = Configured cfg (limiter p)" using pcs [OF assms(3)] 2 by simp
    have rel: "rel p key w s" using run by (simp add: running_ready)
    obtain u w' c where u: "t_wall (now w) \<le> u" "u \<le> t_wall (now w')"
      and turn: "check_turn jobs j (ss, w, pc) =
        (ss, w', pc(j := Decided (t_wall (now w), t_wall (now w')) cfg (fst (step p u s)) c))"
      and due: "due p key w' (snd (step p u s)) c" and und: "\<And>k. undisturbed lookup k w w'"
      using turn_reads [where ss = ss and jobs = jobs and pc = pc and j = j, OF rel assms(3) pc] by blast
    have "ready p key cfg ss w" using run by (simp add: running_ready)
    then have "ready p key cfg ss w'" by (rule ready_later [OF _ und])
    then have "running p key cfg ss w' s" using rel_undisturbed [OF rel und] by (simp add: running_ready)
    moreover have "fst (step p u s)" using assms(5) le u(1) by simp
    ultimately show ?thesis using own' le u pcs 2 by (simp add: reading_def turn)
  qed
qed

lemma turns_among_append: "turns_among P (es @ es') = turns_among P es @ turns_among P es'"
  by (induction P es rule: turns_among.induct) simp_all

lemma reading_runs:
  assumes "running p key cfg ss w s" and "cfg_algorithm cfg \<in> set valid_algorithms"
    and "\<And>u. t_wall (now w) \<le> u \<Longrightarrow> fst (step p u s)"
    and "\<forall>e \<in> set es. aside lookup key e" and "\<forall>j. count_list (turns_among (\<lambda>j. snd (jobs j) = key) es) j \<le> 2"
  shows "reading p key cfg jobs (t_wall (now w)) s (turns_among (\<lambda>j. snd (jobs j) = key) es) (happens jobs es (ss, w, \<lambda>j. Received))"
  using assms(4,5)
proof (induction es rule: rev_induct)
  case Nil
  then show ?case using assms(1) by (simp add: reading_def)
next
  case (snoc e es)
  let ?ns = "turns_among (\<lambda>j. snd (jobs j) = key) es" and ?z = "happens jobs es (ss, w, \<lambda>j. Received)"
  obtain ss1 w1 pc1 where z: "?z = (ss1, w1, pc1)" using prod_cases3 by blast
  have "count_list ?ns j \<le> 2" for j
    using spec [OF snoc.prems(2), of j] by (simp only: turns_among_append count_list_append)
  then have at: "reading p key cfg jobs (t_wall (now w)) s ?ns (ss1, w1, pc1)" using snoc.IH snoc.prems(1) by (simp add: z)
  show ?case
  proof (cases "\<exists>j. e = CheckTurn j \<and> snd (jobs j) = key")
    case True
    then obtain j where j: "e = CheckTurn j" "snd (jobs j) = key" by blast
    have "count_list ?ns j \<le> 1" using spec [OF snoc.prems(2), of j] j by (simp add: turns_among_append)
    from reading_turn [OF at assms(2) j(2) this assms(3)] show ?thesis
      by (simp add: z turns_among_append j)
  next
    case False
    have run: "running p key cfg ss1 w1 s" and own: "own_calls st jobs pc1" and le: "t_wall (now w) \<le> t_wall (now w1)"
      using at by (simp_all add: reading_def)
    have rel: "rel p key w1 s" and rdy: "ready p key cfg ss1 w1" using run by (simp_all add: running_ready)
    have srv: "serving p key cfg ss1" and as: "aside lookup key e" using rdy snoc.prems(1) by (simp_all add: ready_def)
    obtain ss' w' pc' where n: "happen jobs e (ss1, w1, pc1) = (ss', w', pc')" "own_calls st jobs pc'" "serving p key cfg ss'"
      "\<And>k. k \<in> client_keys key \<Longrightarrow> undisturbed lookup k w1 w'" "\<And>j. snd (jobs j) = key \<Longrightarrow> pc' j = pc1 j"
      using aside_keeps [OF srv assms(2) own rel_steady [OF rel] as] False by blast
    have u: "undisturbed lookup (lim_state_key (limiter p) key) w1 w'" "undisturbed lookup (config_key key) w1 w'"
      using n(4) by simp_all
    have "running p key cfg ss' w' s"
      using rel_undisturbed [OF rel u(1)] ready_later [OF rdy u(2)] n(3) by (simp add: running_ready ready_def)
    moreover have "t_wall (now w1) \<le> t_wall (now w')"
      using u(1) rel_steady [OF rel] by (simp add: undisturbed_def now_def steady_mono)
    moreover have "turns_among (\<lambda>j. snd (jobs j) = key) (es @ [e]) = ?ns"
      using False by (cases e) (simp_all add: turns_among_append)
    ultimately show ?thesis using at le n(1,2,5) by (simp add: reading_def z)
  qed
qed

lemma readers_allowed:
  assumes "running p key cfg ss w s" and "cfg_algorithm cfg \<in> set valid_algorithms" and "cfg_window_seconds cfg \<noteq> 0"
    and "\<And>u. t_wall (now w) \<le> u \<Longrightarrow> fst (step p u s)"
    and "\<forall>e \<in> set es. aside lookup key e" and "\<forall>j. count_list (turns_among (\<lambda>j. snd (jobs j) = key) es) j \<le> 2"
    and "count_list (turns_among (\<lambda>j. snd (jobs j) = key) es) i = 2" and "CheckTurn i \<in> set es'"
  shows "\<exists>t resp. check_at (happens jobs (es @ es') (ss, w, \<lambda>j. Received)) i = Replied t (Returns (Inr resp)) \<and> clr_allowed resp"
proof -
  have "i \<in> set (turns_among (\<lambda>j. snd (jobs j) = key) es)" using assms(7) by (metis count_notin zero_neq_numeral)
  then have "snd (jobs i) = key" by (rule turns_among_in)
  then obtain t c where "check_at (happens jobs es (ss, w, \<lambda>j. Received)) i = Decided t cfg True c"
    using reading_runs [OF assms(1,2,4-6)] assms(7) by (auto simp: reading_def split_beta)
  from decided_allowed [OF this assms(3,8), of jobs] show ?thesis by auto
qed

end

section \<open>The checks of a configuration\<close>

context durable_store
begin

lemma config_checks:
  assumes "well_configured cfg" and "config_range cfg (w_clock w)"
    and "holds lookup w (config_key key) (json_print (config_json cfg))"
    and "\<And>l :: 'a rate_limiter. holds lookup w (lim_state_key l key) []"
    and "\<And>i. sound_service (ss i) \<and> rls_store (ss i) = st \<and>
      rls_limiters (ss i) (limiter_key key (cfg_algorithm cfg)) = None"
  shows "resets_inside lookup key cfg jobs 0 True es \<Longrightarrow>
    turns_among (\<lambda>j. snd (jobs j) = key) es = in_threes js \<Longrightarrow> distinct js \<Longrightarrow>
    ds = map (reply \<circ> check_at (happens jobs es (ss, w, \<lambda>j. Received))) js \<Longrightarrow>
    list_all (\<lambda>a. a = Returns None) (reset_answers jobs key es (ss, w, \<lambda>j. Received)) \<and>
    (\<exists>us. sorted us \<and> inside ds us \<and> map snd ds = map Some (config_run cfg (t_wall (w_clock w 0)) us))"
    (is "?inside \<Longrightarrow> ?turns \<Longrightarrow> ?dist \<Longrightarrow> ?ds \<Longrightarrow> ?serial")
    and "\<forall>e \<in> set es. aside lookup key e \<Longrightarrow> \<forall>j. count_list (turns_among (\<lambda>j. snd (jobs j) = key) es) j \<le> 2 \<Longrightarrow>
    count_list (turns_among (\<lambda>j. snd (jobs j) = key) es) i = 2 \<Longrightarrow> CheckTurn i \<in> set es' \<Longrightarrow>
    \<exists>t resp. check_at (happens jobs (es @ es') (ss, w, \<lambda>j. Received)) i = Replied t (Returns (Inr resp)) \<and> clr_allowed resp"
    (is "?aside \<Longrightarrow> ?two \<Longrightarrow> ?read \<Longrightarrow> ?last \<Longrightarrow> ?allowed")
proof -
  have valid: "cfg_algorithm cfg \<in> set valid_algorithms" and win: "cfg_window_seconds cfg \<noteq> 0"
    using assms(1) by (auto simp: well_configured_def)
  have uses: "uses (ss i) key cfg l" if "make_limiter st cfg = Inr l" for i l
    using assms(5) win that by (intro sound_uses [where st = st]) blast+
  have set: "\<exists>w'. set_config s key cfg w = (None, w') \<and> holds lookup w' (config_key key) (json_print (config_json cfg)) \<and>
      undisturbed lookup (lim_state_key (l :: 'a rate_limiter) key) w w'" if s: "rls_store s = st" for s w l
  proof -
    obtain w' where w': "set_config s key cfg w = (None, w')" by (rule set_config_accepts [OF s assms(1)])
    have "lim_state_key l key \<noteq> config_key key" "lim_state_key l key \<noteq> metadata_key key" by simp_all
    from set_config_undisturbed [OF s this, of w cfg] set_config_holds(2) [OF s w'] w' show ?thesis by simp
  qed
  have settable: "fws.settable q key cfg" "sws.settable q key cfg" "lbs.settable r key cfg" "tbs.settable v key cfg" for q r v
    using set unfolding fws.settable_def sws.settable_def lbs.settable_def tbs.settable_def by blast+
  note run = assms(3,5) uses
  have "(?inside \<longrightarrow> ?turns \<longrightarrow> ?dist \<longrightarrow> ?ds \<longrightarrow> ?serial) \<and> (?aside \<longrightarrow> ?two \<longrightarrow> ?read \<longrightarrow> ?last \<longrightarrow> ?allowed)"
    using assms(1,2,4)
  proof (cases rule: config_start)
    case (fixed m d)
    then have r: "fws.running (m, d) key cfg ss w (0, 0)" using run by (simp add: fws.running_def)
    have "fst (window_step (sint m) (sint d) u (0, 0))" for u using fixed(2) by (cases "0 \<le> u") simp_all
    then show ?thesis
      using fws.serial_replies [OF r valid win, of "config_run cfg (t_wall (w_clock w 0))" jobs es js ds] fixed(4) settable(1)
        fws.readers_allowed [OF r valid win, of es jobs i es'] by auto
  next
    case (sliding m d)
    then have r: "sws.running (m, d) key cfg ss w []" using run by (simp add: sws.running_def)
    have "fst (log_step (sint m) (sint d) u [])" for u using sliding(2) by (simp add: log_step_fst)
    then show ?thesis
      using sws.serial_replies [OF r valid win, of "config_run cfg (t_wall (w_clock w 0))" jobs es js ds] sliding(5) settable(2)
        sws.readers_allowed [OF r valid win, of es jobs i es'] by auto
  next
    case (leaky m r d)
    then have r: "lbs.running (m, r, d) key cfg ss w (0, t_wall (w_clock w 0))" using run by (simp add: lbs.running_def)
    have "fst (leak_step (sint m) (sint r) (sint d) u (0, t_wall (w_clock w 0)))" if "t_wall (now w) \<le> u" for u
      using lb_fresh_allows [OF leaky(2,3) that] .
    then show ?thesis
      using lbs.serial_replies [OF r valid win, of "config_run cfg (t_wall (w_clock w 0))" jobs es js ds] leaky(4) settable(3)
        lbs.readers_allowed [OF r valid win, of es jobs i es'] by auto
  next
    case (token m r d)
    then have r: "tbs.running (m, r, d) key cfg ss w (m, t_wall (w_clock w 0))" using run by (simp add: tbs.running_def)
    have "fst (token_step m r (sint d) u (m, t_wall (w_clock w 0)))" for u
      using tb_fresh_allows [OF token(2,3)] .
    then show ?thesis
      using tbs.serial_replies [OF r valid win, of "config_run cfg (t_wall (w_clock w 0))" jobs es js ds] token(4) settable(4)
        tbs.readers_allowed [OF r valid win, of es jobs i es'] by auto
  qed
  then show "?inside \<Longrightarrow> ?turns \<Longrightarrow> ?dist \<Longrightarrow> ?ds \<Longrightarrow> ?serial"
    and "?aside \<Longrightarrow> ?two \<Longrightarrow> ?read \<Longrightarrow> ?last \<Longrightarrow> ?allowed" by blast+
qed

end

section \<open>Properties\<close>


text \<open>Three checks of \<open>u\<close> and one of \<open>v\<close> on two servers; the turns of the last lie within the others.\<close>

definition demo_checks_of :: "nat \<Rightarrow> nat \<times> string" where
  "demo_checks_of j = (j mod 2, if j < 3 then ''u'' else ''v'')"

definition demo_events :: "(nat, redis_map) event list" where
  "demo_events = [Whole 1 (SetReq ''v'' (demo_config algorithm_leaky_bucket)), CheckTurn 0, CheckTurn 3, CheckTurn 0,
     Whole 0 (StatusReq ''u''), CheckTurn 3, CheckTurn 0, CheckTurn 1, Elapse (skip 5), CheckTurn 1, CheckTurn 3,
     CheckTurn 1, CheckTurn 2, CheckTurn 2, Whole 1 (ResetReq ''v''), CheckTurn 2]"

lemma demo_aside: "\<forall>e \<in> set demo_events. aside map_lookup ''u'' e"
  by (simp add: demo_events_def aside_def)

lemma demo_events_turns: "turns_among (\<lambda>j. snd (demo_checks_of j) = ''u'') demo_events = in_threes [0, 1, 2]"
  by (simp add: demo_events_def demo_checks_of_def)


text \<open>
  C25: Any number of checks of a key are all let through, whatever the number of the limit and the
  algorithm, if the limit has just been set for a key for which Redis held nothing and no check writes
  before all of them have read: in any schedule \<open>es\<close> in which no check of the key takes more than two
  of its turns, with turns of other checks, requests about other keys and quiet activity in between,
  each check that has taken two is allowed at its third turn, whatever happens in \<open>es'\<close> before that and
  afterwards. Assumed: one steady clock, and no number overflows or state expires (\<open>config_range\<close>: for a
  token or a leaky bucket the readings lie within a day less a second).
\<close>

theorem overlapping_requests_exceed:
  assumes "redis_serves c lookup alive" and "new_limit lookup c key cfg ss w" and "config_range cfg (w_clock w)"
    and "\<forall>e \<in> set es. aside lookup key e" and "ns = turns_among (\<lambda>j. snd (jobs j) = key) es"
    and "\<forall>j. count_list ns j \<le> 2" and "count_list ns i = 2" and "CheckTurn i \<in> set es'"
  shows "\<exists>t resp. check_at (happens jobs (es @ es') (ss, w, \<lambda>j. Received)) i = Replied t (Returns (Inr resp)) \<and>
    clr_allowed resp"
  by (rule durable_store.config_checks(2) [OF redis_durable_store [OF assms(1)] new_limit_start(1) [OF assms(1,2)] assms(3)
    new_limit_start(2-4) [OF assms(1,2)] assms(4)]) (use assms(5-8) in simp_all)

text \<open>A token bucket with two tokens: six checks on two servers, and one more that comes too late.\<close>

definition demo_reads :: "(nat, redis_map) event list" where
  "demo_reads = map CheckTurn [0, 1, 0, 2, 3, 1] @ [Elapse (skip 3), Whole 0 (ResetReq ''v'')] @
     map CheckTurn [4, 5, 5, 2, 6, 4, 3]"

definition demo_writes :: "(nat, redis_map) event list" where
  "demo_writes = map CheckTurn [5, 0, 6, 1, 2] @ [Whole 1 (ResetReq ''u'')] @ map CheckTurn [6, 3, 4]"

theorem overlapping_requests_exceed_witness:
  "map (snd \<circ> reply \<circ> check_at (happens (\<lambda>j. (j mod 2, ''u'')) (demo_reads @ demo_writes)
    (\<lambda>i. demo_service, demo_set algorithm_token_bucket, \<lambda>j. Received))) [0..<6] = replicate 6 (Some True)"
proof -
  let ?z = "happens (\<lambda>j. (j mod 2, ''u'')) (demo_reads @ demo_writes)
    (\<lambda>i. demo_service, demo_set algorithm_token_bucket, \<lambda>j. Received)"
  have turns: "turns_among (\<lambda>j. snd (j mod 2, ''u'') = ''u'') demo_reads = [0, 1, 0, 2, 3, 1, 4, 5, 5, 2, 6, 4, 3]"
    by (simp add: demo_reads_def)
  have "(snd \<circ> reply \<circ> check_at ?z) i = Some True" if i: "i \<in> {0, 1, 2, 3, 4, 5}" for i
  proof -
    have "\<exists>t resp. check_at ?z i = Replied t (Returns (Inr resp)) \<and> clr_allowed resp"
      by (rule overlapping_requests_exceed [OF map_client_serves demo_new_limit _ _ turns [symmetric]])
        (use i in \<open>auto simp: demo_set_clock demo_ranges demo_reads_def demo_writes_def aside_def\<close>)
    then obtain t resp where "check_at ?z i = Replied t (Returns (Inr resp))" "clr_allowed resp" by blast
    then show ?thesis by (simp only: o_apply reply.simps snd_conv) simp
  qed
  moreover have "i \<in> {0, 1, 2, 3, 4, 5}" if "i \<in> set [0..<6]" for i :: nat using that by auto
  ultimately have "map (snd \<circ> reply \<circ> check_at ?z) [0..<6] = map (\<lambda>i. Some True) [0..<6]"
    by (intro map_cong refl) blast
  then show ?thesis by (simp only: map_replicate_const length_upt) simp
qed


text \<open>The second and the third of four checks of \<open>u\<close> overlap with a reset; the limit is two checks in a window.\<close>

definition demo_resets :: "(nat, redis_map) event list" where
  "demo_resets = map CheckTurn [0, 0, 0, 1, 1] @ [Whole 0 (ResetReq ''u''), Elapse (skip 2), CheckTurn 1,
     Whole 0 (SetReq ''u'' (demo_config algorithm_sliding_window))] @ map CheckTurn [2, 2] @
     [Whole 1 (ResetReq ''u''), Whole 1 (SetReq ''u'' (demo_config algorithm_sliding_window))] @ map CheckTurn [2, 3, 3, 3]"


end
